(* ===== verification/Novium_Prelude.thy ===== *)
theory Novium_Prelude
  imports Main "HOL-Library.Word" "HOL-Library.Monad_Syntax"
begin

text \<open>
  Shared vocabulary of the development: the integer types of
  \<^verbatim>\<open>src/include/novium/types.h\<close>, the collections of simplification rules the component
  theories extend, and generic facts on words, lists and options.

  A loop of the C code that walks pointers may in principle not end. Such a loop is a
  \<^theory_text>\<open>partial_function (option)\<close>: \<^const>\<open>None\<close> is "does not return", and the component
  theories prove that it returns \<^const>\<open>Some\<close> in every well-formed state.
\<close>

unbundle bit_operations_syntax

type_synonym u8 = "8 word"
type_synonym u16 = "16 word"
type_synonym u32 = "32 word"
type_synonym u64 = "64 word"

named_theorems irq_simps \<open>the interrupt helpers change nothing but the processor flags\<close>
named_theorems word_count \<open>counters that do not wrap, read as natural numbers\<close>

subsection \<open>Words\<close>

lemma unat_plus_one [word_count]:
  fixes i n :: "'a::len word"
  assumes "i < n"
  shows "unat (i + 1) = unat i + 1"
proof -
  have "unat i < unat n" using assms by (simp add: word_less_nat_alt)
  then have "unat i + 1 < 2 ^ LENGTH('a)" using unsigned_less [of n, where ?'a = nat] by linarith
  then show ?thesis by (simp add: unat_word_ariths unat_of_nat)
qed

lemma unat_minus_one' [word_count]:
  fixes i :: "'a::len word"
  assumes "i \<noteq> 0"
  shows "unat (i - 1) = unat i - 1"
  using assms by (simp add: unat_minus_one)

lemma unat_succ_bound [word_count]:
  fixes i :: u32
  shows "unat i < 4294967295 \<Longrightarrow> unat (i + 1) = unat i + 1"
  by (simp add: unat_word_ariths)

lemma unat_pos_iff: "0 < unat (i :: 'a::len word) \<longleftrightarrow> i \<noteq> 0"
  by (simp add: unat_gt_0)

lemma u32_less: "unat (x :: u32) < 4294967296"
  using unsigned_less [of x] by simp

lemma unat_of_nat_u32: "k < 4294967296 \<Longrightarrow> unat (of_nat k :: u32) = k"
  by (simp add: unat_of_nat take_bit_nat_eq_self)

lemma align_down: "(x :: 'a::len word) AND NOT (mask n) = push_bit n (drop_bit n x)"
  by (rule bit_eqI) (auto simp: bit_simps dest: bit_imp_le_length)

lemma unat_ucast_u64: "unat (ucast (x :: u32) :: u64) = unat x"
  using u32_less [of x] by (simp add: unsigned_ucast_eq take_bit_nat_eq_self)

lemma interval_disjoint:
  fixes a b m n :: nat
  assumes "{a..<a + n} \<inter> {b..<b + m} = {}" and "0 < n" and "0 < m"
  shows "a + n \<le> b \<or> b + m \<le> a"
proof (rule ccontr)
  assume "\<not> ?thesis"
  then have "max a b \<in> {a..<a + n} \<inter> {b..<b + m}" using assms(2,3) by auto
  then show False using assms(1) by blast
qed

subsection \<open>Lists\<close>

lemma remove1_filter_distinct:
  "distinct xs \<Longrightarrow> remove1 x xs = filter (\<lambda>y. y \<noteq> x) xs"
  by (simp add: distinct_remove1_removeAll removeAll_filter_not_eq neq_commute)

lemma remove1_split:
  assumes "x \<notin> set ys"
  shows "remove1 x (ys @ x # zs) = ys @ zs"
  using assms by (simp add: remove1_append)

lemma nth_update_other [simp]: "i \<noteq> j \<Longrightarrow> xs[i := v] ! j = xs ! j"
  by simp

lemma upt_split: "i \<le> j \<Longrightarrow> j \<le> k \<Longrightarrow> [i..<k] = [i..<j] @ [j..<k]"
  using upt_add_eq_append [of i j "k - j"] by simp

lemma find_append: "find P (xs @ ys) = (case find P xs of None \<Rightarrow> find P ys | Some x \<Rightarrow> Some x)"
  by (induction xs) auto

lemma find_skip: "(\<And>x. x \<in> set xs \<Longrightarrow> \<not> P x) \<Longrightarrow> find P (xs @ ys) = find P ys"
  by (induction xs) auto

lemma find_map: "find P (map f xs) = map_option f (find (\<lambda>x. P (f x)) xs)"
  by (induction xs) auto

text \<open>A search loop over consecutive numbers stops at the least one that fits.\<close>

lemma find_upt_Min:
  "find P [a..<b] = (let S = {x. a \<le> x \<and> x < b \<and> P x} in if S = {} then None else Some (Min S))"
proof (cases "find P [a..<b]")
  case None
  then show ?thesis by (auto simp: find_None_iff)
next
  case (Some x)
  then obtain i where i: "i < b - a" "P (a + i)" "x = a + i" "\<forall>j < i. \<not> P (a + j)"
    unfolding find_Some_iff by auto
  have "Min {x. a \<le> x \<and> x < b \<and> P x} = x"
  proof (rule Min_eqI)
    fix y
    assume y: "y \<in> {x. a \<le> x \<and> x < b \<and> P x}"
    show "x \<le> y"
    proof (rule ccontr)
      assume "\<not> x \<le> y"
      then have "y - a < i" using y i(3) by auto
      then show False using i(4) y by auto
    qed
  qed (use i in auto)
  moreover have "x \<in> {x. a \<le> x \<and> x < b \<and> P x}" using i by auto
  ultimately show ?thesis using Some by (auto simp: Let_def)
qed

text \<open>Deleting an element of an array by moving the last one into its place.\<close>

lemma swap_delete:
  assumes "distinct xs" and "k < length xs"
  shows "set (butlast (xs[k := last xs])) = set xs - {xs ! k}"
    and "distinct (butlast (xs[k := last xs]))"
proof -
  obtain ys z where xs: "xs = ys @ [z]" using assms(2) by (cases xs rule: rev_cases) auto
  have eq: "butlast (xs[k := last xs]) = (if k = length ys then ys else ys[k := z])"
    using assms(2) by (auto simp: xs list_update_append nth_append split: nat.splits)
  have d: "distinct ys" "z \<notin> set ys" using assms(1) by (simp_all add: xs)
  show "set (butlast (xs[k := last xs])) = set xs - {xs ! k}"
    using assms(2) d unfolding eq by (auto simp: xs nth_append set_update_distinct)
  show "distinct (butlast (xs[k := last xs]))"
    using d unfolding eq by (auto intro: distinct_list_update)
qed

subsection \<open>Computations that return\<close>

text \<open>
  \<open>returns m P\<close>: the computation \<open>m\<close> comes back, with a result that satisfies \<open>P\<close>. The rules
  below follow the code's sequence of calls.
\<close>

definition returns :: "'a option \<Rightarrow> ('a \<Rightarrow> bool) \<Rightarrow> bool" where
  "returns m P \<longleftrightarrow> (\<exists>x. m = Some x \<and> P x)"

lemma returns_Some [simp]: "returns (Some x) P \<longleftrightarrow> P x"
  by (simp add: returns_def)

lemma returns_bind:
  assumes "returns m P" and "\<And>x. P x \<Longrightarrow> returns (f x) Q"
  shows "returns (Option.bind m f) Q"
  using assms by (auto simp: returns_def)

lemma returns_weaken: "returns m P \<Longrightarrow> (\<And>x. P x \<Longrightarrow> Q x) \<Longrightarrow> returns m Q"
  by (auto simp: returns_def)

lemma returns_the: "returns m P \<Longrightarrow> P (the m)"
  by (auto simp: returns_def)

end
