(* ===== verification/Kstring.thy ===== *)
theory Kstring
  imports Page_Alloc "HOL-Library.List_Lexorder"
begin

text \<open>
  The memory and string routines of \<^verbatim>\<open>src/lib/string.c\<close> over a memory of bytes at 32-bit
  addresses. Counted loops recurse on the count; \<^verbatim>\<open>strlen\<close> and \<^verbatim>\<open>strcmp\<close>, which run until they
  meet a byte, are partial functions. \<open>copied\<close> is the specification of a copy: the bytes of the
  source as they were before, everything else unchanged. \<^verbatim>\<open>memmove\<close> meets it for overlapping
  blocks too; the locale \<open>block_mover\<close> is what the console's scrolling relies on.
\<close>

subsection \<open>Operations\<close>

primrec memset_loop :: "nat \<Rightarrow> u32 \<Rightarrow> u8 \<Rightarrow> bytes \<Rightarrow> bytes" where
  "memset_loop 0 ptr c m = m"
| "memset_loop (Suc n) ptr c m = memset_loop n (ptr + 1) c (m(ptr := c))"

definition memset :: "u32 \<Rightarrow> u32 \<Rightarrow> u32 \<Rightarrow> bytes \<Rightarrow> u32 \<times> bytes" where
  "memset s c len m = (s, memset_loop (unat len) s (ucast c) m)"

text \<open>The forward loop, shared by \<^verbatim>\<open>memcpy\<close> and \<^verbatim>\<open>memmove\<close>, and the backward loop.\<close>

primrec copy_up :: "nat \<Rightarrow> u32 \<Rightarrow> u32 \<Rightarrow> bytes \<Rightarrow> bytes" where
  "copy_up 0 d s m = m"
| "copy_up (Suc n) d s m = copy_up n (d + 1) (s + 1) (m(d := m s))"

primrec copy_down :: "nat \<Rightarrow> u32 \<Rightarrow> u32 \<Rightarrow> bytes \<Rightarrow> bytes" where
  "copy_down 0 d s m = m"
| "copy_down (Suc n) d s m = copy_down n (d - 1) (s - 1) (m(d - 1 := m (s - 1)))"

definition memmove :: "u32 \<Rightarrow> u32 \<Rightarrow> u32 \<Rightarrow> bytes \<Rightarrow> u32 \<times> bytes" where
  "memmove dest src len m =
     (dest, if dest < src then copy_up (unat len) dest src m
            else if dest > src then copy_down (unat len) (dest + len) (src + len) m
            else m)"

definition memcpy :: "u32 \<Rightarrow> u32 \<Rightarrow> u32 \<Rightarrow> bytes \<Rightarrow> u32 \<times> bytes" where
  "memcpy dest src len m = (dest, copy_up (unat len) dest src m)"

partial_function (option) strlen_loop :: "bytes \<Rightarrow> u32 \<Rightarrow> u32 \<Rightarrow> u32 option" where
  "strlen_loop m str len = (if m (str + len) \<noteq> 0 then strlen_loop m str (len + 1) else Some len)"

definition strlen :: "u32 \<Rightarrow> bytes \<Rightarrow> u32 option" where
  "strlen str m = strlen_loop m str 0"

partial_function (option) strcmp :: "u32 \<Rightarrow> u32 \<Rightarrow> bytes \<Rightarrow> u32 option" where
  "strcmp s1 s2 m =
     (if m s1 \<noteq> 0 \<and> m s1 = m s2 then strcmp (s1 + 1) (s2 + 1) m
      else Some (ucast (m s1) - ucast (m s2)))"

declare strlen_loop.simps [code] strcmp.simps [code]

subsection \<open>Copying\<close>

definition copied :: "u32 \<Rightarrow> u32 \<Rightarrow> nat \<Rightarrow> bytes \<Rightarrow> bytes \<Rightarrow> bool" where
  "copied d s n m m' \<longleftrightarrow> (\<forall>k < n. m' (d + of_nat k) = m (s + of_nat k)) \<and>
     (\<forall>a. (\<forall>k < n. a \<noteq> d + of_nat k) \<longrightarrow> m' a = m a)"

definition in_memory :: "u32 \<Rightarrow> nat \<Rightarrow> bool" where
  "in_memory a n \<longleftrightarrow> unat a + n \<le> 2 ^ 32"

lemma unat_offset:
  assumes "in_memory a n" and "k < n"
  shows "unat (a + of_nat k) = unat a + k"
proof -
  have "unat (of_nat k :: u32) = k" using assms by (intro unat_of_nat_u32) (simp add: in_memory_def)
  then show ?thesis using assms by (simp add: unat_plus_if_size word_size in_memory_def)
qed

lemma offset_inject: "in_memory a n \<Longrightarrow> j < n \<Longrightarrow> k < n \<Longrightarrow> a + of_nat j = a + of_nat k \<longleftrightarrow> j = k"
  by (metis add_left_cancel unat_offset)

text \<open>A copy, one byte first or one byte last.\<close>

lemma copied_first:
  assumes "copied (d + 1) (s + 1) n (m(d := m s)) m'" and "\<And>k. k < n \<Longrightarrow> s + 1 + of_nat k \<noteq> d"
    and "\<And>k. k < n \<Longrightarrow> d + 1 + of_nat k \<noteq> d"
  shows "copied d s (Suc n) m m'"
proof -
  have step: "m' (d + 1 + of_nat k) = m (s + 1 + of_nat k)" if "k < n" for k
    using assms(1,2) that by (simp add: copied_def)
  have rest: "m' a = (m(d := m s)) a" if "\<And>k. k < n \<Longrightarrow> a \<noteq> d + 1 + of_nat k" for a
    using assms(1) that by (simp add: copied_def)
  have "m' (d + of_nat k) = m (s + of_nat k)" if "k < Suc n" for k
  proof (cases k)
    case 0
    then show ?thesis using rest [of d] assms(3) by fastforce
  next
    case (Suc j)
    then show ?thesis using step [of j] that by (simp add: add.assoc)
  qed
  moreover have "m' a = m a" if away: "\<And>k. k < Suc n \<Longrightarrow> a \<noteq> d + of_nat k" for a
  proof -
    have "a \<noteq> d" using away [of 0] by simp
    moreover have "a \<noteq> d + 1 + of_nat k" if "k < n" for k using away [of "Suc k"] that by (simp add: add.assoc)
    ultimately show ?thesis using rest [of a] by simp
  qed
  ultimately show ?thesis by (simp add: copied_def)
qed

lemma copied_last:
  assumes "copied d s n (m(d + of_nat n := m (s + of_nat n))) m'"
    and "\<And>k. k < n \<Longrightarrow> s + of_nat k \<noteq> d + of_nat n" and "\<And>k. k < n \<Longrightarrow> d + of_nat n \<noteq> d + of_nat k"
  shows "copied d s (Suc n) m m'"
  using assms by (auto simp: copied_def less_Suc_eq)

lemma copy_up_copied:
  assumes "in_memory s n" and "in_memory d n" and "d < s \<or> (\<forall>j < n. \<forall>k < n. s + of_nat j \<noteq> d + of_nat k)"
  shows "copied d s n m (copy_up n d s m)"
  using assms
proof (induction n arbitrary: d s m)
  case (Suc n)
  note ds = unat_offset [OF Suc.prems(2)] and ss = unat_offset [OF Suc.prems(1)]
  show ?case
  proof (cases n)
    case [simp]: 0
    show ?thesis by (auto simp: copied_def)
  next
    case (Suc n')
    have s1: "unat (s + 1) = unat s + 1" and d1: "unat (d + 1) = unat d + 1"
      using ss [of 1] ds [of 1] Suc by simp_all
    have shift: "x + 1 + of_nat k = x + of_nat (Suc k)" for x :: u32 and k by simp
    have "copied (d + 1) (s + 1) n (m(d := m s)) (copy_up n (d + 1) (s + 1) (m(d := m s)))"
    proof (rule Suc.IH)
      show "in_memory (s + 1) n" "in_memory (d + 1) n"
        using Suc.prems(1,2) s1 d1 by (simp_all add: in_memory_def)
      show "d + 1 < s + 1 \<or> (\<forall>j<n. \<forall>k<n. s + 1 + of_nat j \<noteq> d + 1 + of_nat k)"
        using Suc.prems(3) s1 d1 unfolding shift by (auto simp: word_less_nat_alt)
    qed
    moreover have "s + 1 + of_nat k \<noteq> d" if "k < n" for k
    proof -
      have "unat (s + of_nat (Suc k)) = unat s + Suc k" using ss [of "Suc k"] that by simp
      then have "d < s \<Longrightarrow> d \<noteq> s + of_nat (Suc k)" by (auto simp: word_less_nat_alt)
      moreover have "d \<noteq> s + of_nat (Suc k)" if "\<forall>j < Suc n. \<forall>k < Suc n. s + of_nat j \<noteq> d + of_nat k"
        using that [rule_format, of "Suc k" 0] \<open>k < n\<close> by simp
      ultimately have "d \<noteq> s + of_nat (Suc k)" using Suc.prems(3) by blast
      then show ?thesis unfolding shift by simp
    qed
    moreover have "d + 1 + of_nat k \<noteq> d" if "k < n" for k
      using offset_inject [OF Suc.prems(2), of "Suc k" 0] that unfolding shift by simp
    ultimately show ?thesis by (simp add: copied_first)
  qed
qed (simp add: copied_def)

lemma copy_down_copied:
  assumes "in_memory d n" and "in_memory s n" and "s < d"
  shows "copied d s n m (copy_down n (d + of_nat n) (s + of_nat n) m)"
  using assms
proof (induction n arbitrary: m)
  case (Suc n)
  have in': "in_memory d n" "in_memory s n" using Suc.prems by (simp_all add: in_memory_def)
  have shift: "x + of_nat (Suc n) - 1 = x + of_nat n" for x :: u32 by simp
  have "s + of_nat k \<noteq> d + of_nat n" if "k < n" for k
    using unat_offset [OF Suc.prems(2), of k] unat_offset [OF Suc.prems(1), of n] that Suc.prems(3)
    by (auto simp: word_less_nat_alt)
  moreover have "d + of_nat n \<noteq> d + of_nat k" if "k < n" for k
    using offset_inject [OF Suc.prems(1), of n k] that by simp
  ultimately have "copied d s (Suc n) m (copy_down n (d + of_nat n) (s + of_nat n) (m(d + of_nat n := m (s + of_nat n))))"
    by (intro copied_last Suc.IH in' Suc.prems(3))
  then show ?case by (simp only: copy_down.simps shift)
qed (simp add: copied_def)

lemma memmove_law:
  assumes "in_memory d (unat n)" and "in_memory s (unat n)"
  shows "copied d s (unat n) m (snd (memmove d s n m)) \<and> fst (memmove d s n m) = d"
proof (cases "d < s")
  case True
  then show ?thesis using copy_up_copied [OF assms(2,1)] by (simp add: memmove_def)
next
  case False
  then consider "s < d" | "s = d" by fastforce
  then show ?thesis
  proof cases
    case 1
    then have "copied d s (unat n) m (copy_down (unat n) (d + n) (s + n) m)"
      using copy_down_copied [OF assms, of m] by simp
    with False 1 show ?thesis by (simp add: memmove_def)
  qed (simp add: memmove_def copied_def)
qed

lemma memset_law:
  assumes "in_memory d n"
  shows "memset_loop n d c m a = (if unat d \<le> unat a \<and> unat a < unat d + n then c else m a)"
  using assms
proof (induction n arbitrary: d m)
  case (Suc n)
  have eq: "a = d \<longleftrightarrow> unat a = unat d" by (auto intro: unsigned_word_eqI)
  show ?case
  proof (cases n)
    case 0
    then show ?thesis using eq by auto
  next
    case (Suc n')
    have d1: "unat (d + 1) = unat d + 1" using unat_offset [OF Suc.prems, of 1] Suc by simp
    then have "in_memory (d + 1) n" using Suc.prems by (simp add: in_memory_def)
    from Suc.IH [OF this] show ?thesis using d1 eq by auto
  qed
qed auto

subsection \<open>The interface of a block move\<close>

text \<open>
  A client that moves rows of a table of bytes inside one block: row \<open>i\<close> of width \<open>w\<close> at
  \<open>base + i * w\<close>.
\<close>

locale block_mover =
  fixes move :: "u32 \<Rightarrow> u32 \<Rightarrow> u32 \<Rightarrow> bytes \<Rightarrow> u32 \<times> bytes"
  assumes move_law: "in_memory d (unat n) \<Longrightarrow> in_memory s (unat n) \<Longrightarrow> copied d s (unat n) m (snd (move d s n m))"
begin

text \<open>Moving a block down by \<open>w\<close> bytes: each byte is replaced by the one \<open>w\<close> further on.\<close>

lemma shift_block:
  assumes "in_memory base (w + unat n)" and "k < unat n"
  shows "snd (move base (base + of_nat w) n m) (base + of_nat k) = m (base + of_nat (w + k))"
proof (cases "w = 0")
  case False
  have w: "unat (base + of_nat w) = unat base + w"
    using assms by (intro unat_offset [of _ "w + unat n"]) simp_all
  then have "in_memory base (unat n)" "in_memory (base + of_nat w) (unat n)"
    using assms(1) by (simp_all add: in_memory_def)
  from move_law [OF this] assms(2) show ?thesis by (simp add: copied_def add.assoc)
qed (use assms move_law [of base n base m] in \<open>simp add: copied_def\<close>)

lemma shift_outside:
  assumes "in_memory base (w + unat n)" and "\<And>k. k < unat n \<Longrightarrow> a \<noteq> base + of_nat k" and "0 < n"
  shows "snd (move base (base + of_nat w) n m) a = m a"
proof -
  have w: "unat (base + of_nat w) = unat base + w"
    using assms by (intro unat_offset [of _ "w + unat n"]) (simp_all add: word_gt_0 unat_gt_0)
  then have "in_memory base (unat n)" "in_memory (base + of_nat w) (unat n)"
    using assms(1) by (simp_all add: in_memory_def)
  from move_law [OF this, of m] assms(2) show ?thesis by (simp add: copied_def)
qed

end

interpretation mv: block_mover memmove
  by unfold_locales (simp add: memmove_law)

subsection \<open>Strings\<close>

text \<open>The bytes of a string in memory, up to the terminator.\<close>

primrec cstring :: "bytes \<Rightarrow> u32 \<Rightarrow> u8 list \<Rightarrow> bool" where
  "cstring m p [] \<longleftrightarrow> m p = 0"
| "cstring m p (x # xs) \<longleftrightarrow> m p = x \<and> x \<noteq> 0 \<and> cstring m (p + 1) xs"

lemma strlen_loop_cstring: "cstring m (str + len) xs \<Longrightarrow> strlen_loop m str len = Some (len + of_nat (length xs))"
proof (induction xs arbitrary: len)
  case (Cons x xs)
  then have "strlen_loop m str (len + 1) = Some (len + 1 + of_nat (length xs))" by (simp add: add.assoc)
  with Cons.prems show ?case by (subst strlen_loop.simps) (simp add: add.assoc)
qed (simp add: strlen_loop.simps)

lemma byte_diff: "sint (ucast (x :: u8) - ucast (y :: u8) :: u32) = uint x - uint y"
proof -
  have b: "uint x < 256" "uint y < 256" "0 \<le> uint x" "0 \<le> uint y"
    using unsigned_less [of x] unsigned_less [of y] by simp_all
  have "(ucast x - ucast y :: u32) = word_of_int (uint x - uint y)" by simp
  moreover have "signed_take_bit 31 (uint x - uint y) = uint x - uint y"
  proof (rule signed_take_bit_int_eq_self)
    have "- 256 \<le> uint x - uint y" "uint x - uint y < 256" using b by linarith+
    then show "- (2 ^ 31) \<le> uint x - uint y" "uint x - uint y < 2 ^ 31" by simp_all
  qed
  ultimately show ?thesis by (simp only: signed_of_int) simp
qed

lemma uint_pos: "0 < uint (x :: u8) \<longleftrightarrow> x \<noteq> 0"
  by (metis less_le uint_0_iff unsigned_greater_eq)

lemmas byte_neg = byte_diff [of 0, simplified] and byte_pos = byte_diff [where y = 0, simplified]

text \<open>\<^verbatim>\<open>strcmp\<close> returns, and its sign is the lexicographic order of the two strings.\<close>

lemma strcmp_order:
  assumes "cstring m p xs" and "cstring m q ys"
  shows "\<exists>r. strcmp p q m = Some r \<and> (sint r = 0 \<longleftrightarrow> xs = ys) \<and> (sint r < 0 \<longleftrightarrow> xs < ys)"
  using assms
proof (induction xs arbitrary: p q ys)
  case Nil
  then show ?case
    by (cases ys) (subst strcmp.simps, auto simp: byte_neg uint_0_iff uint_pos)+
next
  case (Cons x xs)
  show ?case
  proof (cases ys)
    case Nil
    with Cons.prems show ?thesis by (subst strcmp.simps) (auto simp: byte_pos uint_0_iff not_less)
  next
    case (Cons y zs)
    show ?thesis
    proof (cases "x = y")
      case True
      with Cons.IH [of "p + 1" "q + 1" zs] Cons.prems Cons show ?thesis by (subst strcmp.simps) auto
    next
      case False
      with Cons.prems Cons show ?thesis
        by (subst strcmp.simps) (auto simp: byte_diff word_less_def dest: unsigned_word_eqI)
    qed
  qed
qed

subsection \<open>Properties\<close>

text \<open>
  C39: \<^verbatim>\<open>memmove\<close> copies the block as it was before the call, byte for byte, also when source and
  destination overlap in either direction, and changes no byte outside the destination.
\<close>
theorem memmove_overlap:
  assumes "in_memory d (unat n)" and "in_memory s (unat n)"
  shows "(\<forall>k < unat n. snd (memmove d s n m) (d + of_nat k) = m (s + of_nat k)) \<and>
    (\<forall>a. (\<forall>k < unat n. a \<noteq> d + of_nat k) \<longrightarrow> snd (memmove d s n m) a = m a)"
  using memmove_law [OF assms, of m] by (simp add: copied_def)

theorem memmove_overlap_witness:
  "let m = (\<lambda>a. ucast a) :: bytes; m' = snd (memmove 0x102 0x100 4 m) in
     m' 0x102 = 0 \<and> m' 0x103 = 1 \<and> m' 0x104 = 2 \<and> m' 0x105 = 3 \<and> m' 0x106 = 6"
proof -
  define m :: bytes where "m = (\<lambda>a. ucast a)"
  have "in_memory 0x102 (unat (4 :: u32))" "in_memory 0x100 (unat (4 :: u32))" by (simp_all add: in_memory_def)
  note t = memmove_overlap [OF this, of m]
  then have "snd (memmove 0x102 0x100 4 m) (0x102 + of_nat k) = m (0x100 + of_nat k)" if "k < 4" for k
    using that by simp
  from this [of 0] this [of 1] this [of 2] this [of 3]
  have "snd (memmove 0x102 0x100 4 m) 0x102 = 0" "snd (memmove 0x102 0x100 4 m) 0x103 = 1"
    "snd (memmove 0x102 0x100 4 m) 0x104 = 2" "snd (memmove 0x102 0x100 4 m) 0x105 = 3"
    by (simp_all add: m_def)
  moreover have "snd (memmove 0x102 0x100 4 m) 0x106 = m 0x106"
  proof -
    have "0x106 \<noteq> (0x102 :: u32) + of_nat k" if "k < 4" for k
      using offset_inject [of "0x102" 5 4 k] that by (simp add: in_memory_def)
    with t show ?thesis by simp
  qed
  ultimately show ?thesis by (simp add: Let_def m_def [symmetric]) (simp add: m_def)
qed

text \<open>
  On two terminated strings \<^verbatim>\<open>strcmp\<close> returns, zero exactly for equal strings and a negative
  number exactly when the first comes before the second in the order of unsigned bytes, and
  \<^verbatim>\<open>strlen\<close> returns the length.
\<close>
theorem string_functions:
  assumes "cstring m p xs" and "cstring m q ys"
  shows "(\<exists>r. strcmp p q m = Some r \<and> (sint r = 0 \<longleftrightarrow> xs = ys) \<and> (sint r < 0 \<longleftrightarrow> xs < ys)) \<and>
    strlen p m = Some (of_nat (length xs))"
  using strcmp_order [OF assms] strlen_loop_cstring [of m p 0 xs] assms(1) by (simp add: strlen_def)

theorem string_functions_witness:
  "let m = (\<lambda>a. if a = 16 then 65 else if a = 17 then 200 else if a = 32 then 65 else if a = 33 then 66 else 0) :: bytes in
     (\<exists>r. strcmp 16 32 m = Some r \<and> \<not> sint r < 0 \<and> sint r \<noteq> 0) \<and> strlen 16 m = Some 2"
proof -
  define m :: bytes where
    "m = (\<lambda>a. if a = 16 then 65 else if a = 17 then 200 else if a = 32 then 65 else if a = 33 then 66 else 0)"
  have "cstring m 16 [65, 200]" "cstring m 32 [65, 66]" by (simp_all add: m_def)
  from string_functions [OF this] show ?thesis unfolding m_def [symmetric] Let_def by auto
qed

end
