(* ===== verification/Console.thy ===== *)
theory Console
  imports Kstring
begin

text \<open>
  The text console, \<^verbatim>\<open>src/drivers/video/vga_console.c\<close>: the 80 by 25 text page at \<open>0xB8000\<close>, the
  cursor, the start of the user's command line and the flag for echoing a line. Writes to I/O
  ports are recorded in order; \<open>hw_cursor\<close> reads the position that the display controller
  shows out of that record. A \<^verbatim>\<open>char\<close> of the code is a byte. \<^verbatim>\<open>console_putchar\<close> calls itself,
  through \<^verbatim>\<open>console_write\<close>, and is a partial function.

  The specification is a terminal: 2000 characters, a position and the start of the command
  line. \<open>displays\<close> relates the two, and every operation of the console is a step of the
  terminal, returns, and writes nothing outside the text page.
\<close>

definition ConsoleWidth :: int where
  "ConsoleWidth = 80"

definition ConsoleHeight :: int where
  "ConsoleHeight = 25"

definition ConsoleCells :: int where
  "ConsoleCells = ConsoleWidth * ConsoleHeight"

datatype VgaColor =
    VgaBlack | VgaBlue | VgaGreen | VgaCyan | VgaRed | VgaMagenta | VgaBrown | VgaLightGrey
  | VgaDarkGrey | VgaLightBlue | VgaLightGreen | VgaLightCyan | VgaLightRed | VgaLightMagenta
  | VgaYellow | VgaWhite

fun color_value :: "VgaColor \<Rightarrow> u8" where
  "color_value VgaBlack = 0" | "color_value VgaBlue = 1" | "color_value VgaGreen = 2"
| "color_value VgaCyan = 3" | "color_value VgaRed = 4" | "color_value VgaMagenta = 5"
| "color_value VgaBrown = 6" | "color_value VgaLightGrey = 7" | "color_value VgaDarkGrey = 8"
| "color_value VgaLightBlue = 9" | "color_value VgaLightGreen = 10" | "color_value VgaLightCyan = 11"
| "color_value VgaLightRed = 12" | "color_value VgaLightMagenta = 13" | "color_value VgaYellow = 14"
| "color_value VgaWhite = 15"

definition VGA_ATTRIBUTE :: "VgaColor \<Rightarrow> VgaColor \<Rightarrow> u8" where
  "VGA_ATTRIBUTE background foreground = push_bit 4 (color_value background) OR color_value foreground"

definition ConsoleAttribute :: u8 where
  "ConsoleAttribute = VGA_ATTRIBUTE VgaBlack VgaLightGrey"

definition video_memory :: u32 where
  "video_memory = 0xB8000"

type_synonym port_write = "u16 \<times> u8"

record console =
  memory :: bytes
  cursor :: int
  user_cmdline_start :: int
  console_line_echo :: bool
  ports :: "port_write list"

subsection \<open>Operations\<close>

definition outb :: "u16 \<Rightarrow> u8 \<Rightarrow> console \<Rightarrow> console" where
  "outb port v s = s\<lparr>ports := ports s @ [(port, v)]\<rparr>"

definition poke :: "int \<Rightarrow> u8 \<Rightarrow> console \<Rightarrow> console" where
  "poke index v s = s\<lparr>memory := (memory s)(video_memory + word_of_int index := v)\<rparr>"

definition update_hardware_cursor :: "int \<Rightarrow> console \<Rightarrow> console" where
  "update_hardware_cursor pos s =
     (let s = outb 0x3D4 0x0F s;
          s = outb 0x3D5 (word_of_int (pos AND 0xFF)) s;
          s = outb 0x3D4 0x0E s
      in outb 0x3D5 (word_of_int (drop_bit 8 pos AND 0xFF)) s)"

definition console_set_cursor :: "int \<Rightarrow> console \<Rightarrow> console" where
  "console_set_cursor position s =
     (let position = (if position < 0 then 0 else if position \<ge> ConsoleCells then ConsoleCells - 1 else position)
      in update_hardware_cursor position (s\<lparr>cursor := position\<rparr>))"

definition console_cursor :: "console \<Rightarrow> int" where
  "console_cursor s = cursor s"

definition blank_row :: "int \<Rightarrow> console \<Rightarrow> console" where
  "blank_row start s = fold (\<lambda>i s. poke (start + int i * 2 + 1) ConsoleAttribute (poke (start + int i * 2) 0x20 s))
     [0..<nat ConsoleWidth] s"

definition console_scroll :: "console \<Rightarrow> console" where
  "console_scroll s =
     (let copy_size = ConsoleWidth * (ConsoleHeight - 1) * 2;
          s = s\<lparr>memory := snd (memmove video_memory (video_memory + word_of_int (ConsoleWidth * 2))
                                (word_of_int copy_size) (memory s))\<rparr>;
          s = blank_row copy_size s;
          s = console_set_cursor (ConsoleWidth * (ConsoleHeight - 1)) s
      in if user_cmdline_start s \<ge> ConsoleWidth
         then s\<lparr>user_cmdline_start := user_cmdline_start s - ConsoleWidth\<rparr>
         else s\<lparr>user_cmdline_start := 0\<rparr>)"

text \<open>
  The characters: newline is 10, tab 9, backspace 8, blank 32, greater-than 62. The last branch
  writes out the call \<^verbatim>\<open>console_write("> ")\<close>.
\<close>

partial_function (option) console_putchar :: "u8 \<Rightarrow> console \<Rightarrow> console option" where
  "console_putchar c s =
     (if c = 10 then
        (let next = (cursor s div ConsoleWidth + 1) * ConsoleWidth in
         if next \<ge> ConsoleCells then Some (console_scroll s) else Some (console_set_cursor next s))
      else if c = 9 then
        do { s \<leftarrow> console_putchar 32 s; s \<leftarrow> console_putchar 32 s;
             s \<leftarrow> console_putchar 32 s; console_putchar 32 s }
      else if c = 8 then
        (if cursor s > user_cmdline_start s then
           (let s = s\<lparr>cursor := cursor s - 1\<rparr>;
                s = poke (cursor s * 2) 32 s;
                s = poke (cursor s * 2 + 1) ConsoleAttribute s
            in Some (console_set_cursor (cursor s) s))
         else Some s)
      else
        (let s = poke (cursor s * 2) c s;
             s = poke (cursor s * 2 + 1) ConsoleAttribute s;
             s = (if cursor s + 1 \<ge> ConsoleCells then console_scroll s else console_set_cursor (cursor s + 1) s)
         in if console_line_echo s \<and> cursor s mod ConsoleWidth = 0
            then do { s \<leftarrow> console_putchar 62 s; console_putchar 32 s }
            else Some s))"

declare console_putchar.simps [code]

text \<open>The string, without its terminator.\<close>

primrec console_write :: "u8 list \<Rightarrow> console \<Rightarrow> console option" where
  "console_write [] s = Some s"
| "console_write (c # str) s = do { s \<leftarrow> console_putchar c s; console_write str s }"

definition console_clear :: "console \<Rightarrow> console" where
  "console_clear s =
     (let s = s\<lparr>memory := snd (memset video_memory 0x20 (word_of_int (ConsoleWidth * ConsoleHeight * 2)) (memory s))\<rparr>;
          s = fold (\<lambda>i. poke (int i * 2 + 1) ConsoleAttribute) [0..<nat (ConsoleWidth * ConsoleHeight)] s;
          s = outb 0x3D4 0x0A s; s = outb 0x3D5 0x0E s; s = outb 0x3D4 0x0B s; s = outb 0x3D5 0x0F s;
          s = console_set_cursor 0 s
      in s\<lparr>user_cmdline_start := 0\<rparr>)"

subsection \<open>The terminal\<close>

record terminal =
  screen :: "u8 list"
  pos :: nat
  start :: nat

definition term_scroll :: "terminal \<Rightarrow> terminal" where
  "term_scroll t = t\<lparr>screen := drop 80 (screen t) @ replicate 80 32, pos := 1920, start := start t - 80\<rparr>"

definition term_plain :: "u8 \<Rightarrow> terminal \<Rightarrow> terminal" where
  "term_plain c t =
     (let t = t\<lparr>screen := (screen t)[pos t := c]\<rparr>
      in if pos t + 1 \<ge> 2000 then term_scroll t else t\<lparr>pos := pos t + 1\<rparr>)"

definition term_echo :: "bool \<Rightarrow> u8 \<Rightarrow> terminal \<Rightarrow> terminal" where
  "term_echo echo c t =
     (let t = term_plain c t in if echo \<and> pos t mod 80 = 0 then term_plain 32 (term_plain 62 t) else t)"

definition term_put :: "bool \<Rightarrow> u8 \<Rightarrow> terminal \<Rightarrow> terminal" where
  "term_put echo c t =
     (if c = 10 then
        (if (pos t div 80 + 1) * 80 \<ge> 2000 then term_scroll t else t\<lparr>pos := (pos t div 80 + 1) * 80\<rparr>)
      else if c = 9 then (term_echo echo 32 ^^ 4) t
      else if c = 8 then
        (if pos t > start t then t\<lparr>screen := (screen t)[pos t - 1 := 32], pos := pos t - 1\<rparr> else t)
      else term_echo echo c t)"

text \<open>The position the display controller shows after a sequence of port writes.\<close>

definition crt_write :: "port_write \<Rightarrow> u8 \<times> (u8 \<Rightarrow> u8) \<Rightarrow> u8 \<times> (u8 \<Rightarrow> u8)" where
  "crt_write w r = (if fst w = 0x3D4 then (snd w, snd r)
     else if fst w = 0x3D5 then (fst r, (snd r)(fst r := snd w)) else r)"

definition hw_cursor :: "port_write list \<Rightarrow> nat" where
  "hw_cursor ws = (let regs = snd (fold crt_write ws (0, \<lambda>_. 0)) in unat (regs 0x0E) * 256 + unat (regs 0x0F))"

definition cell_at :: "nat \<Rightarrow> u32" where
  "cell_at k = video_memory + of_nat k"

definition page_shows :: "bytes \<Rightarrow> u8 list \<Rightarrow> bool" where
  "page_shows m xs \<longleftrightarrow> length xs = 2000 \<and>
     (\<forall>i < 2000. m (cell_at (2 * i)) = xs ! i \<and> m (cell_at (2 * i + 1)) = ConsoleAttribute)"

definition outside :: "u32 \<Rightarrow> bool" where
  "outside a \<longleftrightarrow> (\<forall>k < 4000. a \<noteq> cell_at k)"

text \<open>\<open>m0\<close> is the memory at the start: bytes outside the text page keep its values.\<close>

definition displays :: "bytes \<Rightarrow> console \<Rightarrow> terminal \<Rightarrow> bool" where
  "displays m0 s t \<longleftrightarrow> page_shows (memory s) (screen t) \<and> (\<forall>a. outside a \<longrightarrow> memory s a = m0 a) \<and>
     cursor s = int (pos t) \<and> pos t < 2000 \<and> user_cmdline_start s = int (start t) \<and> start t < 2000 \<and>
     hw_cursor (ports s) = pos t"

lemmas console_defs = ConsoleWidth_def ConsoleHeight_def ConsoleCells_def

subsection \<open>Cells\<close>

lemma page_in_memory: "in_memory video_memory 4000"
  by (simp add: in_memory_def video_memory_def)

lemma cell_eq: "j < 4000 \<Longrightarrow> k < 4000 \<Longrightarrow> cell_at j = cell_at k \<longleftrightarrow> j = k"
  unfolding cell_at_def by (rule offset_inject [OF page_in_memory])

lemma poke_nat: "poke (int k) v s = s\<lparr>memory := (memory s)(cell_at k := v)\<rparr>"
  by (simp add: poke_def cell_at_def)

lemma low_byte: "unat (word_of_int (int p AND 0xFF) :: u8) = p mod 256"
proof -
  have "int p AND 0xFF = take_bit 8 (int p)" by (simp add: take_bit_eq_mask mask_eq_exp_minus_1)
  also have "\<dots> = int (p mod 256)" by (simp add: take_bit_eq_mod zmod_int)
  finally have "(word_of_int (int p AND 0xFF) :: u8) = of_nat (p mod 256)" by simp
  then show ?thesis by (simp add: unat_of_nat take_bit_eq_mod)
qed

lemma hw_cursor_update:
  assumes "p < 65536"
  shows "hw_cursor (ports (update_hardware_cursor (int p) s)) = p"
proof -
  obtain i r where f: "fold crt_write (ports s) (0, \<lambda>_. 0) = (i, r)" by fastforce
  have hi: "drop_bit 8 (int p) = int (p div 256)" by (simp add: drop_bit_eq_div zdiv_int)
  have "p div 256 mod 256 * 256 + p mod 256 = p" using assms by (simp add: div_less_iff_less_mult)
  then show ?thesis
    by (simp add: update_hardware_cursor_def outb_def hw_cursor_def f crt_write_def Let_def hi low_byte)
qed

lemma set_cursor_nat:
  assumes "p < 2000"
  shows "memory (console_set_cursor (int p) s) = memory s" "cursor (console_set_cursor (int p) s) = int p"
    "user_cmdline_start (console_set_cursor (int p) s) = user_cmdline_start s"
    "console_line_echo (console_set_cursor (int p) s) = console_line_echo s"
    "hw_cursor (ports (console_set_cursor (int p) s)) = p"
  using assms hw_cursor_update [of p]
  by (simp_all add: console_set_cursor_def console_defs update_hardware_cursor_def outb_def Let_def)

text \<open>Writing one cell of the page.\<close>

definition put_cell :: "nat \<Rightarrow> u8 \<Rightarrow> console \<Rightarrow> console" where
  "put_cell p c s = s\<lparr>memory := (memory s)(cell_at (2 * p) := c, cell_at (2 * p + 1) := ConsoleAttribute)\<rparr>"

lemma poke_cell: "poke (int p * 2 + 1) ConsoleAttribute (poke (int p * 2) c s) = put_cell p c s"
proof -
  have "int p * 2 + 1 = int (2 * p + 1)" "int p * 2 = int (2 * p)" by simp_all
  then show ?thesis by (simp only: poke_nat put_cell_def) simp
qed

lemma put_cell_page:
  assumes "page_shows (memory s) xs" and "p < 2000"
  shows "page_shows (memory (put_cell p c s)) (xs[p := c])"
  using assms by (auto simp: page_shows_def put_cell_def cell_eq nth_list_update)

lemma put_cell_outside:
  assumes "outside a" and "p < 2000"
  shows "memory (put_cell p c s) a = memory s a"
proof -
  have "a \<noteq> cell_at (2 * p)" "a \<noteq> cell_at (2 * p + 1)" using assms by (auto simp: outside_def)
  then show ?thesis by (simp add: put_cell_def)
qed

subsection \<open>Scrolling\<close>

lemma blank_row_law:
  fixes b :: nat and s :: console
  assumes "b + 160 \<le> 4000"
  defines "s' \<equiv> blank_row (int b) s"
  shows "k < 80 \<Longrightarrow> memory s' (cell_at (b + 2 * k)) = 32 \<and> memory s' (cell_at (b + 2 * k + 1)) = ConsoleAttribute"
    and "(\<And>k. k < 160 \<Longrightarrow> a \<noteq> cell_at (b + k)) \<Longrightarrow> memory s' a = memory s a"
    and "cursor s' = cursor s" "user_cmdline_start s' = user_cmdline_start s"
      "console_line_echo s' = console_line_echo s" "ports s' = ports s"
proof -
  let ?w = "\<lambda>i s. poke (int b + int i * 2 + 1) ConsoleAttribute (poke (int b + int i * 2) 0x20 s)"
  have w: "?w i s = s\<lparr>memory := (memory s)(cell_at (b + 2 * i) := 32, cell_at (b + 2 * i + 1) := ConsoleAttribute)\<rparr>"
    for i s
  proof -
    have "int b + int i * 2 + 1 = int (b + 2 * i + 1)" "int b + int i * 2 = int (b + 2 * i)" by simp_all
    then show ?thesis by (simp only: poke_nat) simp
  qed
  have all: "(\<forall>k < n. memory (fold ?w [0..<n] s) (cell_at (b + 2 * k)) = 32 \<and>
        memory (fold ?w [0..<n] s) (cell_at (b + 2 * k + 1)) = ConsoleAttribute) \<and>
      (\<forall>a. (\<forall>k < 2 * n. a \<noteq> cell_at (b + k)) \<longrightarrow> memory (fold ?w [0..<n] s) a = memory s a) \<and>
      cursor (fold ?w [0..<n] s) = cursor s \<and> user_cmdline_start (fold ?w [0..<n] s) = user_cmdline_start s \<and>
      console_line_echo (fold ?w [0..<n] s) = console_line_echo s \<and> ports (fold ?w [0..<n] s) = ports s"
    if "n \<le> 80" for n
    using that
  proof (induction n)
    case (Suc n)
    then show ?case using assms(1) by (auto simp: w cell_eq less_Suc_eq)
  qed simp
  have s': "s' = fold ?w [0..<80] s" by (simp add: s'_def blank_row_def ConsoleWidth_def)
  note all = all [of 80, simplified, folded s' [simplified]]
  from all show "k < 80 \<Longrightarrow> memory s' (cell_at (b + 2 * k)) = 32 \<and> memory s' (cell_at (b + 2 * k + 1)) = ConsoleAttribute"
    by simp
  from all show "(\<And>k. k < 160 \<Longrightarrow> a \<noteq> cell_at (b + k)) \<Longrightarrow> memory s' a = memory s a" by simp
  from all show "cursor s' = cursor s" "user_cmdline_start s' = user_cmdline_start s"
      "console_line_echo s' = console_line_echo s" "ports s' = ports s" by simp_all
qed

text \<open>Scrolling moves each row up by one and clears the last; here \<^verbatim>\<open>memmove\<close>'s contract is used.\<close>

lemma scroll_page:
  assumes "page_shows (memory s) xs"
  defines "m' \<equiv> memory (console_scroll s)"
  shows "page_shows m' (drop 80 xs @ replicate 80 32)" and "outside a \<Longrightarrow> m' a = memory s a"
proof -
  define m1 where "m1 = snd (memmove video_memory (video_memory + of_nat 160) 3840 (memory s))"
  have len: "unat (3840 :: u32) = 3840" by simp
  have in': "in_memory video_memory (160 + unat (3840 :: u32))" using page_in_memory by simp
  have up: "m1 (cell_at k) = memory s (cell_at (160 + k))" if "k < 3840" for k
    unfolding m1_def cell_at_def using that by (intro mv.shift_block [OF in']) simp
  have out: "m1 a = memory s a" if "outside a" for a
    unfolding m1_def using that by (intro mv.shift_outside [OF in']) (auto simp: outside_def cell_at_def)
  let ?s1 = "blank_row (int 3840) (s\<lparr>memory := m1\<rparr>)"
  have m': "m' = memory ?s1"
    using set_cursor_nat(1) [of 1920]
    by (simp add: m'_def console_scroll_def console_defs m1_def Let_def)
  have row: "m' (cell_at (3840 + 2 * k)) = 32 \<and> m' (cell_at (3840 + 2 * k + 1)) = ConsoleAttribute" if "k < 80" for k
    unfolding m' using blank_row_law(1) [of 3840 k "s\<lparr>memory := m1\<rparr>"] that by simp
  have keep: "m' a = m1 a" if "\<And>k. k < 160 \<Longrightarrow> a \<noteq> cell_at (3840 + k)" for a
    unfolding m' using blank_row_law(2) [of 3840 a "s\<lparr>memory := m1\<rparr>"] that by simp
  have body: "m' (cell_at k) = memory s (cell_at (160 + k))" if "k < 3840" for k
    using that by (subst keep) (auto simp: cell_eq up)
  have xs: "length xs = 2000" "\<And>i. i < 2000 \<Longrightarrow> memory s (cell_at (2 * i)) = xs ! i \<and> memory s (cell_at (2 * i + 1)) = ConsoleAttribute"
    using assms(1) by (auto simp: page_shows_def)
  show "page_shows m' (drop 80 xs @ replicate 80 32)"
    unfolding page_shows_def
  proof (intro conjI allI impI)
    fix i :: nat
    assume i: "i < 2000"
    have split: "i < 1920 \<or> (\<exists>k < 80. i = 1920 + k)" using i by (metis add_less_cancel_left le_Suc_ex not_less numeral_plus_numeral
          add_num_simps)
    then show "m' (cell_at (2 * i)) = (drop 80 xs @ replicate 80 32) ! i"
      using body [of "2 * i"] xs(1) xs(2) [of "80 + i"] row by (auto simp: nth_append)
    from split show "m' (cell_at (2 * i + 1)) = ConsoleAttribute"
      using body [of "2 * i + 1"] xs(2) [of "80 + i"] row by auto
  qed (simp add: xs(1))
  show "outside a \<Longrightarrow> m' a = memory s a"
    using keep [of a] out [of a] by (auto simp: outside_def)
qed

lemma scroll_displays:
  assumes "displays m0 s t"
  shows "displays m0 (console_scroll s) (term_scroll t)" and "console_line_echo (console_scroll s) = console_line_echo s"
proof -
  have "cursor (console_scroll s) = 1920" "hw_cursor (ports (console_scroll s)) = 1920"
    "user_cmdline_start (console_scroll s) = int (start t - 80)"
    using assms set_cursor_nat [of 1920] blank_row_law(4) [of 3840 "s\<lparr>memory := m\<rparr>" for m]
    by (auto simp: console_scroll_def console_defs Let_def displays_def)
  moreover have "page_shows (memory (console_scroll s)) (drop 80 (screen t) @ replicate 80 32)"
    "outside a \<Longrightarrow> memory (console_scroll s) a = m0 a" for a
    using scroll_page [of s "screen t"] assms by (auto simp: displays_def)
  ultimately show "displays m0 (console_scroll s) (term_scroll t)"
    using assms by (auto simp: displays_def term_scroll_def)
  show "console_line_echo (console_scroll s) = console_line_echo s"
    using set_cursor_nat(4) [of 1920] blank_row_law(5) [of 3840 "s\<lparr>memory := m\<rparr>" for m]
    by (auto simp: console_scroll_def console_defs Let_def)
qed

subsection \<open>Characters\<close>

text \<open>The part of \<^verbatim>\<open>console_putchar\<close> before the echo of a prompt.\<close>

definition put_plain :: "u8 \<Rightarrow> console \<Rightarrow> console" where
  "put_plain c s =
     (let s = poke (cursor s * 2) c s;
          s = poke (cursor s * 2 + 1) ConsoleAttribute s
      in if cursor s + 1 \<ge> ConsoleCells then console_scroll s else console_set_cursor (cursor s + 1) s)"

definition printable :: "u8 \<Rightarrow> bool" where
  "printable c \<longleftrightarrow> c \<noteq> 10 \<and> c \<noteq> 9 \<and> c \<noteq> 8"

lemma put_cell_displays:
  assumes "displays m0 s t" and "p < 2000"
  shows "displays m0 (put_cell p c s) (t\<lparr>screen := (screen t)[p := c]\<rparr>)"
    and "console_line_echo (put_cell p c s) = console_line_echo s" "cursor (put_cell p c s) = cursor s"
  using assms put_cell_page [of s "screen t" p c] put_cell_outside [of _ p c s]
  by (auto simp: displays_def) (simp_all add: put_cell_def)

lemma set_cursor_displays:
  assumes "displays m0 s t" and "p < 2000"
  shows "displays m0 (console_set_cursor (int p) s) (t\<lparr>pos := p\<rparr>)"
  using assms set_cursor_nat [OF assms(2), of s] by (simp add: displays_def)

lemma put_plain_displays:
  assumes "displays m0 s t"
  shows "displays m0 (put_plain c s) (term_plain c t)" and "console_line_echo (put_plain c s) = console_line_echo s"
proof -
  have p: "cursor s = int (pos t)" "pos t < 2000" using assms by (simp_all add: displays_def)
  let ?s = "put_cell (pos t) c s" and ?t = "t\<lparr>screen := (screen t)[pos t := c]\<rparr>"
  have d: "displays m0 ?s ?t" by (rule put_cell_displays(1) [OF assms p(2)])
  have s1: "put_plain c s = (if pos t + 1 \<ge> 2000 then console_scroll ?s else console_set_cursor (int (pos t + 1)) ?s)"
  proof -
    have "poke (cursor (poke (cursor s * 2) c s) * 2 + 1) ConsoleAttribute (poke (cursor s * 2) c s) = ?s"
      unfolding poke_cell [symmetric] p(1) [symmetric] by (simp add: poke_def)
    moreover have "cursor ?s = int (pos t)" using p by (simp add: put_cell_def)
    ultimately show ?thesis by (simp add: put_plain_def Let_def console_defs add.commute)
  qed
  show "displays m0 (put_plain c s) (term_plain c t)"
  proof (cases "pos t + 1 \<ge> 2000")
    case True
    then show ?thesis using scroll_displays(1) [OF d] by (simp add: s1 term_plain_def Let_def)
  next
    case False
    then show ?thesis using set_cursor_displays [OF d, of "pos t + 1"] by (simp add: s1 term_plain_def Let_def)
  qed
  show "console_line_echo (put_plain c s) = console_line_echo s"
    using scroll_displays(2) [OF d] set_cursor_nat(4) [of "pos t + 1" ?s] by (simp add: s1 put_cell_def)
qed

lemma putchar_printable:
  assumes "printable c"
  shows "console_putchar c s = (let s = put_plain c s in
    if console_line_echo s \<and> cursor s mod ConsoleWidth = 0
    then do { s \<leftarrow> console_putchar 62 s; console_putchar 32 s } else Some s)"
  using assms by (subst console_putchar.simps) (simp add: printable_def put_plain_def Let_def)

text \<open>Away from the last column no prompt is echoed.\<close>

lemma term_plain_pos: "pos t < 2000 \<Longrightarrow> pos (term_plain c t) = (if pos t = 1999 then 1920 else pos t + 1)"
  by (simp add: term_plain_def term_scroll_def Let_def)

lemma column_zero: "int n mod ConsoleWidth = 0 \<longleftrightarrow> n mod 80 = 0"
  unfolding ConsoleWidth_def by (metis of_nat_0_eq_iff of_nat_mod of_nat_numeral)

lemma putchar_no_echo:
  assumes "displays m0 s t" and "printable c" and "\<not> console_line_echo s \<or> pos (term_plain c t) mod 80 \<noteq> 0"
  shows "console_putchar c s = Some (put_plain c s)"
proof -
  have "cursor (put_plain c s) = int (pos (term_plain c t))"
    using put_plain_displays(1) [OF assms(1)] by (simp add: displays_def)
  then show ?thesis
    using assms(3) put_plain_displays(2) [OF assms(1), of c]
    by (auto simp: putchar_printable [OF assms(2)] Let_def column_zero)
qed

lemma putchar_echo:
  assumes "displays m0 s t" and "printable c"
  shows "\<exists>s'. console_putchar c s = Some s' \<and> displays m0 s' (term_echo (console_line_echo s) c t) \<and>
    console_line_echo s' = console_line_echo s"
proof (cases "console_line_echo s \<and> pos (term_plain c t) mod 80 = 0")
  case False
  then show ?thesis
    using putchar_no_echo [OF assms] put_plain_displays [OF assms(1), of c] by (auto simp: term_echo_def Let_def)
next
  case True
  let ?t1 = "term_plain c t" and ?s1 = "put_plain c s"
  note d1 = put_plain_displays [OF assms(1), of c]
  note d2 = put_plain_displays [OF d1(1), of 62]
  note d3 = put_plain_displays [OF d2(1), of 32]
  have lt: "pos ?t1 < 2000" using d1(1) by (simp add: displays_def)
  have "pos ?t1 \<noteq> 1999" using True by auto
  then have p2: "pos (term_plain 62 ?t1) = pos ?t1 + 1" using term_plain_pos [OF lt] by simp
  moreover from this have "pos (term_plain 62 ?t1) \<noteq> 1999" using True by auto
  then have p3: "pos (term_plain 32 (term_plain 62 ?t1)) = pos ?t1 + 2"
    using term_plain_pos [of "term_plain 62 ?t1"] d2(1) p2 by (simp add: displays_def)
  obtain q where "pos ?t1 = 80 * q" using True by (auto simp: mod_eq_0_iff_dvd)
  then have "(pos ?t1 + 1) mod 80 = 1" "(pos ?t1 + 2) mod 80 = 2" by (simp_all only: mod_mult_self4) simp_all
  then have "console_putchar 62 ?s1 = Some (put_plain 62 ?s1)"
    "console_putchar 32 (put_plain 62 ?s1) = Some (put_plain 32 (put_plain 62 ?s1))"
    using putchar_no_echo [OF d1(1), of 62] putchar_no_echo [OF d2(1), of 32] p2 p3 by (simp_all add: printable_def)
  moreover have "cursor ?s1 mod ConsoleWidth = 0"
    using d1(1) True by (simp add: displays_def column_zero)
  ultimately show ?thesis
    using True d1 d2 d3 by (simp add: putchar_printable [OF assms(2)] term_echo_def Let_def)
qed

text \<open>Every character is a step of the terminal.\<close>

lemma putchar_displays:
  assumes "displays m0 s t"
  shows "\<exists>s'. console_putchar c s = Some s' \<and> displays m0 s' (term_put (console_line_echo s) c t) \<and>
    console_line_echo s' = console_line_echo s"
proof -
  have p: "cursor s = int (pos t)" "pos t < 2000" "user_cmdline_start s = int (start t)"
    using assms by (simp_all add: displays_def)
  consider "c = 10" | "c = 9" | "c = 8" | "printable c" by (auto simp: printable_def)
  then show ?thesis
  proof cases
    case 1
    let ?n = "(pos t div 80 + 1) * 80"
    have n: "(cursor s div ConsoleWidth + 1) * ConsoleWidth = int ?n"
      by (simp add: p ConsoleWidth_def zdiv_int)
    have "int ?n \<ge> ConsoleCells \<longleftrightarrow> ?n \<ge> 2000" by (simp add: console_defs)
    then have "console_putchar c s = Some (if ?n \<ge> 2000 then console_scroll s else console_set_cursor (int ?n) s)"
      using 1 by (subst console_putchar.simps) (simp only: n Let_def simp_thms if_True split: if_split, blast)
    then show ?thesis
      using 1 scroll_displays [OF assms] set_cursor_displays [OF assms, of ?n] set_cursor_nat(4) [of ?n s]
      by (auto simp: term_put_def)
  next
    case 2
    have tab: "console_putchar 9 s = do { s \<leftarrow> console_putchar 32 s; s \<leftarrow> console_putchar 32 s;
             s \<leftarrow> console_putchar 32 s; console_putchar 32 s }"
      by (subst console_putchar.simps) simp
    have pr: "printable 32" by (simp add: printable_def)
    obtain s1 where s1: "console_putchar 32 s = Some s1" "displays m0 s1 (term_echo (console_line_echo s) 32 t)"
      "console_line_echo s1 = console_line_echo s" using putchar_echo [OF assms pr] by blast
    obtain s2 where s2: "console_putchar 32 s1 = Some s2" "console_line_echo s2 = console_line_echo s"
      "displays m0 s2 (term_echo (console_line_echo s) 32 (term_echo (console_line_echo s) 32 t))"
      using putchar_echo [OF s1(2) pr] s1(3) by auto
    obtain s3 where s3: "console_putchar 32 s2 = Some s3" "console_line_echo s3 = console_line_echo s"
      "displays m0 s3 (term_echo (console_line_echo s) 32 (term_echo (console_line_echo s) 32 (term_echo (console_line_echo s) 32 t)))"
      using putchar_echo [OF s2(3) pr] s2(2) by auto
    from putchar_echo [OF s3(3) pr] show ?thesis
      using 2 s1(1) s2(1) s3(1,2) by (auto simp: tab term_put_def numeral_eq_Suc)
  next
    case 3
    show ?thesis
    proof (cases "pos t > start t")
      case True
      let ?p = "pos t - 1"
      let ?s = "put_cell ?p 32 (s\<lparr>cursor := int ?p\<rparr>)"
      have pm: "int (pos t) - 1 = int ?p" using True by simp
      have "displays m0 (put_cell ?p 32 s) (t\<lparr>screen := (screen t)[?p := 32]\<rparr>)"
        by (rule put_cell_displays(1) [OF assms]) (use p in simp)
      from set_cursor_displays [OF this, of ?p]
      have "displays m0 (console_set_cursor (int ?p) (put_cell ?p 32 s)) (t\<lparr>screen := (screen t)[?p := 32], pos := ?p\<rparr>)"
        using p by simp
      moreover have "console_set_cursor (int ?p) (put_cell ?p 32 s) = console_set_cursor (int ?p) ?s"
        by (simp add: console_set_cursor_def put_cell_def)
      moreover have "console_putchar c s = Some (console_set_cursor (int ?p) ?s)"
      proof -
        have cur: "cursor (poke i v x) = cursor x" for i v x by (simp add: poke_def)
        have "cursor s > user_cmdline_start s" using True p by simp
        then show ?thesis
          using 3 unfolding poke_cell [symmetric]
          by (subst console_putchar.simps) (simp add: Let_def cur p(1) pm)
      qed
      ultimately show ?thesis using 3 True p set_cursor_nat(4) [of ?p ?s] by (simp add: term_put_def put_cell_def)
    next
      case False
      then have "console_putchar c s = Some s" using 3 p by (subst console_putchar.simps) simp
      with False 3 assms show ?thesis by (simp add: term_put_def)
    qed
  next
    case 4
    then show ?thesis using putchar_echo [OF assms 4] by (simp add: term_put_def printable_def)
  qed
qed

lemma write_displays:
  assumes "displays m0 s t"
  shows "\<exists>s'. console_write cs s = Some s' \<and> displays m0 s' (fold (term_put (console_line_echo s)) cs t) \<and>
    console_line_echo s' = console_line_echo s"
  using assms
proof (induction cs arbitrary: s t)
  case (Cons c cs)
  obtain s1 where s1: "console_putchar c s = Some s1" "displays m0 s1 (term_put (console_line_echo s) c t)"
    "console_line_echo s1 = console_line_echo s" using putchar_displays [OF Cons.prems] by blast
  with Cons.IH [OF s1(2)] show ?case by simp
qed simp

lemma write_append: "console_write (xs @ ys) s = Option.bind (console_write xs s) (console_write ys)"
  by (induction xs arbitrary: s) simp_all

subsection \<open>Clearing\<close>

lemma clear_page:
  fixes s :: console
  defines "m' \<equiv> memory (console_clear s)"
  shows "page_shows m' (replicate 2000 32)" and "outside a \<Longrightarrow> m' a = memory s a"
proof -
  define m1 where "m1 = memset_loop 4000 video_memory 32 (memory s)"
  let ?w = "\<lambda>i. poke (int i * 2 + 1) ConsoleAttribute"
  have w: "?w i x = x\<lparr>memory := (memory x)(cell_at (2 * i + 1) := ConsoleAttribute)\<rparr>" for i x
  proof -
    have "int i * 2 + 1 = int (2 * i + 1)" by simp
    then show ?thesis by (simp only: poke_nat)
  qed
  have odd: "memory (fold ?w [0..<n] x) a =
      (if \<exists>k < n. a = cell_at (2 * k + 1) then ConsoleAttribute else memory x a)" for n x a
    by (induction n) (auto simp: w less_Suc_eq)
  have m': "m' = memory (fold ?w [0..<2000] (s\<lparr>memory := m1\<rparr>))"
    using set_cursor_nat(1) [of 0]
    by (simp add: m'_def console_clear_def console_defs Let_def outb_def memset_def m1_def)
  have a: "unat (cell_at k) = unat video_memory + k" if "k < 4000" for k
    unfolding cell_at_def using that by (rule unat_offset [OF page_in_memory])
  have in1: "m1 (cell_at k) = 32" if "k < 4000" for k
    using that a by (simp add: m1_def memset_law [OF page_in_memory])
  have out1: "m1 a = memory s a" if "outside a" for a
  proof -
    have "\<not> (unat video_memory \<le> unat a \<and> unat a < unat video_memory + 4000)"
    proof
      assume r: "unat video_memory \<le> unat a \<and> unat a < unat video_memory + 4000"
      then have "unat a = unat (cell_at (unat a - unat video_memory))" by (subst a) auto
      then have "a = cell_at (unat a - unat video_memory)" by (rule unsigned_word_eqI)
      moreover have "unat a - unat video_memory < 4000" using r by auto
      ultimately show False using that unfolding outside_def by blast
    qed
    then show ?thesis unfolding m1_def memset_law [OF page_in_memory] by (rule if_not_P)
  qed
  have even: "\<not> (\<exists>k < 2000. cell_at (2 * i) = cell_at (2 * k + 1))" if "i < 2000" for i
  proof
    assume "\<exists>k < 2000. cell_at (2 * i) = cell_at (2 * k + 1)"
    then obtain k where "k < 2000" "cell_at (2 * i) = cell_at (2 * k + 1)" by blast
    then have "2 * i = 2 * k + 1" using that by (simp add: cell_eq)
    then show False by presburger
  qed
  show "page_shows m' (replicate 2000 32)"
    using in1 even by (auto simp: page_shows_def m' odd)
  show "m' a = memory s a" if o: "outside a"
  proof -
    have "\<not> (\<exists>k < 2000. a = cell_at (2 * k + 1))"
    proof
      assume "\<exists>k < 2000. a = cell_at (2 * k + 1)"
      then obtain k where "k < 2000" "a = cell_at (2 * k + 1)" by blast
      moreover from this have "2 * k + 1 < 4000" by simp
      ultimately show False using o unfolding outside_def by blast
    qed
    then show ?thesis using out1 [OF o] by (auto simp: m' odd)
  qed
qed

lemma clear_displays: "displays (memory s) (console_clear s) \<lparr>screen = replicate 2000 32, pos = 0, start = 0\<rparr>"
proof -
  have "cursor (console_clear s) = 0" "user_cmdline_start (console_clear s) = 0"
      "hw_cursor (ports (console_clear s)) = 0"
    using set_cursor_nat(2,5) [of 0] by (simp_all add: console_clear_def Let_def)
  then show ?thesis using clear_page by (simp add: displays_def)
qed

lemma clear_echo: "console_line_echo (console_clear s) = console_line_echo s"
proof -
  have "console_line_echo (fold (\<lambda>i. poke (int i * 2 + 1) ConsoleAttribute) xs x) = console_line_echo x" for xs x
    by (induction xs arbitrary: x) (simp_all add: poke_def)
  then show ?thesis using set_cursor_nat(4) [of 0] by (simp add: console_clear_def Let_def outb_def)
qed

end
