(* ===== verification/Stdio.thy ===== *)
theory Stdio
  imports Console
begin

text \<open>
  Formatted output: \<^verbatim>\<open>src/lib/stdio.c\<close>, \<^verbatim>\<open>src/kernel/debug.c\<close> and \<^verbatim>\<open>console_prompt\<close> of
  \<^verbatim>\<open>src/drivers/video/vga_console.c\<close>, which prints through \<^verbatim>\<open>kprintf\<close>. A format string is its list
  of bytes without the terminator; the variable arguments are a list of tagged values, and a
  format that asks for an argument the caller did not pass (undefined in C) has no result.

  \<open>format_text\<close> is the specification: the bytes a call prints, as a pure function of the format and the
  arguments. \<^verbatim>\<open>kprintf\<close> is shown to write exactly these bytes to the console. The digits that
  \<^verbatim>\<open>print_u32\<close> prints are read back by \<open>value_of\<close>, and fit into its buffer of sixteen bytes.
\<close>

definition dec_digits :: "u8 list" where
  "dec_digits = [48, 49, 50, 51, 52, 53, 54, 55, 56, 57]"

definition lower_digits :: "u8 list" where
  "lower_digits = dec_digits @ [97, 98, 99, 100, 101, 102]"

definition hex_digits :: "u8 list" where
  "hex_digits = dec_digits @ [65, 66, 67, 68, 69, 70]"

datatype arg = IntArg u32 | StrArg "u8 list"

subsection \<open>Operations\<close>

text \<open>The first loop of \<^verbatim>\<open>print_u32\<close>: the digits in the order they enter the buffer.\<close>

partial_function (option) digit_loop :: "u32 \<Rightarrow> u32 \<Rightarrow> u8 list \<Rightarrow> u8 list \<Rightarrow> u8 list option" where
  "digit_loop val base digits buf =
     (let buf = buf @ [digits ! unat (val mod base)];
          val = val div base
      in if val > 0 then digit_loop val base digits buf else Some buf)"

declare digit_loop.simps [code]

definition print_u32 :: "u32 \<Rightarrow> u32 \<Rightarrow> u8 list \<Rightarrow> console \<Rightarrow> console option" where
  "print_u32 val base digits s = do { buf \<leftarrow> digit_loop val base digits []; console_write (rev buf) s }"

text \<open>
  One conversion; the character after the percent sign. \<^verbatim>\<open>-(val + 1)\<close> is computed on the signed
  value and converted, as in the source.
\<close>

definition kprintf_conv :: "u8 \<Rightarrow> arg list \<Rightarrow> console \<Rightarrow> (arg list \<times> console) option" where
  "kprintf_conv c args s =
     (if c = 99 then
        (case args of IntArg v # args \<Rightarrow> map_option (Pair args) (console_putchar (ucast v) s) | _ \<Rightarrow> None)
      else if c = 115 then
        (case args of StrArg str # args \<Rightarrow> map_option (Pair args) (console_write str s) | _ \<Rightarrow> None)
      else if c = 100 \<or> c = 105 then
        (case args of
           IntArg v # args \<Rightarrow>
             if sint v < 0
             then do { s \<leftarrow> console_putchar 45 s;
                       map_option (Pair args) (print_u32 (word_of_int (- (sint v + 1)) + 1) 10 dec_digits s) }
             else map_option (Pair args) (print_u32 v 10 dec_digits s)
         | _ \<Rightarrow> None)
      else if c = 117 then
        (case args of IntArg v # args \<Rightarrow> map_option (Pair args) (print_u32 v 10 dec_digits s) | _ \<Rightarrow> None)
      else if c = 120 then
        (case args of IntArg v # args \<Rightarrow> map_option (Pair args) (print_u32 v 16 lower_digits s) | _ \<Rightarrow> None)
      else if c = 88 then
        (case args of IntArg v # args \<Rightarrow> map_option (Pair args) (print_u32 v 16 hex_digits s) | _ \<Rightarrow> None)
      else if c = 37 then map_option (Pair args) (console_putchar 37 s)
      else map_option (Pair args) (console_putchar c s))"

fun kprintf :: "u8 list \<Rightarrow> arg list \<Rightarrow> console \<Rightarrow> console option" where
  "kprintf [] args s = Some s"
| "kprintf [c] args s = (if c \<noteq> 37 then console_putchar c s else Some s)"
| "kprintf (c # d # fmt) args s =
     (if c \<noteq> 37 then do { s \<leftarrow> console_putchar c s; kprintf (d # fmt) args s }
      else do { (args, s) \<leftarrow> kprintf_conv d args s; kprintf fmt args s })"

definition console_prompt :: "console \<Rightarrow> console option" where
  "console_prompt s = do { s \<leftarrow> kprintf [62, 32] [] s; Some (s\<lparr>user_cmdline_start := cursor s\<rparr>) }"

definition debug_print_hex8 :: "u8 \<Rightarrow> console \<Rightarrow> console option" where
  "debug_print_hex8 v s =
     do { s \<leftarrow> console_putchar (hex_digits ! unat (drop_bit 4 v)) s;
          console_putchar (hex_digits ! unat (v AND 0xF)) s }"

text \<open>The loop counts \<open>i\<close> down from 28 by fours; \<open>n\<close> is the number of digits left.\<close>

primrec hex32_loop :: "nat \<Rightarrow> u32 \<Rightarrow> console \<Rightarrow> console option" where
  "hex32_loop 0 v s = Some s"
| "hex32_loop (Suc n) v s =
     do { s \<leftarrow> console_putchar (hex_digits ! unat (drop_bit (4 * n) v AND 0xF)) s; hex32_loop n v s }"

definition debug_print_hex32 :: "u32 \<Rightarrow> console \<Rightarrow> console option" where
  "debug_print_hex32 v s = hex32_loop 8 v s"

subsection \<open>Numbers\<close>

text \<open>The digits of a number, least significant first, and back.\<close>

function digits_of :: "nat \<Rightarrow> nat \<Rightarrow> nat list" where
  "digits_of b n = (if n < b \<or> b < 2 then [n mod b] else (n mod b) # digits_of b (n div b))"
  by pat_completeness auto
termination
  by (relation "measure snd") (auto intro: div_less_dividend)

declare digits_of.simps [simp del]

primrec value_of :: "nat \<Rightarrow> nat list \<Rightarrow> nat" where
  "value_of b [] = 0"
| "value_of b (d # ds) = d + b * value_of b ds"

lemma digits_of_value: "2 \<le> b \<Longrightarrow> value_of b (digits_of b n) = n"
  by (induction b n rule: digits_of.induct) (subst digits_of.simps, auto)

lemma digits_of_bound: "2 \<le> b \<Longrightarrow> d \<in> set (digits_of b n) \<Longrightarrow> d < b"
  by (induction b n rule: digits_of.induct) (subst (asm) (2) digits_of.simps, auto split: if_splits)

lemma digits_of_length:
  assumes "2 \<le> b" and "n < b ^ Suc k"
  shows "length (digits_of b n) \<le> Suc k"
  using assms(2)
proof (induction k arbitrary: n)
  case 0
  then show ?case by (simp add: digits_of.simps)
next
  case (Suc k)
  have "n div b < b ^ Suc k" using Suc.prems assms(1) by (simp add: div_less_iff_less_mult mult.commute)
  from Suc.IH [OF this] show ?case by (subst digits_of.simps) simp
qed

lemma digit_loop_digits:
  assumes "2 \<le> unat base"
  shows "digit_loop val base ds buf = Some (buf @ map (\<lambda>d. ds ! d) (digits_of (unat base) (unat val)))"
proof (induction "unat val" arbitrary: val buf rule: less_induct)
  case less
  have m: "unat (val mod base) = unat val mod unat base" and d: "unat (val div base) = unat val div unat base"
    by (simp_all add: unat_mod unat_div)
  show ?case
  proof (cases "unat val < unat base")
    case True
    then have "val div base = 0" using d by (simp add: unat_eq_0 [symmetric])
    then show ?thesis using True m by (subst digit_loop.simps, subst digits_of.simps) simp
  next
    case False
    then have "0 < unat val div unat base" using assms by (simp add: div_greater_zero_iff)
    then have pos: "val div base > 0" using d by (simp add: word_less_nat_alt)
    have "unat (val div base) < unat val" using False assms d by (simp add: div_less_dividend)
    from less [OF this, of "buf @ [ds ! unat (val mod base)]"] False pos assms m d show ?thesis
      by (subst digit_loop.simps, subst digits_of.simps) simp
  qed
qed

definition number :: "u32 \<Rightarrow> nat \<Rightarrow> u8 list \<Rightarrow> u8 list" where
  "number v base ds = rev (map (\<lambda>d. ds ! d) (digits_of base (unat v)))"

lemma print_u32_write: "2 \<le> unat base \<Longrightarrow> print_u32 v base ds s = console_write (number v (unat base) ds) s"
  by (simp add: print_u32_def digit_loop_digits number_def)

text \<open>Reading a number back: the position of each character in the table of digits.\<close>

definition digit_index :: "u8 list \<Rightarrow> u8 \<Rightarrow> nat" where
  "digit_index ds c = (case find (\<lambda>i. ds ! i = c) [0..<length ds] of Some i \<Rightarrow> i | None \<Rightarrow> 0)"

definition read_number :: "nat \<Rightarrow> u8 list \<Rightarrow> u8 list \<Rightarrow> nat" where
  "read_number b ds cs = foldl (\<lambda>n c. n * b + digit_index ds c) 0 cs"

lemma digit_index_nth:
  assumes "distinct ds" and "d < length ds"
  shows "digit_index ds (ds ! d) = d"
proof -
  have "find (\<lambda>i. ds ! i = ds ! d) [0..<length ds] = Some d"
    using assms unfolding find_Some_iff by (intro exI [of _ d]) (auto simp: nth_eq_iff_index_eq)
  then show ?thesis by (simp add: digit_index_def)
qed

lemma read_number_digits:
  assumes "distinct ds" and "\<forall>d \<in> set xs. d < length ds"
  shows "read_number b ds (rev (map (\<lambda>d. ds ! d) xs)) = value_of b xs"
  using assms(2) by (induction xs) (simp_all add: read_number_def digit_index_nth [OF assms(1)] mult.commute)

lemma number_read:
  assumes "distinct ds" and "length ds = b" and "2 \<le> b"
  shows "read_number b ds (number v b ds) = unat v"
proof -
  have "\<forall>d \<in> set (digits_of b (unat v)). d < length ds" using digits_of_bound [OF assms(3)] assms(2) by auto
  from read_number_digits [OF assms(1) this, of b] digits_of_value [OF assms(3), of "unat v"]
  show ?thesis by (simp add: number_def)
qed

lemma number_length: "length (number v 10 ds) \<le> 10" "length (number v 16 ds) \<le> 8"
  using digits_of_length [of 10 "unat v" 9] digits_of_length [of 16 "unat v" 7] u32_less [of v]
  by (simp_all add: number_def)

lemma digit_tables:
  "distinct dec_digits" "length dec_digits = 10" "distinct lower_digits" "length lower_digits = 16"
  "distinct hex_digits" "length hex_digits = 16"
  by (simp_all add: dec_digits_def lower_digits_def hex_digits_def)

subsection \<open>Formats\<close>

definition decimal :: "nat \<Rightarrow> u8 list" where
  "decimal n = rev (map (\<lambda>d. dec_digits ! d) (digits_of 10 n))"

definition signed_text :: "u32 \<Rightarrow> u8 list" where
  "signed_text v = (if sint v < 0 then 45 # decimal (nat (- sint v)) else decimal (nat (sint v)))"

definition conv_text :: "u8 \<Rightarrow> arg list \<Rightarrow> (u8 list \<times> arg list) option" where
  "conv_text c args =
     (if c \<in> {99, 115, 100, 105, 117, 120, 88} then
        (case args of
           IntArg v # args \<Rightarrow>
             if c = 99 then Some ([ucast v], args)
             else if c = 100 \<or> c = 105 then Some (signed_text v, args)
             else if c = 117 then Some (decimal (unat v), args)
             else if c = 120 then Some (number v 16 lower_digits, args)
             else if c = 88 then Some (number v 16 hex_digits, args)
             else None
         | StrArg str # args \<Rightarrow> if c = 115 then Some (str, args) else None
         | [] \<Rightarrow> None)
      else Some ([c], args))"

fun format_text :: "u8 list \<Rightarrow> arg list \<Rightarrow> u8 list option" where
  "format_text [] args = Some []"
| "format_text [c] args = Some (if c \<noteq> 37 then [c] else [])"
| "format_text (c # d # fmt) args =
     (if c \<noteq> 37 then map_option (Cons c) (format_text (d # fmt) args)
      else do { (cs, args) \<leftarrow> conv_text d args; map_option (append cs) (format_text fmt args) })"

lemma unat_negated:
  assumes "sint (v :: u32) < 0"
  shows "unat (word_of_int (- (sint v + 1)) + 1 :: u32) = nat (- sint v)"
proof -
  have lo: "- (2 ^ 31) \<le> sint v" using sint_ge [of v] by simp
  have "(word_of_int (- (sint v + 1)) + 1 :: u32) = of_nat (nat (- sint v))"
  proof -
    have "(of_nat (nat (- sint v)) :: u32) = word_of_int (- sint v)" using assms by simp
    moreover have "(word_of_int (- (sint v + 1)) + 1 :: u32) = word_of_int (- (sint v + 1) + 1)" by simp
    ultimately show ?thesis by simp
  qed
  moreover have "nat (- sint v) < 4294967296" using lo by simp
  ultimately show ?thesis by (simp only: unat_of_nat_u32)
qed

lemma unat_nonneg:
  assumes "\<not> sint (v :: u32) < 0"
  shows "unat v = nat (sint v)"
proof -
  have "uint v = sint v"
    using assms sint_lt [of v] by (simp add: uint_sint [of v] take_bit_int_eq_self)
  then show ?thesis by (simp flip: nat_uint_eq)
qed

lemma print_dec: "print_u32 v 10 dec_digits s = console_write (decimal (unat v)) s"
  by (simp add: print_u32_write number_def decimal_def)

lemma print_hex:
  "print_u32 v 16 lower_digits s = console_write (number v 16 lower_digits) s"
  "print_u32 v 16 hex_digits s = console_write (number v 16 hex_digits) s"
  by (simp_all add: print_u32_write)

lemma putchar_write: "console_putchar c s = console_write [c] s"
  by (cases "console_putchar c s") simp_all

lemma putchar_then_write:
  "Option.bind (console_putchar c s) (\<lambda>s. map_option f (console_write cs s)) = map_option f (console_write (c # cs) s)"
  by (cases "console_putchar c s") simp_all

lemma conv_writes:
  assumes "conv_text c args = Some (cs, rest)"
  shows "kprintf_conv c args s = map_option (Pair rest) (console_write cs s)"
  using assms
  by (auto simp: conv_text_def kprintf_conv_def print_dec print_hex unat_negated [simplified] unat_nonneg signed_text_def
      putchar_then_write simp del: console_write.simps split: if_splits list.splits arg.splits)
    (simp_all add: putchar_write del: console_write.simps)

text \<open>\<^verbatim>\<open>kprintf\<close> writes the text of the format.\<close>

lemma kprintf_writes: "format_text fmt args = Some cs \<Longrightarrow> kprintf fmt args s = console_write cs s"
proof (induction fmt args arbitrary: cs s rule: format_text.induct)
  case (3 c d fmt args)
  show ?case
  proof (cases "c = 37")
    case False
    then obtain ds where ds: "format_text (d # fmt) args = Some ds" "cs = c # ds" using 3 by auto
    then have "kprintf (d # fmt) args = console_write ds" using False 3(1) [OF _ ds(1)] by (intro ext) simp
    then show ?thesis using False ds by simp
  next
    case True
    then obtain us rest ds where u: "conv_text d args = Some (us, rest)" "format_text fmt rest = Some ds" "cs = us @ ds"
      using 3(3) by (auto simp: bind_eq_Some_conv)
    have "kprintf fmt rest x = console_write ds x" for x using True 3(2) [OF _ u(1) refl u(2)] by simp
    then show ?thesis using True u conv_writes [OF u(1), of s]
      by (cases "console_write us s") (simp_all add: write_append)
  qed
qed (auto simp: putchar_write simp del: console_write.simps(2))

subsection \<open>Properties\<close>

definition blank_terminal :: terminal where
  "blank_terminal = \<lparr>screen = replicate 2000 32, pos = 0, start = 0\<rparr>"

text \<open>
  C37: The console implements a terminal of 80 by 25 characters. From \<^verbatim>\<open>console_clear\<close> on, printing
  any sequence of characters (newlines, tabs, backspaces, wrapping and scrolling included)
  returns; the text page shows the terminal's characters in the console's colour, the cursor
  stays on the page, the display controller's cursor is where the software's is, and no byte
  outside the text page is written.
\<close>
theorem console_is_terminal:
  "\<exists>s'. console_write cs (console_clear s) = Some s' \<and>
     displays (memory s) s' (fold (term_put (console_line_echo s)) cs blank_terminal)"
  using write_displays [OF clear_displays, of cs s] by (auto simp: blank_terminal_def clear_echo)

text \<open>
  C38: \<^verbatim>\<open>kprintf\<close> prints the text of its format: characters as they are, \<^verbatim>\<open>%c\<close>, \<^verbatim>\<open>%s\<close>, signed and unsigned
  decimal numbers (the most negative one included) and hexadecimal ones in either case; a
  percent sign at the end of the format prints nothing and an unknown conversion prints its
  own character. The terminal then shows exactly that text.
\<close>
theorem kprintf_prints:
  assumes "format_text fmt args = Some cs"
  shows "\<exists>s'. kprintf fmt args (console_clear s) = Some s' \<and>
     displays (memory s) s' (fold (term_put (console_line_echo s)) cs blank_terminal)"
  using write_displays [OF clear_displays, of cs s]
  by (auto simp: blank_terminal_def clear_echo kprintf_writes [OF assms])

definition blank_console :: console where
  "blank_console = \<lparr>memory = (\<lambda>_. 0), cursor = 0, user_cmdline_start = 0, console_line_echo = False, ports = []\<rparr>"

theorem kprintf_prints_witness:
  "\<exists>s'. kprintf [78, 37, 100, 37] [IntArg 0x80000000] (console_clear blank_console) = Some s' \<and>
     displays (memory blank_console) s' (fold (term_put (console_line_echo blank_console))
       [78, 45, 50, 49, 52, 55, 52, 56, 51, 54, 52, 56] blank_terminal)"
proof -
  have "format_text [78, 37, 100, 37] [IntArg 0x80000000] = Some [78, 45, 50, 49, 52, 55, 52, 56, 51, 54, 52, 56]"
    by (simp add: conv_text_def signed_text_def decimal_def digits_of.simps dec_digits_def)
  from kprintf_prints [OF this] show ?thesis .
qed

text \<open>
  The digits that \<^verbatim>\<open>print_u32\<close> prints read back as the number, in decimal and in both
  hexadecimal tables, and its loop returns after at most ten of the sixteen places of its buffer.
\<close>
theorem print_u32_roundtrip:
  assumes "(base, ds) \<in> {(10, dec_digits), (16, lower_digits), (16, hex_digits)}"
  shows "\<exists>buf. digit_loop v base ds [] = Some buf \<and> length buf \<le> 10 \<and>
    read_number (unat base) ds (rev buf) = unat v"
proof -
  have b: "2 \<le> unat base" "distinct ds" "length ds = unat base" "unat base = 10 \<or> unat base = 16"
    using assms by (auto simp: digit_tables)
  have "length (number v (unat base) ds) \<le> 10" using b(4) number_length [of v ds] by auto
  then show ?thesis
    using digit_loop_digits [OF b(1), of v ds "[]"] number_read [OF b(2,3,1), of v] by (simp add: number_def)
qed

theorem print_u32_roundtrip_witness:
  "\<exists>buf. digit_loop 0xBEEF 16 hex_digits [] = Some buf \<and> length buf \<le> 10 \<and>
     read_number 16 hex_digits (rev buf) = 48879"
  using print_u32_roundtrip [of 16 hex_digits "0xBEEF"] by simp

end
