(* ===== verification/Ring.thy ===== *)
theory Ring
  imports Novium_Prelude
begin

text \<open>
  The interface of a bounded first-in first-out buffer, as the message ports of
  \<^verbatim>\<open>src/ipc/message.c\<close> and the scancode buffer of \<^verbatim>\<open>src/drivers/input/keyboard.c\<close> provide it:
  a well-formedness predicate, the list of queued elements, a capacity, and push and pop with
  their laws. The client lemmas say that elements come out in the order they went in.
\<close>

text \<open>The slot of the \<open>k\<close>-th element of a ring that starts at \<open>h\<close>, and the list it denotes.\<close>

definition ring_list :: "'a list \<Rightarrow> nat \<Rightarrow> nat \<Rightarrow> 'a list" where
  "ring_list xs h n = map (\<lambda>k. xs ! ((h + k) mod length xs)) [0..<n]"

lemma ring_list_length [simp]: "length (ring_list xs h n) = n"
  by (simp add: ring_list_def)

lemma ring_list_push:
  assumes "n < length xs"
  shows "ring_list (xs[(h + n) mod length xs := x]) h (Suc n) = ring_list xs h n @ [x]"
proof -
  have "(h + n) mod length xs \<noteq> (h + k) mod length xs" if "k < n" for k
  proof
    assume "(h + n) mod length xs = (h + k) mod length xs"
    then have "length xs dvd (h + n) - (h + k)"
      using that mod_eq_dvd_iff_nat [of "h + k" "h + n" "length xs"] by simp
    then show False using that assms by (auto dest: dvd_imp_le)
  qed
  moreover have "(h + n) mod length xs < length xs" using assms by (intro mod_less_divisor) linarith
  ultimately show ?thesis by (simp add: ring_list_def)
qed

lemma ring_list_pop:
  assumes "0 < n" and "h < length xs"
  shows "ring_list xs h n = xs ! h # ring_list xs ((h + 1) mod length xs) (n - 1)"
proof -
  obtain m where n: "n = Suc m" using assms(1) by (cases n) auto
  have "[0..<Suc m] = 0 # map Suc [0..<m]" by (simp add: map_Suc_upt upt_conv_Cons del: upt_Suc)
  then show ?thesis
    using assms(2) by (simp add: ring_list_def n mod_add_left_eq comp_def del: upt_Suc)
qed

fun drain :: "('b \<Rightarrow> 'a \<times> 'b) \<Rightarrow> nat \<Rightarrow> 'b \<Rightarrow> 'a list \<times> 'b" where
  "drain pop 0 b = ([], b)"
| "drain pop (Suc n) b = (let (x, b) = pop b; (xs, b) = drain pop n b in (x # xs, b))"

locale bounded_fifo =
  fixes wf :: "'b \<Rightarrow> bool" and contents :: "'b \<Rightarrow> 'a list" and cap :: nat
    and push :: "'a \<Rightarrow> 'b \<Rightarrow> 'b" and pop :: "'b \<Rightarrow> 'a \<times> 'b"
  assumes contents_bound: "wf b \<Longrightarrow> length (contents b) \<le> cap"
    and push_law: "wf b \<Longrightarrow> length (contents b) < cap \<Longrightarrow>
      wf (push x b) \<and> contents (push x b) = contents b @ [x]"
    and pop_law: "wf b \<Longrightarrow> contents b = x # xs \<Longrightarrow>
      fst (pop b) = x \<and> wf (snd (pop b)) \<and> contents (snd (pop b)) = xs"
begin

lemma fold_push:
  assumes "wf b" and "length (contents b) + length xs \<le> cap"
  shows "wf (fold push xs b) \<and> contents (fold push xs b) = contents b @ xs"
  using assms
proof (induction xs arbitrary: b)
  case (Cons x xs)
  then have "wf (push x b)" "contents (push x b) = contents b @ [x]" using push_law by auto
  with Cons show ?case by simp
qed simp

lemma drain_contents:
  assumes "wf b" and "n \<le> length (contents b)"
  shows "fst (drain pop n b) = take n (contents b) \<and> wf (snd (drain pop n b)) \<and>
    contents (snd (drain pop n b)) = drop n (contents b)"
  using assms
proof (induction n arbitrary: b)
  case (Suc n)
  then obtain x xs where c: "contents b = x # xs" by (cases "contents b") auto
  with pop_law [OF Suc.prems(1) c] Suc.IH [of "snd (pop b)"] Suc.prems(2)
  show ?case by (simp add: Let_def split: prod.split) (metis fst_conv snd_conv)
qed simp

lemma fifo_order:
  assumes "wf b" and "contents b = []" and "length xs \<le> cap"
  shows "fst (drain pop (length xs) (fold push xs b)) = xs"
  using fold_push [of b xs] drain_contents [of "fold push xs b" "length xs"] assms by simp

end

end
