(* ===== verification/Keyboard.thy ===== *)
theory Keyboard
  imports Ring
begin

text \<open>
  The keyboard, \<^verbatim>\<open>src/drivers/input/keyboard.c\<close> and \<^verbatim>\<open>src/drivers/input/ps2.c\<close>: the interrupt handler
  stores scancodes in a ring of 32 bytes, \<^verbatim>\<open>keyboard_getchar\<close> takes them out and translates them
  with two tables. A tape of bytes stands for what successive reads of the controller's ports
  return. \<^verbatim>\<open>keyboard_getchar\<close> waits for interrupts: its argument \<open>arrivals\<close> says for each turn of
  its loop whether an interrupt comes first and with which scancode, and it has no result while
  the key it waits for has not arrived.

  The ring is an instance of \<^theory_text>\<open>bounded_fifo\<close> (one slot always stays empty). Whatever the interleaving
  of interrupts with the loop, \<^verbatim>\<open>keyboard_getchar\<close> returns what the translation of the scancodes in the
  order of arrival gives.
\<close>

definition BUF_SIZE :: nat where
  "BUF_SIZE = 32"

record keyboard =
  kbuf :: "u8 list"
  head :: u16
  tail :: u16
  shift_held :: int

definition ascii :: "string \<Rightarrow> u8 list" where
  "ascii cs = map of_char cs"

definition kbd_layout :: "u8 list" where
  "kbd_layout = [0, 27] @ ascii ''1234567890-='' @ [8, 9] @ ascii ''qwertyuiop[]'' @ [10, 0] @
     ascii ''asdfghjkl;'' @ [39, 96, 0, 92] @ ascii ''zxcvbnm,./'' @ [0, 0, 0, 32]"

definition kbd_layout_shift :: "u8 list" where
  "kbd_layout_shift = [0, 27] @ ascii ''!@#$%^&*()_+'' @ [8, 9] @ ascii ''QWERTYUIOP{}'' @ [10, 0] @
     ascii ''ASDFGHJKL:'' @ [34, 126, 0, 124] @ ascii ''ZXCVBNM<>?'' @ [0, 0, 0, 32]"

subsection \<open>Operations\<close>

primrec inb :: "u8 list \<Rightarrow> (u8 \<times> u8 list) option" where
  "inb [] = None"
| "inb (v # tape) = Some (v, tape)"

definition ps2_read_status :: "u8 list \<Rightarrow> (u8 \<times> u8 list) option" where
  "ps2_read_status tape = inb tape"

partial_function (option) ps2_read_scancode :: "u8 list \<Rightarrow> (u8 \<times> u8 list) option" where
  "ps2_read_scancode tape =
     do { (status, tape) \<leftarrow> ps2_read_status tape;
          if status AND 0x01 = 0 then ps2_read_scancode tape else inb tape }"

definition keyboard_store :: "u8 \<Rightarrow> keyboard \<Rightarrow> keyboard" where
  "keyboard_store sc k =
     (let next = of_nat ((unat (head k) + 1) mod BUF_SIZE) :: u8 in
      if unat next \<noteq> unat (tail k)
      then k\<lparr>kbuf := (kbuf k)[unat (head k) := sc], head := ucast next\<rparr>
      else k)"

definition keyboard_callback :: "u8 list \<Rightarrow> keyboard \<Rightarrow> (keyboard \<times> u8 list) option" where
  "keyboard_callback tape k =
     do { (sc, tape) \<leftarrow> ps2_read_scancode tape; Some (keyboard_store sc k, tape) }"

definition keyboard_pop :: "keyboard \<Rightarrow> int \<times> keyboard" where
  "keyboard_pop k =
     (if tail k = head k then (- 1, k)
      else (uint (kbuf k ! unat (tail k)), k\<lparr>tail := of_nat ((unat (tail k) + 1) mod BUF_SIZE)\<rparr>))"

text \<open>
  The translation of one scancode that is not negative: the key, if there is one (\<^verbatim>\<open>return\<close>), or
  nothing (\<^verbatim>\<open>continue\<close>), and the state of the shift key.
\<close>

definition translate_scancode :: "int \<Rightarrow> int \<Rightarrow> u8 option \<times> int" where
  "translate_scancode sc shift =
     (if sc AND 0x80 \<noteq> 0 then
        (let sc = sc AND 0x7F in (None, if sc = 0x2A \<or> sc = 0x36 then 0 else shift))
      else if sc = 0x2A \<or> sc = 0x36 then (None, 1)
      else if sc = 0x3A then (None, if shift = 0 then 1 else 0)
      else if sc \<ge> int (length kbd_layout) then (None, shift)
      else
        (let key = (if shift \<noteq> 0 then kbd_layout_shift else kbd_layout) ! nat sc
         in (if key = 0 then None else Some key, shift)))"

partial_function (option) keyboard_getchar ::
  "u8 option list \<Rightarrow> keyboard \<Rightarrow> (u8 \<times> u8 option list \<times> keyboard) option" where
  "keyboard_getchar arrivals k =
     do { k \<leftarrow> (case arrivals of
                  Some sc # _ \<Rightarrow> map_option fst (keyboard_callback [1, sc] k)
                | _ \<Rightarrow> Some k);
          (case keyboard_pop k of (sc, k) \<Rightarrow>
             if sc < 0 then (if tl arrivals = [] then None else keyboard_getchar (tl arrivals) k)
             else
               (case translate_scancode sc (shift_held k) of (key, shift) \<Rightarrow>
                  (let k = k\<lparr>shift_held := shift\<rparr> in
                   case key of
                     Some c \<Rightarrow> Some (c, tl arrivals, k)
                   | None \<Rightarrow> keyboard_getchar (tl arrivals) k))) }"

declare ps2_read_scancode.simps [code] keyboard_getchar.simps [code]

subsection \<open>The ring\<close>

definition kbd_ok :: "keyboard \<Rightarrow> bool" where
  "kbd_ok k \<longleftrightarrow> length (kbuf k) = 32 \<and> unat (head k) < 32 \<and> unat (tail k) < 32"

definition queued :: "keyboard \<Rightarrow> nat" where
  "queued k = (unat (head k) + 32 - unat (tail k)) mod 32"

definition scancodes :: "keyboard \<Rightarrow> u8 list" where
  "scancodes k = ring_list (kbuf k) (unat (tail k)) (queued k)"

lemma queued_cases:
  assumes "h < 32" and "t < (32 :: nat)"
  shows "(h + 32 - t) mod 32 = (if t \<le> h then h - t else h + 32 - t)"
  using assms by (auto simp: mod_if)

lemma unat_small: "n < 32 \<Longrightarrow> unat (of_nat n :: u8) = n" "n < 32 \<Longrightarrow> unat (of_nat n :: u16) = n"
    "n < 32 \<Longrightarrow> unat (ucast (of_nat n :: u8) :: u16) = n"
  by (simp_all add: unat_of_nat take_bit_nat_eq_self unsigned_ucast_eq)

lemma ring_arith:
  fixes h t n q :: nat
  assumes "h < 32" and "t < 32" and q: "q = (h + 32 - t) mod 32"
  shows "q < 32" "q = 0 \<longleftrightarrow> t = h" "(t + q) mod 32 = h"
    and "n = (h + 1) mod 32 \<Longrightarrow> n < 32 \<and> (n \<noteq> t \<longleftrightarrow> q < 31) \<and> (n \<noteq> t \<longrightarrow> (n + 32 - t) mod 32 = Suc q)"
    and "n = (t + 1) mod 32 \<Longrightarrow> n < 32 \<and> (t \<noteq> h \<longrightarrow> (h + 32 - n) mod 32 = q - 1)"
proof -
  have q': "q = (if t \<le> h then h - t else h + 32 - t)" unfolding q by (rule queued_cases [OF assms(1,2)])
  have wrap: "(x + 1) mod 32 = (if x = 31 then 0 else x + 1)" if "x < 32" for x :: nat using that by auto
  show "q < 32" "q = 0 \<longleftrightarrow> t = h" using assms(1,2) by (auto simp: q')
  show "(t + q) mod 32 = h" using assms(1,2) by (auto simp: q')
  show "n < 32 \<and> (n \<noteq> t \<longleftrightarrow> q < 31) \<and> (n \<noteq> t \<longrightarrow> (n + 32 - t) mod 32 = Suc q)" if "n = (h + 1) mod 32"
    using assms(1,2) queued_cases [of n t] unfolding that wrap [OF assms(1)] by (auto simp: q')
  show "n < 32 \<and> (t \<noteq> h \<longrightarrow> (h + 32 - n) mod 32 = q - 1)" if "n = (t + 1) mod 32"
    using assms(1,2) queued_cases [of h n] unfolding that wrap [OF assms(2)] by (auto simp: q')
qed

lemma keyboard_store_law:
  assumes "kbd_ok k"
  shows "kbd_ok (keyboard_store sc k)" and "shift_held (keyboard_store sc k) = shift_held k"
    and "scancodes (keyboard_store sc k) = (if length (scancodes k) < 31 then scancodes k @ [sc] else scancodes k)"
proof -
  define h t n where "h = unat (head k)" and "t = unat (tail k)" and "n = (h + 1) mod 32"
  have ht: "h < 32" "t < 32" "length (kbuf k) = 32" using assms by (simp_all add: kbd_ok_def h_def t_def)
  have q: "queued k = (h + 32 - t) mod 32" by (simp add: queued_def h_def t_def)
  note ar = ring_arith(1,3) [OF ht(1,2) q] ring_arith(4) [OF ht(1,2) q n_def]
  have n: "n < 32" using ar(3) by simp
  have store: "keyboard_store sc k =
      (if queued k < 31 then k\<lparr>kbuf := (kbuf k)[h := sc], head := ucast (of_nat n :: u8)\<rparr> else k)"
    using ar(3) unfolding keyboard_store_def BUF_SIZE_def h_def [symmetric] t_def [symmetric] n_def [symmetric]
    by (simp add: Let_def unat_small(1) [OF n])
  show "kbd_ok (keyboard_store sc k)"
    using assms by (simp add: store kbd_ok_def unat_small(3) [OF n] n)
  show "shift_held (keyboard_store sc k) = shift_held k" by (simp add: store)
  have "scancodes (keyboard_store sc k) = scancodes k @ [sc]" if lt: "queued k < 31"
  proof -
    have "queued (keyboard_store sc k) = Suc (queued k)"
      using lt ar(3) by (simp add: store queued_def [of "_\<lparr>head := _\<rparr>"] unat_small(3) [OF n] t_def)
    then show ?thesis
      using ring_list_push [of "queued k" "kbuf k" t sc] lt ht ar(2) by (simp add: scancodes_def store t_def)
  qed
  then show "scancodes (keyboard_store sc k) = (if length (scancodes k) < 31 then scancodes k @ [sc] else scancodes k)"
    by (auto simp: scancodes_def store)
qed

lemma keyboard_pop_law:
  assumes "kbd_ok k"
  shows "scancodes k = [] \<Longrightarrow> keyboard_pop k = (- 1, k)"
    and "scancodes k = sc # scs \<Longrightarrow> \<exists>k'. keyboard_pop k = (uint sc, k') \<and> kbd_ok k' \<and> scancodes k' = scs \<and>
      shift_held k' = shift_held k"
proof -
  define h t n where "h = unat (head k)" and "t = unat (tail k)" and "n = (t + 1) mod 32"
  have ht: "h < 32" "t < 32" "length (kbuf k) = 32" using assms by (simp_all add: kbd_ok_def h_def t_def)
  have q: "queued k = (h + 32 - t) mod 32" by (simp add: queued_def h_def t_def)
  note ar = ring_arith(2) [OF ht(1,2) q] ring_arith(5) [OF ht(1,2) q n_def]
  have n: "n < 32" using ar(2) by simp
  have eq: "tail k = head k \<longleftrightarrow> t = h" by (auto simp: h_def t_def intro: unsigned_word_eqI)
  show "keyboard_pop k = (- 1, k)" if "scancodes k = []"
  proof -
    have "length (scancodes k) = 0" using that by simp
    then show ?thesis using ar(1) eq by (simp add: scancodes_def keyboard_pop_def)
  qed
  show "\<exists>k'. keyboard_pop k = (uint sc, k') \<and> kbd_ok k' \<and> scancodes k' = scs \<and> shift_held k' = shift_held k"
    if c: "scancodes k = sc # scs"
  proof -
    have "length (scancodes k) \<noteq> 0" using c by simp
    then have pos: "0 < queued k" and ne: "t \<noteq> h" using ar(1) by (simp_all add: scancodes_def)
    let ?k = "k\<lparr>tail := of_nat n\<rparr>"
    have "queued ?k = queued k - 1"
      using ar(2) ne by (simp add: queued_def [of "_\<lparr>tail := _\<rparr>"] unat_small(2) [OF n] h_def)
    moreover have "ring_list (kbuf k) t (queued k) = kbuf k ! t # ring_list (kbuf k) n (queued k - 1)"
      using ring_list_pop [OF pos, of t "kbuf k"] ht by (simp add: n_def)
    ultimately have "scancodes k = kbuf k ! t # scancodes ?k"
      by (simp add: scancodes_def unat_small(2) [OF n] t_def [symmetric])
    moreover have "keyboard_pop k = (uint (kbuf k ! t), ?k)"
      using ne eq by (simp add: keyboard_pop_def BUF_SIZE_def t_def [symmetric] n_def)
    moreover have "kbd_ok ?k" using assms by (simp add: kbd_ok_def unat_small(2) [OF n] n)
    ultimately show ?thesis using c by auto
  qed
qed

interpretation kbd_ring: bounded_fifo kbd_ok scancodes 31 keyboard_store
  "\<lambda>k. (word_of_int (fst (keyboard_pop k)), snd (keyboard_pop k))"
proof unfold_locales
  show "kbd_ok k \<Longrightarrow> length (scancodes k) \<le> 31" for k
    using ring_arith(1) [of "unat (head k)" "unat (tail k)" "queued k"]
    by (simp add: scancodes_def kbd_ok_def queued_def)
  show "kbd_ok k \<Longrightarrow> length (scancodes k) < 31 \<Longrightarrow>
      kbd_ok (keyboard_store sc k) \<and> scancodes (keyboard_store sc k) = scancodes k @ [sc]" for k sc
    using keyboard_store_law [of k sc] by simp
  show "kbd_ok k \<Longrightarrow> scancodes k = sc # scs \<Longrightarrow>
      fst (word_of_int (fst (keyboard_pop k)), snd (keyboard_pop k)) = sc \<and>
      kbd_ok (snd (word_of_int (fst (keyboard_pop k)) :: u8, snd (keyboard_pop k))) \<and>
      scancodes (snd (word_of_int (fst (keyboard_pop k)) :: u8, snd (keyboard_pop k))) = scs" for k sc scs
    using keyboard_pop_law(2) [of k sc scs] by auto
qed

subsection \<open>Reading keys\<close>

text \<open>The handler waits until the controller has a byte, and stores that byte.\<close>

lemma ps2_polls:
  assumes "\<forall>st \<in> set polls. st AND 1 = 0" and "st AND 1 \<noteq> 0"
  shows "ps2_read_scancode (polls @ st # sc # rest) = Some (sc, rest)"
  using assms(1)
proof (induction polls)
  case Nil
  then show ?case using assms(2) by (subst ps2_read_scancode.simps) (simp add: ps2_read_status_def)
next
  case (Cons p polls)
  then show ?case by (subst ps2_read_scancode.simps) (simp add: ps2_read_status_def)
qed

lemma callback_store: "keyboard_callback [1, sc] k = Some (keyboard_store sc k, [])"
  using ps2_polls [of "[]" 1 sc "[]"] by (simp add: keyboard_callback_def)

text \<open>The first key that a list of scancodes spells, with the shift state and the scancodes after it.\<close>

primrec decode :: "int \<Rightarrow> u8 list \<Rightarrow> (u8 \<times> int \<times> u8 list) option" where
  "decode shift [] = None"
| "decode shift (sc # scs) =
     (case translate_scancode (uint sc) shift of
        (Some c, shift) \<Rightarrow> Some (c, shift, scs)
      | (None, shift) \<Rightarrow> decode shift scs)"

definition arrived :: "u8 option list \<Rightarrow> u8 list" where
  "arrived arrivals = concat (map (\<lambda>a. case a of Some sc \<Rightarrow> [sc] | None \<Rightarrow> []) arrivals)"

lemma arrived_simps [simp]:
  "arrived [] = []" "arrived (None # as) = arrived as" "arrived (Some sc # as) = sc # arrived as"
  by (simp_all add: arrived_def)

definition turn_store :: "u8 option list \<Rightarrow> keyboard \<Rightarrow> keyboard" where
  "turn_store arrivals k = (case arrivals of Some sc # _ \<Rightarrow> keyboard_store sc k | _ \<Rightarrow> k)"

lemma getchar_step:
  "keyboard_getchar arrivals k =
     (case keyboard_pop (turn_store arrivals k) of (sc, k) \<Rightarrow>
        if sc < 0 then (if tl arrivals = [] then None else keyboard_getchar (tl arrivals) k)
        else
          (case translate_scancode sc (shift_held k) of (key, shift) \<Rightarrow>
             (case key of
                Some c \<Rightarrow> Some (c, tl arrivals, k\<lparr>shift_held := shift\<rparr>)
              | None \<Rightarrow> keyboard_getchar (tl arrivals) (k\<lparr>shift_held := shift\<rparr>))))"
proof -
  have "(case arrivals of Some sc # _ \<Rightarrow> map_option fst (keyboard_callback [1, sc] k) | _ \<Rightarrow> Some k) =
      Some (turn_store arrivals k)"
    by (auto simp: turn_store_def callback_store split: list.split option.split)
  then show ?thesis by (subst keyboard_getchar.simps) (simp only: bind.bind_lunit Let_def)
qed

lemma turn_store_law:
  assumes "kbd_ok k" and "length (scancodes k) + length (arrived arrivals) \<le> 31"
  shows "kbd_ok (turn_store arrivals k)" "shift_held (turn_store arrivals k) = shift_held k"
    "scancodes (turn_store arrivals k) @ arrived (tl arrivals) = scancodes k @ arrived arrivals"
  using assms keyboard_store_law [OF assms(1)]
  by (auto simp: turn_store_def split: list.split option.split)

lemma shift_scancodes [simp]: "scancodes (k\<lparr>shift_held := s\<rparr>) = scancodes k" "kbd_ok (k\<lparr>shift_held := s\<rparr>) = kbd_ok k"
  by (simp_all add: scancodes_def queued_def kbd_ok_def)

lemma getchar_decode:
  assumes "kbd_ok k" and "length (scancodes k) + length (arrived arrivals) \<le> 31"
  shows "case decode (shift_held k) (scancodes k @ arrived arrivals) of
      None \<Rightarrow> keyboard_getchar arrivals k = None
    | Some (c, shift, rest) \<Rightarrow> \<exists>arrivals' k'. keyboard_getchar arrivals k = Some (c, arrivals', k') \<and> kbd_ok k' \<and>
        shift_held k' = shift \<and> scancodes k' @ arrived arrivals' = rest"
  using assms
proof (induction "length arrivals + length (scancodes k @ arrived arrivals)" arbitrary: arrivals k rule: less_induct)
  case less
  let ?k = "turn_store arrivals k"
  note ts = turn_store_law [OF less.prems]
  show ?case
  proof (cases "scancodes ?k")
    case Nil
    have pop: "keyboard_pop ?k = (- 1, ?k)" by (rule keyboard_pop_law(1) [OF ts(1) Nil])
    show ?thesis
    proof (cases "tl arrivals = []")
      case True
      then have "scancodes k @ arrived arrivals = []" using ts(3) Nil by simp
      with True show ?thesis by (subst getchar_step) (simp add: pop)
    next
      case False
      then have "length (tl arrivals) < length arrivals" by (cases arrivals) auto
      moreover have "keyboard_getchar arrivals k = keyboard_getchar (tl arrivals) ?k"
        using False by (subst getchar_step) (simp add: pop)
      ultimately show ?thesis using less.hyps [of "tl arrivals" ?k] ts less.prems(2)
        by (metis add_mono_thms_linordered_field(1) length_append)
    qed
  next
    case (Cons sc scs)
    obtain k1 where k1: "keyboard_pop ?k = (uint sc, k1)" "kbd_ok k1" "scancodes k1 = scs" "shift_held k1 = shift_held k"
      using keyboard_pop_law(2) [OF ts(1) Cons] ts(2) by auto
    obtain key shift where tr: "translate_scancode (uint sc) (shift_held k) = (key, shift)" by fastforce
    have all: "scancodes k @ arrived arrivals = sc # scs @ arrived (tl arrivals)" using ts(3) Cons by simp
    have nn: "\<not> uint sc < 0" by (simp add: not_less)
    show ?thesis
    proof (cases key)
      case (Some c)
      then show ?thesis
        using k1 by (subst getchar_step) (simp add: all tr nn)
    next
      case None
      have eq: "keyboard_getchar arrivals k = keyboard_getchar (tl arrivals) (k1\<lparr>shift_held := shift\<rparr>)"
        using None k1 by (subst getchar_step) (simp add: tr nn)
      have lt: "length (scancodes k1) + length (arrived (tl arrivals)) < length (scancodes k) + length (arrived arrivals)"
        using arg_cong [OF all, of length] k1(3) by simp
      moreover have "length (tl arrivals) \<le> length arrivals" by simp
      ultimately have "length (tl arrivals) + length (scancodes (k1\<lparr>shift_held := shift\<rparr>) @ arrived (tl arrivals))
          < length arrivals + length (scancodes k @ arrived arrivals)" by simp
      note IH = less.hyps [OF this]
      have "decode (shift_held k) (scancodes k @ arrived arrivals) = decode shift (scs @ arrived (tl arrivals))"
        using None by (simp add: all tr)
      with IH lt less.prems(2) k1 show ?thesis unfolding eq by simp
    qed
  qed
qed

subsection \<open>Properties\<close>

text \<open>
  C40: \<^verbatim>\<open>keyboard_getchar\<close> returns the first key that the scancodes spell, those already in the ring
  followed by those that interrupts bring, in order and whatever the interleaving of the
  interrupts with its loop, as long as the ring is not asked to hold more than 31; the
  scancodes after the key stay for the next call, and the shift state is carried along. It
  keeps waiting exactly when the scancodes spell no key.
\<close>
theorem keyboard_getchar_order:
  assumes "kbd_ok k" and "length (scancodes k) + length (arrived arrivals) \<le> 31"
  shows "case decode (shift_held k) (scancodes k @ arrived arrivals) of
      None \<Rightarrow> keyboard_getchar arrivals k = None
    | Some (c, shift, rest) \<Rightarrow> \<exists>arrivals' k'. keyboard_getchar arrivals k = Some (c, arrivals', k') \<and> kbd_ok k' \<and>
        shift_held k' = shift \<and> scancodes k' @ arrived arrivals' = rest"
  by (rule getchar_decode [OF assms])

definition idle_keyboard :: keyboard where
  "idle_keyboard = \<lparr>kbuf = replicate 32 0, head = 30, tail = 30, shift_held = 0\<rparr>"

theorem keyboard_getchar_order_witness:
  "\<exists>arrivals' k'. keyboard_getchar [None, Some 0x2A, Some 0x9E, None, Some 0x1E, Some 0xAA] idle_keyboard
     = Some (65, arrivals', k') \<and> shift_held k' = 1 \<and> scancodes k' @ arrived arrivals' = [0xAA]"
proof -
  have k: "kbd_ok idle_keyboard" "scancodes idle_keyboard = []" "shift_held idle_keyboard = 0"
    by (simp_all add: kbd_ok_def scancodes_def queued_def idle_keyboard_def ring_list_def)
  have "decode 0 [0x2A, 0x9E, 0x1E, 0xAA] = Some (65, 1, [0xAA])"
    by (simp add: translate_scancode_def kbd_layout_def kbd_layout_shift_def ascii_def Let_def)
  then show ?thesis
    using keyboard_getchar_order [OF k(1), of "[None, Some 0x2A, Some 0x9E, None, Some 0x1E, Some 0xAA]"]
    by (simp add: k del: decode.simps) blast
qed

end
