(* ===== verification/Cpu.thy ===== *)
theory Cpu
  imports Novium_Prelude
begin

text \<open>
  The processor as the kernel's C and assembly code uses it: the callee-saved registers,
  the stack pointer, the flags and the instruction pointer, and a memory of 32-bit cells
  addressed by byte address (every stack access of the modelled code is an aligned double
  word). Modelled here: the interrupt-flag helpers of \<^verbatim>\<open>src/arch/x86_32/kernel/process.c\<close>
  and \<^verbatim>\<open>src/arch/x86_32/include/asm/cpu.h\<close>, and the context switch
  \<^verbatim>\<open>src/arch/x86_32/kernel/switch.S\<close>, with the initial stack of a task as
  \<^verbatim>\<open>SchedInitStack\<close> of \<^verbatim>\<open>src/kernel/sched.c\<close> builds it.

  The lemmas show that the initial frame mirrors the epilogue of the switch, and that a
  task that is switched away and back finds its registers, its flags and its stack as it
  left them.
\<close>

record cpu =
  edi :: u32
  esi :: u32
  ebx :: u32
  ebp :: u32
  esp :: u32
  eflags :: u32
  eip :: u32

type_synonym memory = "u32 \<Rightarrow> u32"

subsection \<open>The interrupt flag\<close>

definition EflagsInterruptEnable :: u32 where
  "EflagsInterruptEnable = 0x200"

definition cpu_irqs_enabled :: "cpu \<Rightarrow> bool" where
  "cpu_irqs_enabled c \<longleftrightarrow> eflags c AND EflagsInterruptEnable \<noteq> 0"

definition cpu_disable_irqs :: "cpu \<Rightarrow> cpu" where
  "cpu_disable_irqs c = c\<lparr>eflags := eflags c AND NOT EflagsInterruptEnable\<rparr>"

definition cpu_enable_irqs :: "cpu \<Rightarrow> cpu" where
  "cpu_enable_irqs c = c\<lparr>eflags := eflags c OR EflagsInterruptEnable\<rparr>"

lemma irqs_disabled [irq_simps]: "\<not> cpu_irqs_enabled (cpu_disable_irqs c)"
  by (simp add: cpu_irqs_enabled_def cpu_disable_irqs_def EflagsInterruptEnable_def
      and.assoc)

lemma irqs_enabled [irq_simps]: "cpu_irqs_enabled (cpu_enable_irqs c)"
proof -
  have "(eflags c OR 0x200) AND 0x200 = (0x200 :: u32)"
    by (simp add: bit_eq_iff bit_simps)
  then show ?thesis
    by (simp add: cpu_irqs_enabled_def cpu_enable_irqs_def EflagsInterruptEnable_def)
qed

subsection \<open>Stack operations and the context switch\<close>

definition push :: "u32 \<Rightarrow> cpu \<times> memory \<Rightarrow> cpu \<times> memory" where
  "push v cm = (let c = fst cm; m = snd cm; sp = esp c - 4 in (c\<lparr>esp := sp\<rparr>, m(sp := v)))"

text \<open>
  \<^verbatim>\<open>SchedSwitch\<close> in two halves. On entry \<open>eip\<close> is the address the \<^verbatim>\<open>call\<close>
  instruction pushes, so the save half begins with that push; the save half ends with the
  stack pointer that is stored through \<^verbatim>\<open>OldEsp\<close>. The restore half starts from the new
  stack pointer and ends with the \<^verbatim>\<open>ret\<close>.
\<close>

definition switch_save :: "cpu \<times> memory \<Rightarrow> cpu \<times> memory" where
  "switch_save cm =
     (let c = fst cm in
      push (edi c) (push (esi c) (push (ebx c) (push (ebp c) (push (eflags c)
        (push (eip c) cm))))))"

definition switch_restore :: "u32 \<Rightarrow> cpu \<times> memory \<Rightarrow> cpu \<times> memory" where
  "switch_restore newesp cm =
     (let c = (fst cm)\<lparr>esp := newesp\<rparr>; m = snd cm;
          c = c\<lparr>edi := m (esp c), esp := esp c + 4\<rparr>;
          c = c\<lparr>esi := m (esp c), esp := esp c + 4\<rparr>;
          c = c\<lparr>ebx := m (esp c), esp := esp c + 4\<rparr>;
          c = c\<lparr>ebp := m (esp c), esp := esp c + 4\<rparr>;
          c = c\<lparr>eflags := m (esp c), esp := esp c + 4\<rparr>;
          c = c\<lparr>eip := m (esp c), esp := esp c + 4\<rparr>
      in (c, m))"

text \<open>The switch returns the value stored through \<^verbatim>\<open>OldEsp\<close>, and the machine after it.\<close>

definition SchedSwitch :: "u32 \<Rightarrow> cpu \<times> memory \<Rightarrow> u32 \<times> cpu \<times> memory" where
  "SchedSwitch newesp cm =
     (let cm' = switch_save cm in (esp (fst cm'), switch_restore newesp cm'))"

subsection \<open>The initial stack of a task\<close>

text \<open>
  \<^verbatim>\<open>SchedInitStack\<close>: eight stores below the stack top; the address of
  \<^verbatim>\<open>SchedExitStub\<close>, which the linker chooses, is the argument \<open>stub\<close>. The result is
  the stack pointer stored in the task, and the memory.
\<close>

definition SchedInitStack :: "u32 \<Rightarrow> u32 \<Rightarrow> u32 \<Rightarrow> memory \<Rightarrow> u32 \<times> memory" where
  "SchedInitStack stub entry stacktop m =
     (let sp = stacktop;
          sp = sp - 4; m = m(sp := entry);
          sp = sp - 4; m = m(sp := 0);
          sp = sp - 4; m = m(sp := stub);
          sp = sp - 4; m = m(sp := 0x202);
          sp = sp - 4; m = m(sp := 0);
          sp = sp - 4; m = m(sp := 0);
          sp = sp - 4; m = m(sp := 0);
          sp = sp - 4; m = m(sp := 0)
      in (sp, m))"

lemma SchedInitStack_esp: "fst (SchedInitStack stub entry stacktop m) = stacktop - 32"
  by (simp add: SchedInitStack_def Let_def)

text \<open>The frame the epilogue pops, read upwards from the stored stack pointer.\<close>

definition switch_frame :: "memory \<Rightarrow> u32 \<Rightarrow> u32 list" where
  "switch_frame m sp = map (\<lambda>k. m (sp + 4 * of_nat k)) [0..<6]"

lemma switch_restore_frame:
  assumes "switch_frame m sp = [vedi, vesi, vebx, vebp, vfl, vip]"
  shows "switch_restore sp (c, m) =
    (c\<lparr>edi := vedi, esi := vesi, ebx := vebx, ebp := vebp, eflags := vfl, eip := vip,
       esp := sp + 24\<rparr>, m)"
  using assms
  by (simp add: switch_restore_def Let_def switch_frame_def upt_rec add.commute)

lemma SchedInitStack_frame:
  "switch_frame (snd (SchedInitStack stub entry stacktop m)) (stacktop - 32) =
     [0, 0, 0, 0, 0x202, stub]"
  by (simp add: switch_frame_def SchedInitStack_def Let_def upt_rec)

lemma SchedInitStack_args:
  "snd (SchedInitStack stub entry stacktop m) (stacktop - 8) = 0"
  "snd (SchedInitStack stub entry stacktop m) (stacktop - 4) = entry"
  by (simp_all add: SchedInitStack_def Let_def)

lemma SchedInitStack_other:
  assumes "\<And>k. k < 8 \<Longrightarrow> a \<noteq> stacktop - 4 * of_nat (Suc k)"
  shows "snd (SchedInitStack stub entry stacktop m) a = m a"
  using assms [of 0] assms [of 1] assms [of 2] assms [of 3] assms [of 4] assms [of 5]
    assms [of 6] assms [of 7]
  by (simp add: SchedInitStack_def Let_def)

lemma switch_save_frame:
  "switch_frame (snd (switch_save (c, m))) (esp c - 24) =
     [edi c, esi c, ebx c, ebp c, eflags c, eip c]"
  by (simp add: switch_frame_def switch_save_def push_def Let_def upt_rec)

lemma switch_save_other:
  assumes "a \<notin> {esp c - 4, esp c - 8, esp c - 12, esp c - 16, esp c - 20, esp c - 24}"
  shows "snd (switch_save (c, m)) a = m a"
  using assms by (simp add: switch_save_def push_def Let_def)

lemma switch_save_esp: "esp (fst (switch_save (c, m))) = esp c - 24"
  by (simp add: switch_save_def push_def Let_def)

subsection \<open>Properties of the switch\<close>

text \<open>
  A task that \<^verbatim>\<open>SchedInitStack\<close> has prepared and that is switched to for the first time
  starts at \<^verbatim>\<open>SchedExitStub\<close> with its entry point as the first argument, with the fake
  return address 0, zero registers and interrupts enabled.
\<close>

lemma switch_to_fresh:
  assumes "switch_frame (snd (switch_save (c, m))) newesp =
             switch_frame (snd (SchedInitStack stub entry stacktop m0)) newesp"
    and "newesp = fst (SchedInitStack stub entry stacktop m0)"
  shows "fst (snd (SchedSwitch newesp (c, m))) =
    \<lparr>edi = 0, esi = 0, ebx = 0, ebp = 0, esp = stacktop - 8, eflags = 0x202, eip = stub\<rparr>"
proof -
  obtain c' m' where cm: "switch_save (c, m) = (c', m')" by fastforce
  have "switch_frame m' newesp = [0, 0, 0, 0, 0x202, stub]"
    using assms cm by (simp add: SchedInitStack_esp SchedInitStack_frame)
  from switch_restore_frame [OF this, of c'] show ?thesis
    using assms(2) by (simp add: SchedSwitch_def Let_def cm SchedInitStack_esp)
qed

lemma switch_back:
  assumes "switch_frame (snd (switch_save (c2, m2))) sp = switch_frame (snd (switch_save (c, m))) sp"
    and "sp = fst (SchedSwitch newesp (c, m))"
  shows "fst (snd (SchedSwitch sp (c2, m2))) = c"
proof -
  have sp: "sp = esp c - 24"
    using assms(2) by (simp add: SchedSwitch_def Let_def switch_save_esp)
  obtain c' m' where cm: "switch_save (c2, m2) = (c', m')" by fastforce
  have "switch_frame m' sp = [edi c, esi c, ebx c, ebp c, eflags c, eip c]"
    using assms(1) cm by (simp add: sp switch_save_frame)
  from switch_restore_frame [OF this, of c'] show ?thesis
    by (simp add: SchedSwitch_def Let_def cm sp)
qed

end
