(* ===== verification/Sched_Queue.thy ===== *)
theory Sched_Queue
  imports Cpu
begin

text \<open>
  Task descriptors and the linked task queues of \<^verbatim>\<open>src/kernel/sched.c\<close> and
  \<^verbatim>\<open>src/include/novium/sched.h\<close>. Every \<^verbatim>\<open>Task *\<close> of the code is null or points into
  the array \<^verbatim>\<open>Tasks\<close>, so a pointer is \<open>nat option\<close>, an index into the table, with
  \<^const>\<open>None\<close> for null. A queue is the pointer to its first node; the nodes are linked
  through their \<open>Next\<close> field, so an operation works on the queue head and on the table.

  The relation \<open>task_list\<close> says that a queue head denotes a list of tasks. The interface of
  a queue is the locale \<open>task_queue\<close>: what adding and removing does to the denoted list, to
  the other queues and to the other fields. Its clients (the scheduler operations) use the
  locale's lemmas; it is interpreted on the code's \<open>SchedQueueAdd\<close> and
  \<open>SchedQueueRemove\<close>.
\<close>

subsection \<open>Task descriptors\<close>

definition SchedMaxTasks :: nat where
  "SchedMaxTasks = 32"

definition SchedNameLength :: nat where
  "SchedNameLength = 32"

datatype TaskState = TaskDead | TaskReady | TaskRunning | TaskBlocked

datatype SchedPolicy = SchedRoundRobin | SchedPriority

record Task =
  TaskId :: u32
  ParentId :: u32
  Eip :: u32
  Esp :: u32
  Ebp :: u32
  Priority :: u32
  TimeSlice :: u32
  TimeUsed :: u32
  Runtime :: u32
  Switches :: u32
  WakeTick :: u32
  State :: TaskState
  Name :: "u8 list"
  Next :: "nat option"

text \<open>A store through a task pointer.\<close>

definition upd_task :: "nat \<Rightarrow> (Task \<Rightarrow> Task) \<Rightarrow> Task list \<Rightarrow> Task list" where
  "upd_task i f ts = ts[i := f (ts ! i)]"

lemma length_upd_task [simp]: "length (upd_task i f ts) = length ts"
  by (simp add: upd_task_def)

lemma nth_upd_task [simp]:
  "j < length ts \<Longrightarrow> upd_task i f ts ! j = (if i = j then f (ts ! j) else ts ! j)"
  by (simp add: upd_task_def)

lemma nth_upd_task_other [simp]: "i \<noteq> j \<Longrightarrow> upd_task i f ts ! j = ts ! j"
  by (simp add: upd_task_def)

subsection \<open>Queue operations\<close>

text \<open>The loop of \<^verbatim>\<open>SchedQueueAdd\<close> that finds the last node.\<close>

partial_function (option) queue_tail :: "Task list \<Rightarrow> nat \<Rightarrow> nat option" where
  "queue_tail ts c = (case Next (ts ! c) of None \<Rightarrow> Some c | Some n \<Rightarrow> queue_tail ts n)"

definition SchedQueueAdd ::
  "nat option \<Rightarrow> nat \<Rightarrow> Task list \<Rightarrow> (nat option \<times> Task list) option" where
  "SchedQueueAdd queue i ts =
     (let ts = upd_task i (Next_update (\<lambda>_. None)) ts in
      case queue of
        None \<Rightarrow> Some (Some i, ts)
      | Some h \<Rightarrow>
          (case queue_tail ts h of
             None \<Rightarrow> None
           | Some c \<Rightarrow> Some (queue, upd_task c (Next_update (\<lambda>_. Some i)) ts)))"

text \<open>The loop of \<^verbatim>\<open>SchedQueueRemove\<close>, with its variables \<open>Current\<close> and \<open>Previous\<close>.\<close>

partial_function (option) queue_unlink ::
  "nat option \<Rightarrow> nat \<Rightarrow> nat option \<Rightarrow> nat option \<Rightarrow> Task list \<Rightarrow> (nat option \<times> Task list) option"
where
  "queue_unlink queue i current previous ts =
     (case current of
        None \<Rightarrow> Some (queue, ts)
      | Some c \<Rightarrow>
          if c = i then
            (let nxt = Next (ts ! c);
                 queue' = (case previous of None \<Rightarrow> nxt | Some p \<Rightarrow> queue);
                 ts' = (case previous of None \<Rightarrow> ts
                        | Some p \<Rightarrow> upd_task p (Next_update (\<lambda>_. nxt)) ts)
             in Some (queue', upd_task c (Next_update (\<lambda>_. None)) ts'))
          else queue_unlink queue i (Next (ts ! c)) (Some c) ts)"

definition SchedQueueRemove ::
  "nat option \<Rightarrow> nat option \<Rightarrow> Task list \<Rightarrow> (nat option \<times> Task list) option" where
  "SchedQueueRemove queue item ts =
     (case (queue, item) of
        (Some _, Some i) \<Rightarrow> queue_unlink queue i queue None ts
      | _ \<Rightarrow> Some (queue, ts))"

declare queue_tail.simps [code] queue_unlink.simps [code]

subsection \<open>The list a queue denotes\<close>

text \<open>A null-terminated path through the table that ends in \<open>q\<close> after the nodes \<open>xs\<close>.\<close>

fun task_path :: "Task list \<Rightarrow> nat option \<Rightarrow> nat list \<Rightarrow> nat option \<Rightarrow> bool" where
  "task_path ts p [] q \<longleftrightarrow> p = q"
| "task_path ts p (x # xs) q \<longleftrightarrow> p = Some x \<and> x < length ts \<and> task_path ts (Next (ts ! x)) xs q"

abbreviation task_list :: "Task list \<Rightarrow> nat option \<Rightarrow> nat list \<Rightarrow> bool" where
  "task_list ts p xs \<equiv> task_path ts p xs None"

lemma task_path_append:
  "task_path ts p (xs @ ys) q \<longleftrightarrow> (\<exists>r. task_path ts p xs r \<and> task_path ts r ys q)"
  by (induction xs arbitrary: p) auto

lemma task_path_bounds: "task_path ts p xs q \<Longrightarrow> x \<in> set xs \<Longrightarrow> x < length ts"
  by (induction xs arbitrary: p) auto

lemma task_path_cong:
  assumes "task_path ts p xs q" and "length ts' = length ts"
    and "\<And>x. x \<in> set xs \<Longrightarrow> Next (ts' ! x) = Next (ts ! x)"
  shows "task_path ts' p xs q"
  using assms by (induction xs arbitrary: p) auto

lemma task_path_upd:
  assumes "task_path ts p xs q" and "i \<notin> set xs"
  shows "task_path (upd_task i f ts) p xs q"
proof (rule task_path_cong [OF assms(1)])
  fix x
  assume "x \<in> set xs"
  with assms(2) have "i \<noteq> x" by blast
  then show "Next (upd_task i f ts ! x) = Next (ts ! x)" by simp
qed simp

lemma task_list_unique:
  "task_list ts p xs \<Longrightarrow> task_list ts p ys \<Longrightarrow> xs = ys"
proof (induction xs arbitrary: p ys)
  case Nil
  then show ?case by (cases ys) auto
next
  case (Cons x xs)
  then show ?case by (cases ys) auto
qed

lemma task_list_distinct: "task_list ts p xs \<Longrightarrow> distinct xs"
proof (induction xs arbitrary: p)
  case Nil
  then show ?case by simp
next
  case (Cons x xs)
  then have tl: "task_list ts (Next (ts ! x)) xs" by simp
  have "x \<notin> set xs"
  proof
    assume "x \<in> set xs"
    then obtain as bs where xs: "xs = as @ x # bs" by (meson split_list)
    with tl have "task_list ts (Next (ts ! x)) bs" by (auto simp: task_path_append)
    with tl have "xs = bs" by (rule task_list_unique)
    with xs show False by simp
  qed
  with Cons.IH [OF tl] show ?case by simp
qed

lemma task_list_None [simp]: "task_list ts None xs \<longleftrightarrow> xs = []"
  by (cases xs) auto

subsection \<open>The loops return on well-formed queues\<close>

lemma queue_tail_path:
  "task_list ts (Some c) xs \<Longrightarrow> queue_tail ts c = Some (last xs)"
proof (induction xs arbitrary: c)
  case Nil
  then show ?case by simp
next
  case (Cons x xs)
  then show ?case
    by (cases xs) (auto simp: queue_tail.simps [of ts x])
qed

lemma queue_unlink_absent:
  "task_list ts cur xs \<Longrightarrow> i \<notin> set xs \<Longrightarrow> queue_unlink q i cur prev ts = Some (q, ts)"
proof (induction xs arbitrary: cur prev)
  case Nil
  then show ?case by (simp add: queue_unlink.simps)
next
  case (Cons x xs)
  then show ?case by (simp add: queue_unlink.simps [of q i "Some x"])
qed

lemma queue_unlink_path:
  assumes "task_path ts cur ys (Some i)" and "i \<notin> set ys"
  shows "queue_unlink q i cur prev ts =
    queue_unlink q i (Some i) (if ys = [] then prev else Some (last ys)) ts"
  using assms
proof (induction ys arbitrary: cur prev)
  case Nil
  then show ?case by simp
next
  case (Cons y ys)
  have "queue_unlink q i cur prev ts = queue_unlink q i (Next (ts ! y)) (Some y) ts"
    using Cons.prems by (auto simp: queue_unlink.simps [of q i "Some y"])
  also have "\<dots> = queue_unlink q i (Some i) (if ys = [] then Some y else Some (last ys)) ts"
    using Cons.prems by (intro Cons.IH) auto
  finally show ?case by simp
qed

subsection \<open>The queue interface\<close>

text \<open>Only the link fields of the tasks in \<open>S\<close> differ.\<close>

definition links_only :: "nat set \<Rightarrow> Task list \<Rightarrow> Task list \<Rightarrow> bool" where
  "links_only S ts ts' \<longleftrightarrow> length ts' = length ts \<and>
     (\<forall>i < length ts. ts' ! i = (ts ! i)\<lparr>Next := Next (ts' ! i)\<rparr>) \<and>
     (\<forall>i < length ts. i \<notin> S \<longrightarrow> ts' ! i = ts ! i)"

lemma links_only_refl [simp]: "links_only S ts ts"
  by (simp add: links_only_def)

lemma links_only_length: "links_only S ts ts' \<Longrightarrow> length ts' = length ts"
  by (simp add: links_only_def)

lemma links_only_upd:
  "i \<in> S \<Longrightarrow> links_only S ts (upd_task i (Next_update f) ts)"
  by (auto simp: links_only_def)

lemma links_only_trans:
  assumes "links_only S ts ts'" and "links_only S ts' ts''"
  shows "links_only S ts ts''"
proof -
  have len: "length ts' = length ts" "length ts'' = length ts"
    using assms by (simp_all add: links_only_def)
  have "ts'' ! i = (ts ! i)\<lparr>Next := Next (ts'' ! i)\<rparr>" if "i < length ts" for i
  proof -
    have "ts' ! i = (ts ! i)\<lparr>Next := Next (ts' ! i)\<rparr>"
      and "ts'' ! i = (ts' ! i)\<lparr>Next := Next (ts'' ! i)\<rparr>"
      using assms that len by (simp_all add: links_only_def)
    then show ?thesis by (metis Task.update_convs(14) Task.surjective)
  qed
  then show ?thesis using assms len by (simp add: links_only_def)
qed

locale task_queue =
  fixes denotes :: "Task list \<Rightarrow> nat option \<Rightarrow> nat list \<Rightarrow> bool"
    and add :: "nat option \<Rightarrow> nat \<Rightarrow> Task list \<Rightarrow> (nat option \<times> Task list) option"
    and remove :: "nat option \<Rightarrow> nat option \<Rightarrow> Task list \<Rightarrow> (nat option \<times> Task list) option"
  assumes denotes_distinct: "denotes ts q xs \<Longrightarrow> distinct xs"
    and denotes_bounds: "denotes ts q xs \<Longrightarrow> set xs \<subseteq> {..<length ts}"
    and denotes_local:
      "denotes ts q xs \<Longrightarrow> links_only S ts ts' \<Longrightarrow> S \<inter> set xs = {} \<Longrightarrow> denotes ts' q xs"
    and add_law:
      "denotes ts q xs \<Longrightarrow> i < length ts \<Longrightarrow> i \<notin> set xs \<Longrightarrow>
        \<exists>q' ts'. add q i ts = Some (q', ts') \<and> denotes ts' q' (xs @ [i]) \<and>
          links_only (insert i (set xs)) ts ts'"
    and remove_law:
      "denotes ts q xs \<Longrightarrow>
        \<exists>q' ts'. remove q (Some i) ts = Some (q', ts') \<and> denotes ts' q' (remove1 i xs) \<and>
          links_only (set xs) ts ts'"
begin

text \<open>Adding and removing leave every other queue of the table as it is.\<close>

lemma add_others:
  assumes "denotes ts q xs" and "i < length ts" and "i \<notin> set xs"
  obtains q' ts' where "add q i ts = Some (q', ts')" and "denotes ts' q' (xs @ [i])"
    and "links_only (insert i (set xs)) ts ts'"
    and "\<And>p ys. denotes ts p ys \<Longrightarrow> i \<notin> set ys \<Longrightarrow> set ys \<inter> set xs = {} \<Longrightarrow> denotes ts' p ys"
proof -
  obtain q' ts' where *: "add q i ts = Some (q', ts')" "denotes ts' q' (xs @ [i])"
    "links_only (insert i (set xs)) ts ts'"
    using add_law [OF assms] by blast
  show thesis
  proof (rule that [OF *])
    fix p ys
    assume "denotes ts p ys" "i \<notin> set ys" "set ys \<inter> set xs = {}"
    then show "denotes ts' p ys"
      using denotes_local [OF _ *(3)] by (simp add: Int_commute)
  qed
qed

lemma remove_others:
  assumes "denotes ts q xs"
  obtains q' ts' where "remove q (Some i) ts = Some (q', ts')"
    and "denotes ts' q' (remove1 i xs)" and "links_only (set xs) ts ts'"
    and "\<And>p ys. denotes ts p ys \<Longrightarrow> set ys \<inter> set xs = {} \<Longrightarrow> denotes ts' p ys"
proof -
  obtain q' ts' where *: "remove q (Some i) ts = Some (q', ts')"
    "denotes ts' q' (remove1 i xs)" "links_only (set xs) ts ts'"
    using remove_law [OF assms] by blast
  show thesis
  proof (rule that [OF *])
    fix p ys
    assume "denotes ts p ys" "set ys \<inter> set xs = {}"
    then show "denotes ts' p ys"
      using denotes_local [OF _ *(3)] by (simp add: Int_commute)
  qed
qed

text \<open>A task that is added and then removed again is gone, whatever the queue held.\<close>

lemma add_remove:
  assumes "denotes ts q xs" and "i < length ts" and "i \<notin> set xs"
  shows "\<exists>q1 ts1 q2 ts2. add q i ts = Some (q1, ts1) \<and> remove q1 (Some i) ts1 = Some (q2, ts2) \<and>
    denotes ts2 q2 xs"
proof -
  obtain q1 ts1 where 1: "add q i ts = Some (q1, ts1)" "denotes ts1 q1 (xs @ [i])"
    using add_law [OF assms] by blast
  obtain q2 ts2 where 2: "remove q1 (Some i) ts1 = Some (q2, ts2)"
    "denotes ts2 q2 (remove1 i (xs @ [i]))"
    using remove_law [OF 1(2)] by blast
  moreover have "remove1 i (xs @ [i]) = xs" using assms(3) by (simp add: remove1_append)
  ultimately show ?thesis using 1 by auto
qed

end

subsection \<open>The code implements the interface\<close>

lemma task_list_local:
  assumes "task_list ts q xs" and "links_only S ts ts'" and "S \<inter> set xs = {}"
  shows "task_list ts' q xs"
proof (rule task_path_cong [OF assms(1)])
  show "length ts' = length ts" using assms(2) by (rule links_only_length)
  fix x
  assume x: "x \<in> set xs"
  with assms(1) have "x < length ts" by (auto dest: task_path_bounds)
  with x assms(2,3) have "ts' ! x = ts ! x" by (auto simp: links_only_def)
  then show "Next (ts' ! x) = Next (ts ! x)" by simp
qed

lemma SchedQueueAdd_law:
  assumes "task_list ts q xs" and "i < length ts" and "i \<notin> set xs"
  shows "\<exists>q' ts'. SchedQueueAdd q i ts = Some (q', ts') \<and> task_list ts' q' (xs @ [i]) \<and>
          links_only (insert i (set xs)) ts ts'"
proof -
  let ?t = "upd_task i (Next_update (\<lambda>_. None)) ts"
  have list: "task_list ?t q xs"
    using assms(1,3) by (rule task_path_upd)
  show ?thesis
  proof (cases q)
    case None
    with assms show ?thesis
      by (auto simp: SchedQueueAdd_def links_only_upd)
  next
    case (Some h)
    then obtain ys where xs: "xs = h # ys" using assms(1) by (cases xs) auto
    let ?l = "last xs"
    let ?t' = "upd_task ?l (Next_update (\<lambda>_. Some i)) ?t"
    have tail: "queue_tail ?t h = Some ?l"
      using list Some by (intro queue_tail_path) simp
    have l: "?l \<in> set xs" using xs by simp
    then have lb: "?l < length ts" "?l \<noteq> i" using assms task_path_bounds by auto
    have sp: "xs = butlast xs @ [?l]" using xs by (simp add: append_butlast_last_id)
    have "distinct xs" using task_list_distinct [OF assms(1)] .
    then have nl: "?l \<notin> set (butlast xs)"
      using sp by (metis distinct_append disjoint_iff list.set_intros(1))
    have "task_path ?t q (butlast xs) (Some ?l)"
      using list sp by (metis task_path.simps(2) task_path_append)
    then have "task_path ?t' q (butlast xs) (Some ?l)"
      using nl by (rule task_path_upd)
    moreover have "task_list ?t' (Some ?l) [?l, i]"
      using lb assms(2) by simp
    ultimately have "task_list ?t' q (butlast xs @ [?l, i])"
      by (auto simp only: task_path_append)
    then have "task_list ?t' q (xs @ [i])"
      using sp by (metis append.assoc append_Cons append_Nil)
    moreover have "links_only (insert i (set xs)) ts ?t'"
      by (rule links_only_trans [of _ _ ?t]) (simp_all add: links_only_upd l)
    moreover have "SchedQueueAdd q i ts = Some (q, ?t')"
      using Some tail by (simp add: SchedQueueAdd_def Let_def)
    ultimately show ?thesis by blast
  qed
qed

lemma SchedQueueRemove_unlink:
  assumes "task_list ts q (ys @ i # zs)" and "i \<notin> set ys"
  shows "SchedQueueRemove q (Some i) ts =
    (if ys = [] then Some (Next (ts ! i), upd_task i (Next_update (\<lambda>_. None)) ts)
     else Some (q, upd_task i (Next_update (\<lambda>_. None))
            (upd_task (last ys) (Next_update (\<lambda>_. Next (ts ! i))) ts)))"
proof -
  have path: "task_path ts q ys (Some i)" using assms(1) by (auto simp: task_path_append)
  then obtain h where q: "q = Some h" by (cases ys) auto
  have "SchedQueueRemove q (Some i) ts = queue_unlink q i q None ts"
    by (simp add: SchedQueueRemove_def q)
  also have "\<dots> = queue_unlink q i (Some i) (if ys = [] then None else Some (last ys)) ts"
    using path assms(2) by (rule queue_unlink_path)
  finally show ?thesis by (simp add: queue_unlink.simps [of q i "Some i"] Let_def)
qed

lemma SchedQueueRemove_law:
  assumes "task_list ts q xs"
  shows "\<exists>q' ts'. SchedQueueRemove q (Some i) ts = Some (q', ts') \<and>
          task_list ts' q' (remove1 i xs) \<and> links_only (set xs) ts ts'"
proof (cases "i \<in> set xs")
  case False
  then have "SchedQueueRemove q (Some i) ts = Some (q, ts)"
    using assms by (auto simp: SchedQueueRemove_def queue_unlink_absent split: option.splits)
  with False assms show ?thesis by (simp add: remove1_idem)
next
  case True
  then obtain ys zs where xs: "xs = ys @ i # zs" and iys: "i \<notin> set ys"
    by (meson split_list_first)
  have dist: "distinct xs" using assms by (rule task_list_distinct)
  have rem: "remove1 i xs = ys @ zs" using xs iys by (simp add: remove1_split)
  have zs: "task_list ts (Next (ts ! i)) zs" and ib: "i < length ts"
    and ys: "task_path ts q ys (Some i)"
    using assms xs by (auto simp: task_path_append)
  note unlink = SchedQueueRemove_unlink [OF assms [unfolded xs] iys]
  show ?thesis
  proof (cases "ys = []")
    case True
    let ?t = "upd_task i (Next_update (\<lambda>_. None)) ts"
    have "task_list ?t (Next (ts ! i)) zs"
      using zs by (rule task_path_upd) (use dist xs in auto)
    moreover have "links_only (set xs) ts ?t" using xs by (simp add: links_only_upd)
    ultimately show ?thesis using unlink True rem by simp
  next
    case False
    let ?p = "last ys"
    let ?t1 = "upd_task ?p (Next_update (\<lambda>_. Next (ts ! i))) ts"
    let ?t = "upd_task i (Next_update (\<lambda>_. None)) ?t1"
    have sp: "ys = butlast ys @ [?p]" using False by simp
    have p: "?p \<in> set ys" using False by simp
    have pn: "?p \<noteq> i" "?p \<notin> set zs" "i \<notin> set zs" using p iys dist xs by auto
    have pb: "?p < length ts" using ys p by (rule task_path_bounds)
    have "distinct ys" using dist xs by simp
    then have npb: "?p \<notin> set (butlast ys)"
      using sp by (metis distinct_append disjoint_iff list.set_intros(1))
    have "task_path ts q (butlast ys) (Some ?p)"
      using ys sp by (metis task_path.simps(2) task_path_append)
    then have path: "task_path ?t q (butlast ys) (Some ?p)"
      using npb iys by (auto intro!: task_path_upd dest: in_set_butlastD)
    have "task_list ?t (Next (ts ! i)) zs"
      using zs pn by (simp add: task_path_upd)
    then have "task_list ?t (Some ?p) (?p # zs)"
      using pn pb by simp
    with path have "task_list ?t q (butlast ys @ ?p # zs)"
      by (auto simp only: task_path_append)
    then have "task_list ?t q (ys @ zs)"
      using sp by (metis append.assoc append_Cons append_Nil)
    moreover have "links_only (set xs) ts ?t"
      by (rule links_only_trans [of _ _ ?t1]) (simp_all add: links_only_upd p xs)
    ultimately show ?thesis using unlink False rem by simp
  qed
qed

interpretation sq: task_queue "\<lambda>ts p xs. task_list ts p xs" SchedQueueAdd SchedQueueRemove
proof unfold_locales
  fix ts q xs
  assume list: "task_list ts q xs"
  show "distinct xs" using list by (rule task_list_distinct)
  show "set xs \<subseteq> {..<length ts}" using task_path_bounds [OF list] by blast
qed (fact task_list_local SchedQueueAdd_law SchedQueueRemove_law)+

end
