(* ===== verification/Sched.thy ===== *)
theory Sched
  imports Sched_Queue
begin

text \<open>
  The scheduler of \<^verbatim>\<open>src/kernel/sched.c\<close>, one definition per function, in the order of the
  file. The file's static variables are the record \<open>sched\<close>: \<open>sched_core\<close> holds the task
  table, the current task, the policy, the counters and the processor, and \<open>sched\<close> adds
  the three queue heads. (The split lets the abstract scheduler of \<^verbatim>\<open>Sched_Spec\<close> share
  the core.)

  A function that may switch tasks returns the machine at the moment the switch is done, and
  a flag: \<^const>\<open>True\<close> when another task now runs and the caller is suspended inside
  \<^verbatim>\<open>SchedSwitch\<close>, \<^const>\<open>False\<close> when the function returned to its caller. What a suspended
  function does after it is resumed is a definition of its own (\<open>SchedYield_resume\<close>,
  \<open>SchedBlockTask_resume\<close>, \<open>SchedSleepUntil_resume\<close>), which the function also runs itself
  when no switch happened. The outer option is \<^const>\<open>None\<close> when a queue walk never ends.
\<close>

record sched_core =
  Tasks :: "Task list"
  CurrentTask :: "nat option"
  CurrentPolicy :: SchedPolicy
  TaskCountValue :: u32
  NextTaskId :: u32
  SchedulerTicks :: u32
  ContextSwitches :: u32
  SchedulerLocked :: u32
  PreemptPending :: bool
  Machine :: "cpu \<times> memory"

record sched = sched_core +
  ReadyQueue :: "nat option"
  BlockedQueue :: "nat option"
  DeadQueue :: "nat option"

abbreviation task :: "'a sched_core_scheme \<Rightarrow> nat \<Rightarrow> Task" where
  "task s i \<equiv> Tasks s ! i"

definition set_task :: "nat \<Rightarrow> (Task \<Rightarrow> Task) \<Rightarrow> 'a sched_core_scheme \<Rightarrow> 'a sched_core_scheme" where
  "set_task i f s = s\<lparr>Tasks := upd_task i f (Tasks s)\<rparr>"

subsection \<open>Interrupt lock\<close>

definition SchedLockIrq :: "'a sched_core_scheme \<Rightarrow> bool \<times> 'a sched_core_scheme" where
  "SchedLockIrq s =
     (cpu_irqs_enabled (fst (Machine s)),
      s\<lparr>Machine := (cpu_disable_irqs (fst (Machine s)), snd (Machine s))\<rparr>)"

definition SchedUnlockIrq :: "bool \<Rightarrow> 'a sched_core_scheme \<Rightarrow> 'a sched_core_scheme" where
  "SchedUnlockIrq was_enabled s =
     (if was_enabled
      then s\<lparr>Machine := (cpu_enable_irqs (fst (Machine s)), snd (Machine s))\<rparr> else s)"

subsection \<open>Queues of the scheduler state\<close>

definition ready_add :: "nat \<Rightarrow> sched \<Rightarrow> sched option" where
  "ready_add i s =
     do { (q, ts) \<leftarrow> SchedQueueAdd (ReadyQueue s) i (Tasks s);
          Some (s\<lparr>ReadyQueue := q, Tasks := ts\<rparr>) }"

definition blocked_add :: "nat \<Rightarrow> sched \<Rightarrow> sched option" where
  "blocked_add i s =
     do { (q, ts) \<leftarrow> SchedQueueAdd (BlockedQueue s) i (Tasks s);
          Some (s\<lparr>BlockedQueue := q, Tasks := ts\<rparr>) }"

definition dead_add :: "nat \<Rightarrow> sched \<Rightarrow> sched option" where
  "dead_add i s =
     do { (q, ts) \<leftarrow> SchedQueueAdd (DeadQueue s) i (Tasks s);
          Some (s\<lparr>DeadQueue := q, Tasks := ts\<rparr>) }"

definition ready_remove :: "nat \<Rightarrow> sched \<Rightarrow> sched option" where
  "ready_remove i s =
     do { (q, ts) \<leftarrow> SchedQueueRemove (ReadyQueue s) (Some i) (Tasks s);
          Some (s\<lparr>ReadyQueue := q, Tasks := ts\<rparr>) }"

definition blocked_remove :: "nat \<Rightarrow> sched \<Rightarrow> sched option" where
  "blocked_remove i s =
     do { (q, ts) \<leftarrow> SchedQueueRemove (BlockedQueue s) (Some i) (Tasks s);
          Some (s\<lparr>BlockedQueue := q, Tasks := ts\<rparr>) }"

definition dead_remove :: "nat \<Rightarrow> sched \<Rightarrow> sched option" where
  "dead_remove i s =
     do { (q, ts) \<leftarrow> SchedQueueRemove (DeadQueue s) (Some i) (Tasks s);
          Some (s\<lparr>DeadQueue := q, Tasks := ts\<rparr>) }"

subsection \<open>Choosing the next task\<close>

partial_function (option) round_robin_walk ::
  "Task list \<Rightarrow> u32 \<Rightarrow> nat option \<Rightarrow> nat option option" where
  "round_robin_walk ts current_id p =
     (case p of
        None \<Rightarrow> Some None
      | Some i \<Rightarrow>
          if TaskId (ts ! i) > current_id then Some (Some i)
          else round_robin_walk ts current_id (Next (ts ! i)))"

definition SchedFindRoundRobin :: "sched \<Rightarrow> nat option option" where
  "SchedFindRoundRobin s =
     (case CurrentTask s of
        None \<Rightarrow> Some (ReadyQueue s)
      | Some c \<Rightarrow>
          do { found \<leftarrow> round_robin_walk (Tasks s) (TaskId (task s c)) (ReadyQueue s);
               Some (case found of None \<Rightarrow> ReadyQueue s | Some i \<Rightarrow> Some i) })"

partial_function (option) priority_walk ::
  "Task list \<Rightarrow> nat option \<Rightarrow> nat option \<Rightarrow> nat option option" where
  "priority_walk ts best p =
     (case p of
        None \<Rightarrow> Some best
      | Some i \<Rightarrow>
          priority_walk ts
            (case best of
               None \<Rightarrow> Some i
             | Some b \<Rightarrow> if Priority (ts ! i) > Priority (ts ! b) then Some i else best)
            (Next (ts ! i)))"

definition SchedFindPriority :: "sched \<Rightarrow> nat option option" where
  "SchedFindPriority s = priority_walk (Tasks s) None (ReadyQueue s)"

definition SchedFindNext :: "sched \<Rightarrow> nat option option" where
  "SchedFindNext s =
     (if CurrentPolicy s = SchedPriority then SchedFindPriority s else SchedFindRoundRobin s)"

declare round_robin_walk.simps [code] priority_walk.simps [code]

subsection \<open>Initialisation and creation\<close>

definition SchedResetTask :: "Task \<Rightarrow> Task" where
  "SchedResetTask t =
     t\<lparr>TaskId := 0, ParentId := 0, Eip := 0, Esp := 0, Ebp := 0, Priority := 1,
       TimeSlice := 10, TimeUsed := 0, Runtime := 0, Switches := 0, WakeTick := 0,
       State := TaskDead, Name := (Name t)[0 := 0], Next := None\<rparr>"

definition idle_name :: "u8 list \<Rightarrow> u8 list" where
  "idle_name n = n[0 := 73, 1 := 100, 2 := 108, 3 := 101, 4 := 0]"

definition SchedInit :: "sched \<Rightarrow> sched" where
  "SchedInit s =
     (let s = s\<lparr>ReadyQueue := None, BlockedQueue := None, DeadQueue := None,
                CurrentTask := None, TaskCountValue := 0, NextTaskId := 0, SchedulerTicks := 0,
                ContextSwitches := 0, SchedulerLocked := 0, PreemptPending := False\<rparr>;
          s = s\<lparr>Tasks := map SchedResetTask (Tasks s)\<rparr>;
          s = set_task 0 (\<lambda>t. t\<lparr>TaskId := NextTaskId s, ParentId := 0, Priority := 0,
                TimeSlice := 10, State := TaskRunning, Name := idle_name (Name t)\<rparr>) s;
          s = s\<lparr>NextTaskId := NextTaskId s + 1\<rparr>
      in s\<lparr>CurrentTask := Some 0, TaskCountValue := 1\<rparr>)"

text \<open>
  The copy of the name: the source is the C string's bytes; the byte past the last one reads
  as the terminator.
\<close>

function copy_name :: "nat \<Rightarrow> u8 list \<Rightarrow> u8 list \<Rightarrow> u8 list" where
  "copy_name k src dst =
     (if k < SchedNameLength - 1 \<and> k < length src \<and> src ! k \<noteq> 0
      then copy_name (Suc k) src (dst[k := src ! k])
      else dst[k := 0])"
  by pat_completeness auto
termination
  by (relation "measure (\<lambda>(k, src, dst). length src - k)") auto

declare copy_name.simps [simp del]

text \<open>
  \<^verbatim>\<open>SchedCreate\<close> after its search has found the free slot \<open>i\<close>, up to the last unlock. The
  parent is read after the slot got its identifier, as in the source.
\<close>

definition SchedCreate_slot :: "u32 \<Rightarrow> u8 list \<Rightarrow> u32 \<Rightarrow> u32 \<Rightarrow> nat \<Rightarrow> sched \<Rightarrow> sched option" where
  "SchedCreate_slot stub nm entry stacktop i s =
     do { s \<leftarrow> dead_remove i s;
          let s = (set_task i (\<lambda>t. t\<lparr>TaskId := NextTaskId s\<rparr>) s)\<lparr>NextTaskId := NextTaskId s + 1\<rparr>;
          let (sp, m) = SchedInitStack stub entry stacktop (snd (Machine s));
          let s = s\<lparr>Machine := (fst (Machine s), m)\<rparr>;
          let parent = (case CurrentTask s of None \<Rightarrow> 0 | Some c \<Rightarrow> TaskId (task s c));
          s \<leftarrow> ready_add i (set_task i (\<lambda>t. t\<lparr>ParentId := parent, Esp := sp, Eip := entry,
                 Ebp := sp, Priority := 1, TimeSlice := 10, TimeUsed := 0, Runtime := 0,
                 Switches := 0, State := TaskReady, Name := copy_name 0 nm (Name t)\<rparr>) s);
          Some (s\<lparr>TaskCountValue := TaskCountValue s + 1\<rparr>) }"

definition SchedCreate ::
  "u32 \<Rightarrow> u8 list option \<Rightarrow> u32 \<Rightarrow> u32 \<Rightarrow> sched \<Rightarrow> (nat option \<times> sched) option" where
  "SchedCreate stub name entry stacktop s =
     (case name of
        None \<Rightarrow> Some (None, s)
      | Some nm \<Rightarrow>
          if TaskCountValue s \<ge> of_nat SchedMaxTasks then Some (None, s)
          else
            (let (was_enabled, s) = SchedLockIrq s in
             case find (\<lambda>i. State (task s i) = TaskDead) [0..<SchedMaxTasks] of
               None \<Rightarrow> Some (None, SchedUnlockIrq was_enabled s)
             | Some i \<Rightarrow>
                 do { s \<leftarrow> SchedCreate_slot stub nm entry stacktop i s;
                      Some (Some i, SchedUnlockIrq was_enabled s) }))"

definition SchedCurrent :: "'a sched_core_scheme \<Rightarrow> nat option" where
  "SchedCurrent s = CurrentTask s"

definition SchedFind :: "u32 \<Rightarrow> 'a sched_core_scheme \<Rightarrow> nat option" where
  "SchedFind ident s =
     find (\<lambda>i. State (task s i) \<noteq> TaskDead \<and> TaskId (task s i) = ident) [0..<SchedMaxTasks]"

definition SchedTaskCount :: "'a sched_core_scheme \<Rightarrow> u32" where
  "SchedTaskCount s = TaskCountValue s"

subsection \<open>Switching tasks\<close>

text \<open>
  The call of \<^verbatim>\<open>SchedSwitch\<close>: the old stack pointer goes into the previous task, or into a
  scratch variable when there is none.
\<close>

definition switch_tasks :: "nat option \<Rightarrow> nat \<Rightarrow> 'a sched_core_scheme \<Rightarrow> 'a sched_core_scheme" where
  "switch_tasks prev next s =
     (let (oldesp, cm) = SchedSwitch (Esp (task s next)) (Machine s);
          s = s\<lparr>Machine := cm\<rparr>
      in case prev of None \<Rightarrow> s | Some p \<Rightarrow> set_task p (\<lambda>t. t\<lparr>Esp := oldesp\<rparr>) s)"

definition SchedYield :: "sched \<Rightarrow> (sched \<times> bool) option" where
  "SchedYield s =
     (let (was_enabled, s) = SchedLockIrq s in
      if SchedulerLocked s \<noteq> 0 then Some (SchedUnlockIrq was_enabled s, False)
      else
        do { found \<leftarrow> SchedFindNext s;
             (case found of
                None \<Rightarrow> Some (SchedUnlockIrq was_enabled s, False)
              | Some next \<Rightarrow>
                  if CurrentTask s = Some next
                  then Some (SchedUnlockIrq was_enabled s, False)
                  else
                    do { let prev = CurrentTask s;
                         s \<leftarrow> ready_remove next s;
                         s \<leftarrow> (case prev of
                                None \<Rightarrow> Some s
                              | Some p \<Rightarrow>
                                  if State (task s p) = TaskRunning
                                  then ready_add p (set_task p (\<lambda>t. t\<lparr>State := TaskReady\<rparr>) s)
                                  else Some s);
                         let s = set_task next (\<lambda>t. t\<lparr>State := TaskRunning, TimeUsed := 0,
                                   Switches := Switches t + 1\<rparr>) s;
                         let s = s\<lparr>CurrentTask := Some next,
                                   ContextSwitches := ContextSwitches s + 1\<rparr>;
                         Some (switch_tasks prev next s, True) }) })"

text \<open>What a task that was suspended in \<^verbatim>\<open>SchedYield\<close> does when it runs again.\<close>

definition SchedYield_resume :: "bool \<Rightarrow> sched \<Rightarrow> sched" where
  "SchedYield_resume was_enabled s = SchedUnlockIrq was_enabled s"

definition SchedTick :: "bool \<Rightarrow> 'a sched_core_scheme \<Rightarrow> 'a sched_core_scheme" where
  "SchedTick regs_nonnull s =
     (if \<not> regs_nonnull \<or> SchedulerLocked s \<noteq> 0 then s
      else
        (let s = s\<lparr>SchedulerTicks := SchedulerTicks s + 1\<rparr> in
         case CurrentTask s of
           None \<Rightarrow> s
         | Some c \<Rightarrow>
             (let s = set_task c (\<lambda>t. t\<lparr>Runtime := Runtime t + 1, TimeUsed := TimeUsed t + 1\<rparr>) s in
              if TimeUsed (task s c) \<ge> TimeSlice (task s c)
              then (set_task c (\<lambda>t. t\<lparr>TimeUsed := 0\<rparr>) s)\<lparr>PreemptPending := True\<rparr>
              else s)))"

definition SchedPreempt :: "sched \<Rightarrow> (sched \<times> bool) option" where
  "SchedPreempt s =
     (if \<not> PreemptPending s then Some (s, False)
      else if SchedulerLocked s \<noteq> 0 then Some (s, False)
      else SchedYield (s\<lparr>PreemptPending := False\<rparr>))"

subsection \<open>Blocking and waking\<close>

text \<open>The end of \<^verbatim>\<open>SchedBlockTask\<close> for the calling task, after its \<^verbatim>\<open>SchedYield\<close> returns.\<close>

definition SchedBlockTask_resume :: "nat \<Rightarrow> sched \<Rightarrow> sched option" where
  "SchedBlockTask_resume i s =
     (let (was_enabled, s) = SchedLockIrq s in
      if State (task s i) = TaskBlocked
      then do { s \<leftarrow> blocked_remove i s;
                Some (SchedUnlockIrq was_enabled (set_task i (\<lambda>t. t\<lparr>State := TaskRunning\<rparr>) s)) }
      else Some (SchedUnlockIrq was_enabled s))"

definition SchedBlockTask :: "u32 \<Rightarrow> sched \<Rightarrow> (sched \<times> bool) option" where
  "SchedBlockTask ident s =
     (let (was_enabled, s) = SchedLockIrq s in
      case SchedFind ident s of
        None \<Rightarrow> Some (SchedUnlockIrq was_enabled s, False)
      | Some i \<Rightarrow>
          if State (task s i) = TaskDead \<or> TaskId (task s i) = 0 \<or> State (task s i) = TaskBlocked
          then Some (SchedUnlockIrq was_enabled s, False)
          else if CurrentTask s = Some i then
            do { s \<leftarrow> ready_remove i s;
                 s \<leftarrow> blocked_add i (set_task i (\<lambda>t. t\<lparr>State := TaskBlocked\<rparr>) s);
                 (s, switched) \<leftarrow> SchedYield (SchedUnlockIrq was_enabled s);
                 if switched then Some (s, True)
                 else do { s \<leftarrow> SchedBlockTask_resume i s; Some (s, False) } }
          else
            do { s \<leftarrow> (if State (task s i) = TaskReady then ready_remove i s else Some s);
                 s \<leftarrow> blocked_add i (set_task i (\<lambda>t. t\<lparr>State := TaskBlocked\<rparr>) s);
                 Some (SchedUnlockIrq was_enabled s, False) })"

definition SchedBlock :: "sched \<Rightarrow> (sched \<times> bool) option" where
  "SchedBlock s =
     (case CurrentTask s of
        None \<Rightarrow> Some (s, False)
      | Some c \<Rightarrow>
          if TaskId (task s c) = 0 then Some (s, False)
          else SchedBlockTask (TaskId (task s c)) s)"

definition SchedUnblock :: "nat option \<Rightarrow> sched \<Rightarrow> sched option" where
  "SchedUnblock item s =
     (case item of
        None \<Rightarrow> Some s
      | Some i \<Rightarrow>
          if State (task s i) \<noteq> TaskBlocked then Some s
          else
            (let (was_enabled, s) = SchedLockIrq s in
             do { s \<leftarrow> blocked_remove i s;
                  s \<leftarrow> ready_add i (set_task i (\<lambda>t. t\<lparr>State := TaskReady\<rparr>) s);
                  Some (SchedUnlockIrq was_enabled s) }))"

definition SchedWakeTask :: "u32 \<Rightarrow> sched \<Rightarrow> sched option" where
  "SchedWakeTask ident s =
     (case SchedFind ident s of None \<Rightarrow> Some s | Some i \<Rightarrow> SchedUnblock (Some i) s)"

definition SchedSleepUntil_resume :: "nat \<Rightarrow> sched \<Rightarrow> sched" where
  "SchedSleepUntil_resume i s = set_task i (\<lambda>t. t\<lparr>WakeTick := 0\<rparr>) s"

definition SchedSleepUntil :: "u32 \<Rightarrow> sched \<Rightarrow> (sched \<times> bool) option" where
  "SchedSleepUntil wake_tick s =
     (case CurrentTask s of
        None \<Rightarrow> Some (s, False)
      | Some i \<Rightarrow>
          if TaskId (task s i) = 0 then Some (s, False)
          else
            do { let s = set_task i (\<lambda>t. t\<lparr>WakeTick := wake_tick\<rparr>) s;
                 (s, switched) \<leftarrow> SchedBlockTask (TaskId (task s i)) s;
                 if switched then Some (s, True)
                 else Some (SchedSleepUntil_resume i s, False) })"

text \<open>The deadline test: a signed difference, so that it works across a wrap of the tick.\<close>

definition expired :: "u32 \<Rightarrow> Task \<Rightarrow> bool" where
  "expired now t \<longleftrightarrow> WakeTick t \<noteq> 0 \<and> 0 \<le> sint (now - WakeTick t)"

partial_function (option) wake_walk :: "u32 \<Rightarrow> nat option \<Rightarrow> u32 \<Rightarrow> sched \<Rightarrow> (u32 \<times> sched) option" where
  "wake_walk now p woken s =
     (case p of
        None \<Rightarrow> Some (woken, s)
      | Some i \<Rightarrow>
          (let next = Next (task s i) in
           if expired now (task s i)
           then do { let s = set_task i (\<lambda>t. t\<lparr>WakeTick := 0\<rparr>) s;
                     s \<leftarrow> blocked_remove i s;
                     s \<leftarrow> ready_add i (set_task i (\<lambda>t. t\<lparr>State := TaskReady\<rparr>) s);
                     wake_walk now next (woken + 1) s }
           else wake_walk now next woken s))"

declare wake_walk.simps [code]

definition SchedWakeExpired :: "u32 \<Rightarrow> sched \<Rightarrow> (u32 \<times> sched) option" where
  "SchedWakeExpired now s =
     (let (was_enabled, s) = SchedLockIrq s in
      do { (woken, s) \<leftarrow> wake_walk now (BlockedQueue s) 0 s;
           Some (woken, SchedUnlockIrq was_enabled s) })"

partial_function (option) runnable_walk :: "Task list \<Rightarrow> nat option \<Rightarrow> nat option \<Rightarrow> bool option" where
  "runnable_walk ts current p =
     (case p of
        None \<Rightarrow> Some False
      | Some i \<Rightarrow> if current \<noteq> Some i then Some True else runnable_walk ts current (Next (ts ! i)))"

declare runnable_walk.simps [code]

definition SchedHasRunnable :: "sched \<Rightarrow> (bool \<times> sched) option" where
  "SchedHasRunnable s =
     (let (was_enabled, s) = SchedLockIrq s in
      do { r \<leftarrow> runnable_walk (Tasks s) (CurrentTask s) (ReadyQueue s);
           Some (r, SchedUnlockIrq was_enabled s) })"

subsection \<open>Ending tasks\<close>

text \<open>The common middle part of \<^verbatim>\<open>SchedExit\<close> and \<^verbatim>\<open>SchedKill\<close>.\<close>

definition bury :: "nat \<Rightarrow> sched \<Rightarrow> sched option" where
  "bury i s =
     do { s \<leftarrow> ready_remove i s;
          s \<leftarrow> blocked_remove i s;
          s \<leftarrow> dead_add i (set_task i SchedResetTask s);
          Some (if TaskCountValue s > 0
                then s\<lparr>TaskCountValue := TaskCountValue s - 1\<rparr> else s) }"

definition SchedExit :: "sched \<Rightarrow> (sched \<times> bool) option" where
  "SchedExit s =
     (case CurrentTask s of
        None \<Rightarrow> Some (s, False)
      | Some i \<Rightarrow>
          if TaskId (task s i) = 0 then Some (s, False)
          else
            (let (was_enabled, s) = SchedLockIrq s in
             do { s \<leftarrow> bury i s;
                  let s = SchedUnlockIrq was_enabled (s\<lparr>CurrentTask := None\<rparr>);
                  (s, switched) \<leftarrow> SchedYield s;
                  if switched then Some (s, True)
                  else Some (if CurrentTask s = None
                             then set_task 0 (\<lambda>t. t\<lparr>State := TaskRunning\<rparr>) (s\<lparr>CurrentTask := Some 0\<rparr>)
                             else s, False) }))"

text \<open>
  What a new task runs first: its entry function, here an argument that gives the state in which the function returns, if
  it does.
\<close>

definition SchedExitStub :: "(sched \<Rightarrow> sched option) \<Rightarrow> sched \<Rightarrow> (sched \<times> bool) option" where
  "SchedExitStub Entry s =
     do { let s = s\<lparr>Machine := (cpu_enable_irqs (fst (Machine s)), snd (Machine s))\<rparr>;
          s \<leftarrow> Entry s;
          SchedExit s }"

definition SchedKill :: "u32 \<Rightarrow> sched \<Rightarrow> (sched \<times> bool) option" where
  "SchedKill ident s =
     (if ident = 0 then Some (s, False)
      else if (case CurrentTask s of None \<Rightarrow> False | Some c \<Rightarrow> TaskId (task s c) = ident)
      then SchedExit s
      else
        (let (was_enabled, s) = SchedLockIrq s in
         case SchedFind ident s of
           None \<Rightarrow> Some (SchedUnlockIrq was_enabled s, False)
         | Some i \<Rightarrow>
             if TaskId (task s i) = 0 then Some (SchedUnlockIrq was_enabled s, False)
             else do { s \<leftarrow> bury i s; Some (SchedUnlockIrq was_enabled s, False) }))"

subsection \<open>Policy, priorities, statistics, lock\<close>

text \<open>The argument is the C value of the enumeration, which may be neither policy.\<close>

definition SchedSetPolicy :: "u32 \<Rightarrow> 'a sched_core_scheme \<Rightarrow> 'a sched_core_scheme" where
  "SchedSetPolicy policy s =
     (if policy \<noteq> 0 \<and> policy \<noteq> 1 then s
      else s\<lparr>CurrentPolicy := (if policy = 0 then SchedRoundRobin else SchedPriority)\<rparr>)"

definition SchedGetPolicy :: "'a sched_core_scheme \<Rightarrow> SchedPolicy" where
  "SchedGetPolicy s = CurrentPolicy s"

definition SchedSetPriority :: "nat option \<Rightarrow> u32 \<Rightarrow> 'a sched_core_scheme \<Rightarrow> 'a sched_core_scheme" where
  "SchedSetPriority item priority s =
     (case item of
        None \<Rightarrow> s
      | Some i \<Rightarrow>
          if State (task s i) = TaskDead then s
          else set_task i (\<lambda>t. t\<lparr>Priority := (if priority > 255 then 255 else priority)\<rparr>) s)"

definition SchedGetPriority :: "nat option \<Rightarrow> 'a sched_core_scheme \<Rightarrow> u32" where
  "SchedGetPriority item s = (case item of None \<Rightarrow> 0 | Some i \<Rightarrow> Priority (task s i))"

record SchedStats =
  TotalTasks :: u32
  RunningTasks :: u32
  ReadyTasks :: u32
  BlockedTasks :: u32
  DeadTasks :: u32
  StatTicks :: u32
  StatSwitches :: u32

definition count_state :: "Task \<Rightarrow> SchedStats \<Rightarrow> SchedStats" where
  "count_state t st =
     (case State t of
        TaskRunning \<Rightarrow> st\<lparr>RunningTasks := RunningTasks st + 1\<rparr>
      | TaskReady \<Rightarrow> st\<lparr>ReadyTasks := ReadyTasks st + 1\<rparr>
      | TaskBlocked \<Rightarrow> st\<lparr>BlockedTasks := BlockedTasks st + 1\<rparr>
      | TaskDead \<Rightarrow> st\<lparr>DeadTasks := DeadTasks st + 1\<rparr>)"

definition SchedGetStats ::
  "bool \<Rightarrow> 'a sched_core_scheme \<Rightarrow> SchedStats option \<times> 'a sched_core_scheme" where
  "SchedGetStats stats_nonnull s =
     (if \<not> stats_nonnull then (None, s)
      else
        (let (was_enabled, s) = SchedLockIrq s;
             st = fold (\<lambda>i. count_state (task s i)) [0..<SchedMaxTasks]
               \<lparr>TotalTasks = TaskCountValue s, RunningTasks = 0, ReadyTasks = 0,
                BlockedTasks = 0, DeadTasks = 0, StatTicks = SchedulerTicks s,
                StatSwitches = ContextSwitches s\<rparr>
         in (Some st, SchedUnlockIrq was_enabled s)))"

definition SchedLock :: "'a sched_core_scheme \<Rightarrow> 'a sched_core_scheme" where
  "SchedLock s = s\<lparr>SchedulerLocked := SchedulerLocked s + 1\<rparr>"

definition SchedUnlock :: "'a sched_core_scheme \<Rightarrow> 'a sched_core_scheme" where
  "SchedUnlock s =
     (if SchedulerLocked s > 0 then s\<lparr>SchedulerLocked := SchedulerLocked s - 1\<rparr> else s)"

end
