(* ===== verification/Sched_Spec.thy ===== *)
theory Sched_Spec
  imports Sched
begin

text \<open>
  The abstract scheduler: what \<^verbatim>\<open>src/kernel/sched.c\<close> promises, without pointers, stacks or
  interrupt flags. The three queues are lists of task indices, the task table has its link
  and stack-pointer fields erased, and every operation is a total function. The invariant
  \<open>ainv\<close> says that the ready and the blocked list hold exactly the tasks in that state, that
  no task but the current one is running, that task 0 is the idle task and is never dead or
  blocked, that live tasks have distinct identifiers below the next one, and that the task
  counter counts the live tasks. Every abstract operation keeps it.
\<close>

record aspec =
  tab :: "Task list"
  cur :: "nat option"
  pol :: SchedPolicy
  cnt :: u32
  nid :: u32
  ticks :: u32
  sws :: u32
  lck :: u32
  pend :: bool
  rq :: "nat list"
  bq :: "nat list"
  dq :: "nat list"

definition aset :: "nat \<Rightarrow> (Task \<Rightarrow> Task) \<Rightarrow> aspec \<Rightarrow> aspec" where
  "aset i f a = a\<lparr>tab := upd_task i f (tab a)\<rparr>"

lemma aset_simps [simp]:
  "tab (aset i f a) = upd_task i f (tab a)" "cur (aset i f a) = cur a"
  "pol (aset i f a) = pol a" "cnt (aset i f a) = cnt a" "nid (aset i f a) = nid a"
  "ticks (aset i f a) = ticks a" "sws (aset i f a) = sws a" "lck (aset i f a) = lck a"
  "pend (aset i f a) = pend a" "rq (aset i f a) = rq a" "bq (aset i f a) = bq a"
  "dq (aset i f a) = dq a"
  by (simp_all add: aset_def)

lemma aset_commute [simp]:
  "aset i f (a\<lparr>rq := xs\<rparr>) = (aset i f a)\<lparr>rq := xs\<rparr>"
  "aset i f (a\<lparr>bq := xs\<rparr>) = (aset i f a)\<lparr>bq := xs\<rparr>"
  "aset i f (a\<lparr>dq := xs\<rparr>) = (aset i f a)\<lparr>dq := xs\<rparr>"
  "aset i f (a\<lparr>cur := c\<rparr>) = (aset i f a)\<lparr>cur := c\<rparr>"
  "aset i f (a\<lparr>nid := k\<rparr>) = (aset i f a)\<lparr>nid := k\<rparr>"
  by (simp_all add: aset_def)

subsection \<open>Operations\<close>

definition head_option :: "'a list \<Rightarrow> 'a option" where
  "head_option xs = (case xs of [] \<Rightarrow> None | x # _ \<Rightarrow> Some x)"

definition pick_round_robin :: "aspec \<Rightarrow> nat option" where
  "pick_round_robin a =
     (case cur a of
        None \<Rightarrow> head_option (rq a)
      | Some c \<Rightarrow>
          (case find (\<lambda>i. TaskId (tab a ! i) > TaskId (tab a ! c)) (rq a) of
             None \<Rightarrow> head_option (rq a)
           | Some i \<Rightarrow> Some i))"

definition pick_priority :: "aspec \<Rightarrow> nat option" where
  "pick_priority a =
     (case rq a of
        [] \<Rightarrow> None
      | x # xs \<Rightarrow>
          Some (fold (\<lambda>i b. if Priority (tab a ! i) > Priority (tab a ! b) then i else b) xs x))"

definition apick :: "aspec \<Rightarrow> nat option" where
  "apick a = (if pol a = SchedPriority then pick_priority a else pick_round_robin a)"

definition arequeue :: "aspec \<Rightarrow> aspec" where
  "arequeue a =
     (case cur a of
        None \<Rightarrow> a
      | Some p \<Rightarrow>
          if State (tab a ! p) = TaskRunning
          then (aset p (\<lambda>t. t\<lparr>State := TaskReady\<rparr>) a)\<lparr>rq := rq a @ [p]\<rparr> else a)"

definition adispatch :: "nat \<Rightarrow> aspec \<Rightarrow> aspec" where
  "adispatch n a =
     (aset n (\<lambda>t. t\<lparr>State := TaskRunning, TimeUsed := 0, Switches := Switches t + 1\<rparr>) a)
       \<lparr>cur := Some n, sws := sws a + 1\<rparr>"

definition ayield :: "aspec \<Rightarrow> aspec \<times> bool" where
  "ayield a =
     (if lck a \<noteq> 0 then (a, False)
      else
        (case apick a of
           None \<Rightarrow> (a, False)
         | Some n \<Rightarrow>
             if cur a = Some n then (a, False)
             else (adispatch n (arequeue (a\<lparr>rq := remove1 n (rq a)\<rparr>)), True)))"

definition ablock :: "nat \<Rightarrow> aspec \<Rightarrow> aspec" where
  "ablock i a =
     (aset i (\<lambda>t. t\<lparr>State := TaskBlocked\<rparr>) a)\<lparr>rq := remove1 i (rq a), bq := bq a @ [i]\<rparr>"

definition aunblock :: "nat \<Rightarrow> aspec \<Rightarrow> aspec" where
  "aunblock i a =
     (aset i (\<lambda>t. t\<lparr>State := TaskReady\<rparr>) a)\<lparr>rq := rq a @ [i], bq := remove1 i (bq a)\<rparr>"

definition aundo_block :: "nat \<Rightarrow> aspec \<Rightarrow> aspec" where
  "aundo_block i a = (aset i (\<lambda>t. t\<lparr>State := TaskRunning\<rparr>) a)\<lparr>bq := remove1 i (bq a)\<rparr>"

definition afind :: "u32 \<Rightarrow> aspec \<Rightarrow> nat option" where
  "afind ident a =
     find (\<lambda>i. State (tab a ! i) \<noteq> TaskDead \<and> TaskId (tab a ! i) = ident) [0..<SchedMaxTasks]"

definition ablock_task :: "u32 \<Rightarrow> aspec \<Rightarrow> aspec \<times> bool" where
  "ablock_task ident a =
     (case afind ident a of
        None \<Rightarrow> (a, False)
      | Some i \<Rightarrow>
          if TaskId (tab a ! i) = 0 \<or> State (tab a ! i) = TaskBlocked then (a, False)
          else if cur a = Some i then
            (case ayield (ablock i a) of
               (a', True) \<Rightarrow> (a', True)
             | (a', False) \<Rightarrow> (aundo_block i a', False))
          else (ablock i a, False))"

definition awake_task :: "u32 \<Rightarrow> aspec \<Rightarrow> aspec" where
  "awake_task ident a =
     (case afind ident a of
        None \<Rightarrow> a
      | Some i \<Rightarrow> if State (tab a ! i) = TaskBlocked then aunblock i a else a)"

definition awake_one :: "nat \<Rightarrow> aspec \<Rightarrow> aspec" where
  "awake_one i a = aunblock i (aset i (\<lambda>t. t\<lparr>WakeTick := 0\<rparr>) a)"

definition awake_expired :: "u32 \<Rightarrow> aspec \<Rightarrow> aspec" where
  "awake_expired now a = fold awake_one (filter (\<lambda>i. expired now (tab a ! i)) (bq a)) a"

definition abury :: "nat \<Rightarrow> aspec \<Rightarrow> aspec" where
  "abury i a =
     (aset i SchedResetTask a)
       \<lparr>rq := remove1 i (rq a), bq := remove1 i (bq a), dq := dq a @ [i],
        cnt := (if cnt a > 0 then cnt a - 1 else cnt a)\<rparr>"

definition aexit :: "aspec \<Rightarrow> aspec \<times> bool" where
  "aexit a =
     (case cur a of
        None \<Rightarrow> (a, False)
      | Some i \<Rightarrow>
          if TaskId (tab a ! i) = 0 then (a, False)
          else
            (case ayield ((abury i a)\<lparr>cur := None\<rparr>) of
               (a', True) \<Rightarrow> (a', True)
             | (a', False) \<Rightarrow>
                 (if cur a' = None
                  then aset 0 (\<lambda>t. t\<lparr>State := TaskRunning\<rparr>) (a'\<lparr>cur := Some 0\<rparr>) else a', False)))"

definition akill :: "u32 \<Rightarrow> aspec \<Rightarrow> aspec \<times> bool" where
  "akill ident a =
     (if ident = 0 then (a, False)
      else if (case cur a of None \<Rightarrow> False | Some c \<Rightarrow> TaskId (tab a ! c) = ident) then aexit a
      else
        (case afind ident a of
           None \<Rightarrow> (a, False)
         | Some i \<Rightarrow> if TaskId (tab a ! i) = 0 then (a, False) else (abury i a, False)))"

definition acreate_at :: "nat \<Rightarrow> u8 list \<Rightarrow> u32 \<Rightarrow> u32 \<Rightarrow> aspec \<Rightarrow> aspec" where
  "acreate_at i nm entry stacktop a =
     (aset i (\<lambda>t. t\<lparr>TaskId := nid a,
          ParentId := (case cur a of None \<Rightarrow> 0 | Some c \<Rightarrow> TaskId (tab a ! c)),
          Eip := entry, Ebp := stacktop - 32, Priority := 1, TimeSlice := 10, TimeUsed := 0,
          Runtime := 0, Switches := 0, State := TaskReady, Name := copy_name 0 nm (Name t)\<rparr>) a)
       \<lparr>dq := remove1 i (dq a), rq := rq a @ [i], nid := nid a + 1, cnt := cnt a + 1\<rparr>"

definition acreate :: "u8 list \<Rightarrow> u32 \<Rightarrow> u32 \<Rightarrow> aspec \<Rightarrow> nat option \<times> aspec" where
  "acreate nm entry stacktop a =
     (if cnt a \<ge> of_nat SchedMaxTasks then (None, a)
      else
        (case find (\<lambda>i. State (tab a ! i) = TaskDead) [0..<SchedMaxTasks] of
           None \<Rightarrow> (None, a)
         | Some i \<Rightarrow> (Some i, acreate_at i nm entry stacktop a)))"

subsection \<open>Invariant\<close>

definition live :: "aspec \<Rightarrow> nat \<Rightarrow> bool" where
  "live a i \<longleftrightarrow> i < SchedMaxTasks \<and> State (tab a ! i) \<noteq> TaskDead"

definition queues_ok :: "aspec \<Rightarrow> bool" where
  "queues_ok a \<longleftrightarrow> length (tab a) = SchedMaxTasks \<and>
     distinct (rq a) \<and> distinct (bq a) \<and> distinct (dq a) \<and>
     set (rq a) = {i. i < SchedMaxTasks \<and> State (tab a ! i) = TaskReady} \<and>
     set (bq a) = {i. i < SchedMaxTasks \<and> State (tab a ! i) = TaskBlocked} \<and>
     set (dq a) \<subseteq> {i. i < SchedMaxTasks \<and> State (tab a ! i) = TaskDead}"

definition current_ok :: "aspec \<Rightarrow> bool" where
  "current_ok a \<longleftrightarrow>
     (\<forall>i < SchedMaxTasks. State (tab a ! i) = TaskRunning \<longrightarrow> cur a = Some i) \<and>
     (\<forall>c. cur a = Some c \<longrightarrow> live a c)"

definition ids_ok :: "aspec \<Rightarrow> bool" where
  "ids_ok a \<longleftrightarrow> TaskId (tab a ! 0) = 0 \<and> State (tab a ! 0) \<in> {TaskReady, TaskRunning} \<and>
     (\<forall>i. live a i \<longrightarrow> TaskId (tab a ! i) < nid a) \<and>
     (\<forall>i j. live a i \<longrightarrow> live a j \<longrightarrow> TaskId (tab a ! i) = TaskId (tab a ! j) \<longrightarrow> i = j)"

definition count_ok :: "aspec \<Rightarrow> bool" where
  "count_ok a \<longleftrightarrow> unat (cnt a) = card {i. live a i}"

definition ainv :: "aspec \<Rightarrow> bool" where
  "ainv a \<longleftrightarrow> queues_ok a \<and> current_ok a \<and> ids_ok a \<and> count_ok a"

lemma field_if [simp]:
  "State (if b then t else u) = (if b then State t else State u)"
  "TaskId (if b then t else u) = (if b then TaskId t else TaskId u)"
  by simp_all

named_theorems aops \<open>definitions of the abstract queue moves\<close>

lemmas [aops] = ablock_def aunblock_def aundo_block_def abury_def adispatch_def arequeue_def
  awake_one_def acreate_at_def

lemma SchedMaxTasks_pos [simp]: "0 < SchedMaxTasks"
  by (simp add: SchedMaxTasks_def)

lemma ainvD:
  assumes "ainv a"
  shows "queues_ok a" "current_ok a" "ids_ok a" "count_ok a"
  using assms by (simp_all add: ainv_def)

lemma queues_okD:
  assumes "queues_ok a"
  shows "length (tab a) = SchedMaxTasks" "distinct (rq a)" "distinct (bq a)" "distinct (dq a)"
    and "i \<in> set (rq a) \<longleftrightarrow> i < SchedMaxTasks \<and> State (tab a ! i) = TaskReady"
    and "i \<in> set (bq a) \<longleftrightarrow> i < SchedMaxTasks \<and> State (tab a ! i) = TaskBlocked"
    and "i \<in> set (dq a) \<Longrightarrow> i < SchedMaxTasks \<and> State (tab a ! i) = TaskDead"
  using assms by (auto simp: queues_ok_def)

lemma distinct_queues: "queues_ok a \<Longrightarrow> distinct (rq a @ bq a @ dq a)"
  by (auto simp: queues_ok_def)

lemma running_not_queued:
  "queues_ok a \<Longrightarrow> State (tab a ! c) = TaskRunning \<Longrightarrow> c \<notin> set (rq a @ bq a @ dq a)"
  by (auto simp: queues_ok_def)

text \<open>An operation that neither creates nor ends a task keeps identifiers and the count.\<close>

lemma ids_count_frame:
  assumes "ids_ok a" and "count_ok a"
    and "\<And>i. live a' i \<longleftrightarrow> live a i"
    and "\<And>i. live a i \<Longrightarrow> TaskId (tab a' ! i) = TaskId (tab a ! i)"
    and "nid a' = nid a" and "cnt a' = cnt a" and "State (tab a' ! 0) \<in> {TaskReady, TaskRunning}"
  shows "ids_ok a'" and "count_ok a'"
proof -
  have "live a 0" using assms(1) by (auto simp: ids_ok_def live_def)
  then have "TaskId (tab a' ! 0) = 0" using assms(1,4) by (simp add: ids_ok_def)
  then show "ids_ok a'" using assms by (simp add: ids_ok_def)
  show "count_ok a'" using assms by (simp add: count_ok_def)
qed

lemma idle_live: "ids_ok a \<Longrightarrow> live a 0"
  by (auto simp: ids_ok_def live_def)

text \<open>The idle task is not the only one with identifier 0 unless it is the task itself.\<close>

lemma zero_id_idle: "ids_ok a \<Longrightarrow> live a i \<Longrightarrow> TaskId (tab a ! i) = 0 \<longleftrightarrow> i = 0"
  using idle_live by (fastforce simp: ids_ok_def)

subsection \<open>Choosing a task\<close>

lemma fold_pick_in:
  "fold (\<lambda>i b. if f i > (f b :: 'b::linorder) then i else b) xs x \<in> insert x (set xs)"
  by (induction xs arbitrary: x) (simp, fastforce)

lemma fold_pick_max:
  "y \<in> insert x (set xs) \<Longrightarrow>
     f y \<le> f (fold (\<lambda>i b. if f i > (f b :: 'b::linorder) then i else b) xs x)"
proof (induction xs arbitrary: x y)
  case Nil
  then show ?case by simp
next
  case (Cons z zs)
  let ?x = "if f z > f x then z else x"
  have "f x \<le> f ?x" "f z \<le> f ?x" by auto
  moreover have "f ?x \<le> f (fold (\<lambda>i b. if f i > f b then i else b) zs ?x)"
    by (rule Cons.IH) simp
  ultimately show ?case using Cons by (auto intro: order_trans)
qed

lemma apick_member: "apick a = Some n \<Longrightarrow> n \<in> set (rq a)"
proof -
  have "pick_priority a = Some n \<Longrightarrow> n \<in> set (rq a)"
    using fold_pick_in [of "\<lambda>i. Priority (tab a ! i)"]
    by (auto simp: pick_priority_def split: list.splits)
  moreover have "pick_round_robin a = Some n \<Longrightarrow> n \<in> set (rq a)"
    by (auto simp: pick_round_robin_def head_option_def find_Some_iff
        split: option.splits list.splits)
  ultimately show "apick a = Some n \<Longrightarrow> n \<in> set (rq a)" by (simp add: apick_def split: if_splits)
qed

lemma apick_None: "apick a = None \<longleftrightarrow> rq a = []"
  by (auto simp: apick_def pick_priority_def pick_round_robin_def head_option_def find_None_iff
      split: list.splits option.splits)

subsection \<open>Every abstract operation keeps the invariant\<close>

lemma arequeue_dispatch_tab:
  assumes "queues_ok a" and "current_ok a" and "n < SchedMaxTasks" and "i < SchedMaxTasks"
    and "cur a \<noteq> Some n"
  shows "tab (adispatch n (arequeue (a\<lparr>rq := remove1 n (rq a)\<rparr>))) ! i =
    (if i = n then (tab a ! n)\<lparr>State := TaskRunning, TimeUsed := 0,
        Switches := Switches (tab a ! n) + 1\<rparr>
     else if State (tab a ! i) = TaskRunning then (tab a ! i)\<lparr>State := TaskReady\<rparr>
     else tab a ! i)"
  using assms by (auto simp: aops queues_ok_def current_ok_def split: option.splits)

lemma ayield_ainv:
  assumes "ainv a"
  shows "ainv (fst (ayield a))"
proof (cases "lck a = 0 \<and> (\<exists>n. apick a = Some n \<and> cur a \<noteq> Some n)")
  case False
  then have "fst (ayield a) = a" by (auto simp: ayield_def split: option.splits)
  with assms show ?thesis by simp
next
  case True
  then obtain n where n: "apick a = Some n" "cur a \<noteq> Some n" "lck a = 0" by blast
  define a' where "a' = adispatch n (arequeue (a\<lparr>rq := remove1 n (rq a)\<rparr>))"
  note inv = ainvD [OF assms]
  note q = queues_okD [OF inv(1)]
  have nr: "n < SchedMaxTasks" "State (tab a ! n) = TaskReady"
    using apick_member [OF n(1)] q(5) by auto
  have tab: "tab a' ! i = (if i = n then (tab a ! n)\<lparr>State := TaskRunning, TimeUsed := 0,
        Switches := Switches (tab a ! n) + 1\<rparr>
     else if State (tab a ! i) = TaskRunning then (tab a ! i)\<lparr>State := TaskReady\<rparr>
     else tab a ! i)" if "i < SchedMaxTasks" for i
    unfolding a'_def using inv(1,2) nr(1) that n(2) by (rule arequeue_dispatch_tab)
  have fields: "cur a' = Some n" "nid a' = nid a" "cnt a' = cnt a" "bq a' = bq a" "dq a' = dq a"
    "length (tab a') = SchedMaxTasks"
    using q(1) by (auto simp: a'_def aops split: option.splits)
  have run: "cur a = Some i" if "i < SchedMaxTasks" "State (tab a ! i) = TaskRunning" for i
    using inv(2) that by (simp add: current_ok_def)
  have cb: "p < SchedMaxTasks" if "cur a = Some p" for p
    using inv(2) that by (auto simp: current_ok_def live_def)
  have runset: "set (case cur a of None \<Rightarrow> []
      | Some p \<Rightarrow> if State (tab a ! p) = TaskRunning then [p] else []) =
    {i. i < SchedMaxTasks \<and> State (tab a ! i) = TaskRunning}"
    by (auto split: option.splits dest: run cb cb [OF sym])
  have rq': "rq a' = remove1 n (rq a) @
     (case cur a of None \<Rightarrow> [] | Some p \<Rightarrow> if State (tab a ! p) = TaskRunning then [p] else [])"
    by (auto simp: a'_def aops split: option.splits)
  have lv: "live a' i \<longleftrightarrow> live a i" for i
    using nr by (auto simp: live_def tab split: if_splits)
  have "set (rq a') = {i. i < SchedMaxTasks \<and> State (tab a' ! i) = TaskReady}"
    unfolding rq' set_append runset set_remove1_eq [OF q(2)] using nr
    by (auto simp: tab q(5) split: if_splits)
  moreover have "distinct (rq a')"
    by (cases "cur a") (simp_all add: rq' q(2,5) set_remove1_eq)
  ultimately have "queues_ok a'"
    using q(3,4,6,7) nr by (auto simp: queues_ok_def fields tab split: if_splits)
  moreover have "current_ok a'"
    using nr by (auto simp: current_ok_def fields tab live_def split: if_splits)
  moreover have "ids_ok a' \<and> count_ok a'"
    by (intro conjI ids_count_frame [OF inv(3,4) lv])
      (use inv(3) nr in \<open>auto simp: tab fields live_def ids_ok_def split: if_splits\<close>)
  ultimately have "ainv a'" by (simp add: ainv_def)
  then show ?thesis using n by (simp add: ayield_def a'_def)
qed

lemma ablock_ainv:
  assumes "ainv a" and "live a i" and "i \<noteq> 0" and "State (tab a ! i) \<noteq> TaskBlocked"
  shows "ainv (ablock i a)"
proof -
  note inv = ainvD [OF assms(1)]
  note q = queues_okD [OF inv(1)]
  have i: "i < SchedMaxTasks" using assms(2) by (simp add: live_def)
  have "queues_ok (ablock i a)"
    using q assms(2,4) by (auto simp: queues_ok_def aops live_def split: if_splits)
  moreover have lv: "live (ablock i a) j \<longleftrightarrow> live a j" for j
    using q(1) assms(2) by (auto simp: live_def aops split: if_splits)
  moreover have "current_ok (ablock i a)"
    using inv(2) q(1) lv by (auto simp: current_ok_def aops split: if_splits)
  moreover have "ids_ok (ablock i a) \<and> count_ok (ablock i a)"
    by (intro conjI ids_count_frame [OF inv(3,4) lv])
      (use inv(3) q(1) assms(3) in \<open>auto simp: live_def ids_ok_def aops\<close>)
  ultimately show ?thesis by (simp add: ainv_def)
qed

lemma aunblock_ainv:
  assumes "ainv a" and "i \<in> set (bq a)"
  shows "ainv (aunblock i a)"
proof -
  note inv = ainvD [OF assms(1)]
  note q = queues_okD [OF inv(1)]
  have i: "i < SchedMaxTasks" "State (tab a ! i) = TaskBlocked" using assms(2) q(6) by auto
  have "queues_ok (aunblock i a)"
    using q i by (auto simp: queues_ok_def aops split: if_splits)
  moreover have lv: "live (aunblock i a) j \<longleftrightarrow> live a j" for j
    using q(1) i by (auto simp: live_def aops split: if_splits)
  moreover have "current_ok (aunblock i a)"
    using inv(2) q(1) lv by (auto simp: current_ok_def aops split: if_splits)
  moreover have "ids_ok (aunblock i a) \<and> count_ok (aunblock i a)"
    by (intro conjI ids_count_frame [OF inv(3,4) lv])
      (use inv(3) q(1) i in \<open>auto simp: live_def ids_ok_def aops\<close>)
  ultimately show ?thesis by (simp add: ainv_def)
qed

text \<open>A change of a field that is neither state nor identifier keeps the invariant.\<close>

lemma aset_ainv:
  assumes "ainv a" and "\<And>t. State (f t) = State t" and "\<And>t. TaskId (f t) = TaskId t"
  shows "ainv (aset i f a)"
proof -
  note inv = ainvD [OF assms(1)]
  note q = queues_okD [OF inv(1)]
  have upd: "upd_task i f (tab a) ! j = (if i = j \<and> i < length (tab a) then f (tab a ! j) else tab a ! j)"
    for j by (cases "i < length (tab a)") (auto simp: upd_task_def list_update_beyond)
  have st: "State (upd_task i f (tab a) ! j) = State (tab a ! j)"
    and ti: "TaskId (upd_task i f (tab a) ! j) = TaskId (tab a ! j)" for j
    using assms(2,3) by (simp_all add: upd)
  have lv: "live (aset i f a) j \<longleftrightarrow> live a j" for j
    by (simp add: live_def st)
  from inv(1) have "queues_ok (aset i f a)"
    by (simp add: queues_ok_def st)
  moreover have "current_ok (aset i f a)"
    using inv(2) by (simp add: current_ok_def st lv)
  moreover have "ids_ok (aset i f a) \<and> count_ok (aset i f a)"
    using inv(3,4) by (simp add: ids_ok_def count_ok_def lv st ti)
  ultimately show ?thesis by (simp add: ainv_def)
qed

lemma awake_one_ainv:
  assumes "ainv a" and "i \<in> set (bq a)"
  shows "ainv (awake_one i a)"
  unfolding awake_one_def
  by (rule aunblock_ainv) (use assms in \<open>auto intro: aset_ainv\<close>)

lemma awake_one_bq: "bq (awake_one i a) = remove1 i (bq a)"
  by (simp add: aops)

lemma fold_awake_ainv:
  assumes "ainv a" and "set xs \<subseteq> set (bq a)" and "distinct xs"
  shows "ainv (fold awake_one xs a)"
  using assms
proof (induction xs arbitrary: a)
  case Nil
  then show ?case by simp
next
  case (Cons x xs)
  have "ainv (awake_one x a)" using Cons.prems by (auto intro: awake_one_ainv)
  moreover have "set xs \<subseteq> set (bq (awake_one x a))"
    using Cons.prems queues_okD(3) [OF ainvD(1) [OF Cons.prems(1)]]
    by (auto simp: awake_one_bq set_remove1_eq)
  ultimately show ?case using Cons.IH Cons.prems(3) by simp
qed

lemma awake_expired_ainv: "ainv a \<Longrightarrow> ainv (awake_expired now a)"
  unfolding awake_expired_def
  by (rule fold_awake_ainv) (auto dest!: ainvD(1) queues_okD(3))

lemma awake_task_ainv:
  assumes "ainv a"
  shows "ainv (awake_task ident a)"
proof (cases "\<exists>i. afind ident a = Some i \<and> State (tab a ! i) = TaskBlocked")
  case True
  then obtain i where i: "afind ident a = Some i" "State (tab a ! i) = TaskBlocked" by blast
  then have "i < SchedMaxTasks" by (auto simp: afind_def find_Some_iff)
  with i have "i \<in> set (bq a)" using queues_okD(6) [OF ainvD(1) [OF assms]] by simp
  with assms i show ?thesis by (simp add: awake_task_def aunblock_ainv)
next
  case False
  then have "awake_task ident a = a" by (auto simp: awake_task_def split: option.splits)
  with assms show ?thesis by simp
qed

lemma aundo_block_ainv:
  assumes "ainv a" and "cur a = Some i" and "i \<in> set (bq a)"
  shows "ainv (aundo_block i a)"
proof -
  note inv = ainvD [OF assms(1)]
  note q = queues_okD [OF inv(1)]
  have i: "i < SchedMaxTasks" "State (tab a ! i) = TaskBlocked" using assms(3) q(6) by auto
  have "queues_ok (aundo_block i a)"
    using q i by (auto simp: queues_ok_def aops split: if_splits)
  moreover have lv: "live (aundo_block i a) j \<longleftrightarrow> live a j" for j
    using q(1) i by (auto simp: live_def aops split: if_splits)
  moreover have "current_ok (aundo_block i a)"
    using inv(2) q(1) lv assms(2) by (auto simp: current_ok_def aops split: if_splits)
  moreover have "ids_ok (aundo_block i a) \<and> count_ok (aundo_block i a)"
    by (intro conjI ids_count_frame [OF inv(3,4) lv])
      (use inv(3) q(1) i in \<open>auto simp: live_def ids_ok_def aops\<close>)
  ultimately show ?thesis by (simp add: ainv_def)
qed

lemma afind_live:
  "afind ident a = Some i \<Longrightarrow> live a i \<and> TaskId (tab a ! i) = ident"
  by (auto simp: afind_def find_Some_iff live_def)

lemma ayield_not_switched: "\<not> snd (ayield a) \<Longrightarrow> fst (ayield a) = a"
  by (auto simp: ayield_def split: option.splits if_splits)

lemma ablock_task_ainv:
  assumes "ainv a"
  shows "ainv (fst (ablock_task ident a))"
proof (cases "\<exists>i. afind ident a = Some i \<and> TaskId (tab a ! i) \<noteq> 0 \<and> State (tab a ! i) \<noteq> TaskBlocked")
  case False
  then have "fst (ablock_task ident a) = a"
    by (auto simp: ablock_task_def split: option.splits)
  with assms show ?thesis by simp
next
  case True
  then obtain i where i: "afind ident a = Some i" "TaskId (tab a ! i) \<noteq> 0"
    "State (tab a ! i) \<noteq> TaskBlocked" by blast
  have lv: "live a i" using afind_live [OF i(1)] by simp
  then have "i \<noteq> 0" using i(2) zero_id_idle [OF ainvD(3) [OF assms]] by auto
  with assms lv i(3) have inv: "ainv (ablock i a)" by (simp add: ablock_ainv)
  show ?thesis
  proof (cases "cur a = Some i \<and> \<not> snd (ayield (ablock i a))")
    case True
    then have "fst (ayield (ablock i a)) = ablock i a" by (simp add: ayield_not_switched)
    moreover have "ainv (aundo_block i (ablock i a))"
      by (rule aundo_block_ainv [OF inv]) (use True in \<open>auto simp: aops\<close>)
    ultimately show ?thesis
      using i True by (auto simp: ablock_task_def split: prod.splits bool.splits)
  next
    case False
    with i ayield_ainv [OF inv] inv show ?thesis
      by (auto simp: ablock_task_def split: prod.splits bool.splits)
  qed
qed

subsubsection \<open>Ending a task\<close>

lemma abury_ainv:
  assumes "ainv a" and "live a i" and "i \<noteq> 0"
  shows "ainv ((abury i a)\<lparr>cur := (if cur a = Some i then None else cur a)\<rparr>)"
proof -
  let ?b = "(abury i a)\<lparr>cur := (if cur a = Some i then None else cur a)\<rparr>"
  note inv = ainvD [OF assms(1)]
  note q = queues_okD [OF inv(1)]
  have i: "i < SchedMaxTasks" "State (tab a ! i) \<noteq> TaskDead" using assms(2) by (simp_all add: live_def)
  have tab: "tab (abury i a) ! j = (if j = i then SchedResetTask (tab a ! i) else tab a ! j)"
    if "j < SchedMaxTasks" for j
    using that q(1) by (auto simp: aops)
  have dead: "State (SchedResetTask t) = TaskDead" for t by (simp add: SchedResetTask_def)
  have lv: "live ?b j \<longleftrightarrow> live a j \<and> j \<noteq> i" for j
    by (auto simp: live_def tab dead split: if_splits)
  have fields: "length (tab (abury i a)) = SchedMaxTasks" "rq (abury i a) = remove1 i (rq a)"
    "bq (abury i a) = remove1 i (bq a)" "dq (abury i a) = dq a @ [i]" "nid (abury i a) = nid a"
    "cnt (abury i a) = (if cnt a > 0 then cnt a - 1 else cnt a)"
    using q(1) by (simp_all add: abury_def)
  have "queues_ok ?b"
    unfolding queues_ok_def using q i by (auto simp: tab dead fields split: if_splits)
  moreover have "current_ok ?b"
    using inv(2) lv by (auto simp: current_ok_def tab dead split: if_splits)
  moreover have "ids_ok ?b"
    using inv(3) lv assms(3) by (auto simp: ids_ok_def tab fields live_def split: if_splits)
  moreover have "count_ok ?b"
  proof -
    have fin: "finite {j. live a j}"
      by (rule finite_subset [of _ "{..<SchedMaxTasks}"]) (auto simp: live_def)
    have set: "{j. live ?b j} = {j. live a j} - {i}" using lv by blast
    have card: "unat (cnt a) = card {j. live a j}" using inv(4) by (simp add: count_ok_def)
    have pos: "0 < card {j. live a j}" using assms(2) fin by (auto simp: card_gt_0_iff)
    then have "cnt a \<noteq> 0" using card by auto
    then have "unat (cnt (abury i a)) = unat (cnt a) - 1"
      by (simp add: fields unat_minus_one' word_gt_0)
    then show ?thesis
      using card set fin assms(2) by (simp add: count_ok_def)
  qed
  ultimately show ?thesis by (simp add: ainv_def)
qed

text \<open>
  When the scheduler is not locked, a task that exits always finds another task to run: the
  idle task is ready.
\<close>

lemma idle_ready:
  assumes "ainv a" and "cur a \<noteq> Some 0"
  shows "0 \<in> set (rq a)"
proof -
  note inv = ainvD [OF assms(1)]
  have "State (tab a ! 0) \<noteq> TaskRunning" using inv(2) assms(2) by (auto simp: current_ok_def)
  then show ?thesis
    using inv(3) queues_okD(5) [OF inv(1)] by (auto simp: ids_ok_def)
qed

lemma ayield_switches:
  assumes "ainv a" and "lck a = 0" and "cur a \<noteq> Some 0"
    and "\<And>c. cur a = Some c \<Longrightarrow> c \<notin> set (rq a)"
  shows "snd (ayield a)" and "cur (fst (ayield a)) \<noteq> None"
proof -
  have "rq a \<noteq> []" using idle_ready [OF assms(1,3)] by auto
  then obtain n where n: "apick a = Some n" using apick_None by fastforce
  with assms(4) have "cur a \<noteq> Some n" using apick_member by blast
  with n assms(2) show "snd (ayield a)" and "cur (fst (ayield a)) \<noteq> None"
    by (simp_all add: ayield_def adispatch_def)
qed

lemma aexit_ainv:
  assumes "ainv a" and "lck a = 0"
  shows "ainv (fst (aexit a))" and "cur a \<noteq> None \<Longrightarrow> cur (fst (aexit a)) \<noteq> None"
    and "cur a = Some i \<Longrightarrow> i \<noteq> 0 \<Longrightarrow> aexit a = (fst (ayield ((abury i a)\<lparr>cur := None\<rparr>)), True)"
proof -
  have main: "ainv (fst (aexit a)) \<and> cur (fst (aexit a)) \<noteq> None \<and>
      aexit a = (fst (ayield ((abury i a)\<lparr>cur := None\<rparr>)), True)"
    if c: "cur a = Some i" and i: "i \<noteq> 0" for i
  proof -
    let ?b = "(abury i a)\<lparr>cur := None\<rparr>"
    have lv: "live a i" using ainvD(2) [OF assms(1)] c by (simp add: current_ok_def)
    then have ti: "TaskId (tab a ! i) \<noteq> 0"
      using zero_id_idle [OF ainvD(3) [OF assms(1)]] i by simp
    have inv: "ainv ?b" using abury_ainv [OF assms(1) lv i] c by simp
    have sw: "snd (ayield ?b)" "cur (fst (ayield ?b)) \<noteq> None"
      using ayield_switches [OF inv] assms(2) by (simp_all add: aops)
    then have "aexit a = (fst (ayield ?b), True)"
      using c ti by (auto simp: aexit_def split: prod.splits)
    with ayield_ainv [OF inv] sw show ?thesis by simp
  qed
  have idle: "aexit a = (a, False)" if "cur a = None \<or> cur a = Some 0"
    using that ainvD(3) [OF assms(1)] by (auto simp: aexit_def ids_ok_def)
  show "ainv (fst (aexit a))"
  proof (cases "cur a = None \<or> cur a = Some 0")
    case True
    with assms(1) idle show ?thesis by simp
  next
    case False
    then obtain i where "cur a = Some i" "i \<noteq> 0" by auto
    with main show ?thesis by blast
  qed
  show "cur (fst (aexit a)) \<noteq> None" if "cur a \<noteq> None"
    using that main idle by (cases "cur a = Some 0") auto
  show "cur a = Some i \<Longrightarrow> i \<noteq> 0 \<Longrightarrow> aexit a = (fst (ayield ((abury i a)\<lparr>cur := None\<rparr>)), True)"
    using main by blast
qed

lemma akill_ainv:
  assumes "ainv a" and "lck a = 0"
  shows "ainv (fst (akill ident a))"
proof (cases "ident \<noteq> 0 \<and> \<not> (case cur a of None \<Rightarrow> False | Some c \<Rightarrow> TaskId (tab a ! c) = ident) \<and>
    (\<exists>i. afind ident a = Some i)")
  case True
  then obtain i where i: "afind ident a = Some i" "ident \<noteq> 0" by blast
  note lv = afind_live [OF i(1)]
  have "i \<noteq> 0" using lv i(2) zero_id_idle [OF ainvD(3) [OF assms(1)]] by auto
  moreover have "cur a \<noteq> Some i" using True lv by auto
  moreover have "(abury i a)\<lparr>cur := cur a\<rparr> = abury i a" by (simp add: abury_def aset_def)
  ultimately have "ainv (abury i a)" using abury_ainv [OF assms(1), of i] lv by simp
  with True i lv show ?thesis by (simp add: akill_def)
next
  case False
  then have "akill ident a = (a, False) \<or> akill ident a = aexit a"
    by (auto simp: akill_def split: option.splits)
  with assms aexit_ainv(1) show ?thesis by auto
qed

subsubsection \<open>Creating a task\<close>

lemma live_card_less:
  assumes "count_ok a" and "cnt a < of_nat SchedMaxTasks"
  shows "\<exists>i < SchedMaxTasks. State (tab a ! i) = TaskDead"
proof (rule ccontr)
  assume "\<not> ?thesis"
  then have "{i. live a i} = {..<SchedMaxTasks}" by (auto simp: live_def)
  with assms(1) have "unat (cnt a) = SchedMaxTasks" by (simp add: count_ok_def)
  with assms(2) show False by (simp add: SchedMaxTasks_def word_less_nat_alt)
qed

lemma acreate_at_ainv:
  assumes "ainv a" and "i < SchedMaxTasks" and "State (tab a ! i) = TaskDead"
    and "unat (nid a) < 4294967295"
  shows "ainv (acreate_at i nm entry stacktop a)"
proof -
  let ?b = "acreate_at i nm entry stacktop a"
  note inv = ainvD [OF assms(1)]
  note q = queues_okD [OF inv(1)]
  have i0: "i \<noteq> 0" using idle_live [OF inv(3)] assms(3) by (metis live_def)
  have tab: "State (tab ?b ! j) = (if j = i then TaskReady else State (tab a ! j))"
    "TaskId (tab ?b ! j) = (if j = i then nid a else TaskId (tab a ! j))"
    if "j < SchedMaxTasks" for j
    using that q(1) by (simp_all add: acreate_at_def)
  have fields: "length (tab ?b) = SchedMaxTasks" "rq ?b = rq a @ [i]" "bq ?b = bq a"
    "dq ?b = remove1 i (dq a)" "nid ?b = nid a + 1" "cnt ?b = cnt a + 1" "cur ?b = cur a"
    using q(1) by (simp_all add: acreate_at_def)
  have lv: "live ?b j \<longleftrightarrow> live a j \<or> j = i" for j
    using assms(2) by (auto simp: live_def tab split: if_splits)
  have nl: "\<not> live a i" using assms(3) by (simp add: live_def)
  have "queues_ok ?b"
    unfolding queues_ok_def using q assms(2,3) by (auto simp: tab fields split: if_splits)
  moreover have "current_ok ?b"
    using inv(2) by (auto simp: current_ok_def tab fields lv split: if_splits)
  moreover have "ids_ok ?b"
  proof -
    have less: "x < nid a + 1" if "x \<le> nid a" for x
      using that assms(4) by (simp add: word_less_nat_alt word_le_nat_alt unat_succ_bound)
    have old: "TaskId (tab a ! j) < nid a" if "live a j" for j
      using inv(3) that by (simp add: ids_ok_def)
    have ti: "TaskId (tab ?b ! j) = (if j = i then nid a else TaskId (tab a ! j))"
      if "live ?b j" for j
      using that by (simp add: live_def tab)
    have "TaskId (tab ?b ! 0) = 0" "State (tab ?b ! 0) \<in> {TaskReady, TaskRunning}"
      using inv(3) i0 by (simp_all add: ids_ok_def tab)
    moreover have "TaskId (tab ?b ! j) < nid ?b" if "live ?b j" for j
      using that ti [OF that] old [of j] less by (auto simp: lv fields)
    moreover have "j = k" if "live ?b j" "live ?b k" "TaskId (tab ?b ! j) = TaskId (tab ?b ! k)" for j k
    proof (cases "j = i \<or> k = i")
      case True
      with that(3) ti that(1,2) old lv show ?thesis by (metis order_less_irrefl)
    next
      case False
      with that ti lv inv(3) show ?thesis by (simp add: ids_ok_def)
    qed
    ultimately show ?thesis by (simp add: ids_ok_def)
  qed
  moreover have "count_ok ?b"
  proof -
    have fin: "finite {j. live a j}"
      by (rule finite_subset [of _ "{..<SchedMaxTasks}"]) (auto simp: live_def)
    have "card {j. live a j} \<le> card {..<SchedMaxTasks}"
      by (rule card_mono) (auto simp: live_def)
    then have "unat (cnt a) \<le> 32" using inv(4) by (simp add: count_ok_def SchedMaxTasks_def)
    then have "unat (cnt ?b) = Suc (unat (cnt a))" by (simp add: fields unat_succ_bound)
    moreover have "{j. live ?b j} = insert i {j. live a j}" using lv by auto
    ultimately show ?thesis using inv(4) fin nl by (simp add: count_ok_def)
  qed
  ultimately show ?thesis by (simp add: ainv_def)
qed

lemma acreate_ainv:
  assumes "ainv a" and "unat (nid a) < 4294967295"
  shows "ainv (snd (acreate nm entry stacktop a))"
  using assms by (auto simp: acreate_def find_Some_iff intro!: acreate_at_ainv split: option.splits)

lemma acreate_succeeds:
  assumes "ainv a" and "cnt a < of_nat SchedMaxTasks"
  obtains i where "fst (acreate nm entry stacktop a) = Some i" and "i < SchedMaxTasks"
    and "State (tab a ! i) = TaskDead"
    and "snd (acreate nm entry stacktop a) = acreate_at i nm entry stacktop a"
proof -
  obtain j where "j < SchedMaxTasks" "State (tab a ! j) = TaskDead"
    using live_card_less [OF ainvD(4) [OF assms(1)] assms(2)] by blast
  then obtain i where i: "find (\<lambda>i. State (tab a ! i) = TaskDead) [0..<SchedMaxTasks] = Some i"
    by (cases "find (\<lambda>i. State (tab a ! i) = TaskDead) [0..<SchedMaxTasks]")
      (auto simp: find_None_iff)
  then have "i < SchedMaxTasks" "State (tab a ! i) = TaskDead" by (auto simp: find_Some_iff)
  with i assms(2) show thesis by (intro that [of i]) (simp_all add: acreate_def)
qed

end
