(* ===== verification/Sched_Refine.thy ===== *)
theory Sched_Refine
  imports Sched_Spec
begin

text \<open>
  The scheduler of \<^verbatim>\<open>Sched\<close> implements the abstract scheduler of \<^verbatim>\<open>Sched_Spec\<close>. The relation
  \<open>refines s a\<close> says that the three queue heads of \<open>s\<close> denote the lists of \<open>a\<close> and that all
  other state agrees; the link fields, the saved stack pointers and the processor are not
  part of the abstract state. For every operation: in a state that refines an abstract state
  with the invariant, the operation returns (no queue walk runs forever) and its result
  refines the result of the abstract operation.
\<close>

definition erase :: "Task \<Rightarrow> Task" where
  "erase t = t\<lparr>Next := None, Esp := 0\<rparr>"

lemma erase_fields [simp]:
  "TaskId (erase t) = TaskId t" "ParentId (erase t) = ParentId t" "Eip (erase t) = Eip t"
  "Ebp (erase t) = Ebp t" "Priority (erase t) = Priority t" "TimeSlice (erase t) = TimeSlice t"
  "TimeUsed (erase t) = TimeUsed t" "Runtime (erase t) = Runtime t"
  "Switches (erase t) = Switches t" "WakeTick (erase t) = WakeTick t"
  "State (erase t) = State t" "Name (erase t) = Name t"
  by (simp_all add: erase_def)

definition refines :: "sched \<Rightarrow> aspec \<Rightarrow> bool" where
  "refines s a \<longleftrightarrow>
     tab a = map erase (Tasks s) \<and> cur a = CurrentTask s \<and> pol a = CurrentPolicy s \<and>
     cnt a = TaskCountValue s \<and> nid a = NextTaskId s \<and> ticks a = SchedulerTicks s \<and>
     sws a = ContextSwitches s \<and> lck a = SchedulerLocked s \<and> pend a = PreemptPending s \<and>
     task_list (Tasks s) (ReadyQueue s) (rq a) \<and> task_list (Tasks s) (BlockedQueue s) (bq a) \<and>
     task_list (Tasks s) (DeadQueue s) (dq a) \<and> distinct (rq a @ bq a @ dq a)"

lemma refinesD:
  assumes "refines s a"
  shows "tab a = map erase (Tasks s)" "cur a = CurrentTask s" "pol a = CurrentPolicy s"
    "cnt a = TaskCountValue s" "nid a = NextTaskId s" "lck a = SchedulerLocked s"
    "pend a = PreemptPending s" "ticks a = SchedulerTicks s" "sws a = ContextSwitches s"
    "task_list (Tasks s) (ReadyQueue s) (rq a)" "task_list (Tasks s) (BlockedQueue s) (bq a)"
    "task_list (Tasks s) (DeadQueue s) (dq a)" "distinct (rq a @ bq a @ dq a)"
    "length (tab a) = length (Tasks s)"
  using assms by (simp_all add: refines_def)

lemma refines_nth: "refines s a \<Longrightarrow> i < length (Tasks s) \<Longrightarrow> tab a ! i = erase (task s i)"
  by (simp add: refines_def)

subsection \<open>Steps that the abstract state does not see\<close>

lemma lock_irq_fields [irq_simps]:
  "Tasks (snd (SchedLockIrq s)) = Tasks s" "CurrentTask (snd (SchedLockIrq s)) = CurrentTask s"
  "SchedulerLocked (snd (SchedLockIrq s)) = SchedulerLocked s"
  by (simp_all add: SchedLockIrq_def)

lemma refines_lock_irq [irq_simps]: "refines (snd (SchedLockIrq s)) a \<longleftrightarrow> refines s a"
  by (simp add: refines_def SchedLockIrq_def)

lemma refines_unlock_irq [irq_simps]: "refines (SchedUnlockIrq w s) a \<longleftrightarrow> refines s a"
  by (simp add: refines_def SchedUnlockIrq_def)

lemma refines_machine [irq_simps]: "refines (s\<lparr>Machine := cm\<rparr>) a \<longleftrightarrow> refines s a"
  by (simp add: refines_def)

lemma SchedLockIrq_cases:
  obtains w s1 where "SchedLockIrq s = (w, s1)" and "snd (SchedLockIrq s) = s1"
  by (simp add: SchedLockIrq_def)

subsection \<open>Stores through a task pointer\<close>

lemma refines_set_task:
  assumes "refines s a" and "\<And>t. erase (f t) = g (erase t)"
    and "(\<forall>t. Next (f t) = Next t) \<or> i \<notin> set (rq a @ bq a @ dq a)"
  shows "refines (set_task i f s) (aset i g a)"
proof -
  have "map erase (upd_task i f (Tasks s)) = upd_task i g (tab a)"
    using assms(1,2) by (cases "i < length (Tasks s)")
      (simp_all add: refines_def upd_task_def map_update list_update_beyond)
  moreover have "task_list (upd_task i f (Tasks s)) p xs"
    if "task_list (Tasks s) p xs" "set xs \<subseteq> set (rq a @ bq a @ dq a)" for p xs
    using assms(3)
  proof
    assume "\<forall>t. Next (f t) = Next t"
    then have "Next (upd_task i f (Tasks s) ! x) = Next (task s x)" for x
      by (cases "i < length (Tasks s)"; cases "i = x") (simp_all add: upd_task_def list_update_beyond)
    then show ?thesis using that(1) by (intro task_path_cong [OF that(1)]) simp_all
  next
    assume "i \<notin> set (rq a @ bq a @ dq a)"
    then show ?thesis using that by (intro task_path_upd) auto
  qed
  ultimately show ?thesis
    using assms(1) by (auto simp: refines_def set_task_def)
qed

lemma refines_set_esp:
  assumes "refines s a"
  shows "refines (set_task i (\<lambda>t. t\<lparr>Esp := e\<rparr>) s) a"
proof -
  have "refines (set_task i (\<lambda>t. t\<lparr>Esp := e\<rparr>) s) (aset i (\<lambda>t. t) a)"
    by (rule refines_set_task [OF assms]) (simp_all add: erase_def)
  moreover have "aset i (\<lambda>t. t) a = a" by (simp add: aset_def upd_task_def)
  ultimately show ?thesis by simp
qed

subsection \<open>Queue moves\<close>

lemma links_only_erase:
  assumes "links_only S ts ts'"
  shows "map erase ts' = map erase ts"
proof (rule nth_equalityI)
  show "length (map erase ts') = length (map erase ts)" using assms by (simp add: links_only_def)
  fix i
  assume "i < length (map erase ts')"
  then have i: "i < length ts'" "i < length ts" using assms by (simp_all add: links_only_def)
  then have "ts' ! i = (ts ! i)\<lparr>Next := Next (ts' ! i)\<rparr>" using assms by (simp add: links_only_def)
  then have "erase (ts' ! i) = erase ((ts ! i)\<lparr>Next := Next (ts' ! i)\<rparr>)" by (rule arg_cong)
  then show "map erase ts' ! i = map erase ts ! i" using i by (simp add: erase_def)
qed

lemma sim_ready_add:
  assumes "refines s a" and "i < length (Tasks s)" and "i \<notin> set (rq a @ bq a @ dq a)"
  shows "returns (ready_add i s) (\<lambda>s'. refines s' (a\<lparr>rq := rq a @ [i]\<rparr>))"
proof -
  note r = refinesD [OF assms(1)]
  obtain q' ts' where *: "SchedQueueAdd (ReadyQueue s) i (Tasks s) = Some (q', ts')"
    "task_list ts' q' (rq a @ [i])" "links_only (insert i (set (rq a))) (Tasks s) ts'"
    "\<And>p ys. task_list (Tasks s) p ys \<Longrightarrow> i \<notin> set ys \<Longrightarrow> set ys \<inter> set (rq a) = {} \<Longrightarrow> task_list ts' p ys"
    using sq.add_others [OF r(10) assms(2)] assms(3) by auto
  have "task_list ts' (BlockedQueue s) (bq a)" "task_list ts' (DeadQueue s) (dq a)"
    using r(11-13) assms(3) by (auto intro!: *(4))
  then show ?thesis
    using * r assms(3) by (simp add: ready_add_def refines_def links_only_erase)
qed

lemma sim_blocked_add:
  assumes "refines s a" and "i < length (Tasks s)" and "i \<notin> set (rq a @ bq a @ dq a)"
  shows "returns (blocked_add i s) (\<lambda>s'. refines s' (a\<lparr>bq := bq a @ [i]\<rparr>))"
proof -
  note r = refinesD [OF assms(1)]
  obtain q' ts' where *: "SchedQueueAdd (BlockedQueue s) i (Tasks s) = Some (q', ts')"
    "task_list ts' q' (bq a @ [i])" "links_only (insert i (set (bq a))) (Tasks s) ts'"
    "\<And>p ys. task_list (Tasks s) p ys \<Longrightarrow> i \<notin> set ys \<Longrightarrow> set ys \<inter> set (bq a) = {} \<Longrightarrow> task_list ts' p ys"
    using sq.add_others [OF r(11) assms(2)] assms(3) by auto
  have "task_list ts' (ReadyQueue s) (rq a)" "task_list ts' (DeadQueue s) (dq a)"
    using r(10-13) assms(3) by (auto intro!: *(4))
  then show ?thesis
    using * r assms(3) by (simp add: blocked_add_def refines_def links_only_erase)
qed

lemma sim_dead_add:
  assumes "refines s a" and "i < length (Tasks s)" and "i \<notin> set (rq a @ bq a @ dq a)"
  shows "returns (dead_add i s) (\<lambda>s'. refines s' (a\<lparr>dq := dq a @ [i]\<rparr>))"
proof -
  note r = refinesD [OF assms(1)]
  obtain q' ts' where *: "SchedQueueAdd (DeadQueue s) i (Tasks s) = Some (q', ts')"
    "task_list ts' q' (dq a @ [i])" "links_only (insert i (set (dq a))) (Tasks s) ts'"
    "\<And>p ys. task_list (Tasks s) p ys \<Longrightarrow> i \<notin> set ys \<Longrightarrow> set ys \<inter> set (dq a) = {} \<Longrightarrow> task_list ts' p ys"
    using sq.add_others [OF r(12) assms(2)] assms(3) by auto
  have "task_list ts' (ReadyQueue s) (rq a)" "task_list ts' (BlockedQueue s) (bq a)"
    using r(10-13) assms(3) by (auto intro!: *(4))
  then show ?thesis
    using * r assms(3) by (simp add: dead_add_def refines_def links_only_erase)
qed

lemma sim_ready_remove:
  assumes "refines s a"
  shows "returns (ready_remove i s) (\<lambda>s'. refines s' (a\<lparr>rq := remove1 i (rq a)\<rparr>))"
proof -
  note r = refinesD [OF assms(1)]
  obtain q' ts' where *: "SchedQueueRemove (ReadyQueue s) (Some i) (Tasks s) = Some (q', ts')"
    "task_list ts' q' (remove1 i (rq a))" "links_only (set (rq a)) (Tasks s) ts'"
    "\<And>p ys. task_list (Tasks s) p ys \<Longrightarrow> set ys \<inter> set (rq a) = {} \<Longrightarrow> task_list ts' p ys"
    using sq.remove_others [OF r(10)] by blast
  have "task_list ts' (BlockedQueue s) (bq a)" "task_list ts' (DeadQueue s) (dq a)"
    using r(11-13) by (auto intro!: *(4))
  moreover have "distinct (remove1 i (rq a) @ bq a @ dq a)"
    using r(13) by (auto dest: in_set_remove1 notin_set_remove1)
  ultimately show ?thesis
    using * r by (simp add: ready_remove_def refines_def links_only_erase)
qed

lemma sim_blocked_remove:
  assumes "refines s a"
  shows "returns (blocked_remove i s) (\<lambda>s'. refines s' (a\<lparr>bq := remove1 i (bq a)\<rparr>))"
proof -
  note r = refinesD [OF assms(1)]
  obtain q' ts' where *: "SchedQueueRemove (BlockedQueue s) (Some i) (Tasks s) = Some (q', ts')"
    "task_list ts' q' (remove1 i (bq a))" "links_only (set (bq a)) (Tasks s) ts'"
    "\<And>p ys. task_list (Tasks s) p ys \<Longrightarrow> set ys \<inter> set (bq a) = {} \<Longrightarrow> task_list ts' p ys"
    using sq.remove_others [OF r(11)] by blast
  have "task_list ts' (ReadyQueue s) (rq a)" "task_list ts' (DeadQueue s) (dq a)"
    using r(10-13) by (auto intro!: *(4))
  moreover have "distinct (rq a @ remove1 i (bq a) @ dq a)"
    using r(13) by (auto dest: in_set_remove1 notin_set_remove1)
  ultimately show ?thesis
    using * r by (simp add: blocked_remove_def refines_def links_only_erase)
qed

lemma sim_dead_remove:
  assumes "refines s a"
  shows "returns (dead_remove i s) (\<lambda>s'. refines s' (a\<lparr>dq := remove1 i (dq a)\<rparr>))"
proof -
  note r = refinesD [OF assms(1)]
  obtain q' ts' where *: "SchedQueueRemove (DeadQueue s) (Some i) (Tasks s) = Some (q', ts')"
    "task_list ts' q' (remove1 i (dq a))" "links_only (set (dq a)) (Tasks s) ts'"
    "\<And>p ys. task_list (Tasks s) p ys \<Longrightarrow> set ys \<inter> set (dq a) = {} \<Longrightarrow> task_list ts' p ys"
    using sq.remove_others [OF r(12)] by blast
  have "task_list ts' (ReadyQueue s) (rq a)" "task_list ts' (BlockedQueue s) (bq a)"
    using r(10-13) by (auto intro!: *(4))
  moreover have "distinct (rq a @ bq a @ remove1 i (dq a))"
    using r(13) by (auto dest: in_set_remove1 notin_set_remove1)
  ultimately show ?thesis
    using * r by (simp add: dead_remove_def refines_def links_only_erase)
qed

subsection \<open>Queue walks\<close>

lemma round_robin_walk_list:
  "task_list ts p xs \<Longrightarrow> round_robin_walk ts ident p = Some (find (\<lambda>i. TaskId (ts ! i) > ident) xs)"
proof (induction xs arbitrary: p)
  case Nil
  then show ?case by (simp add: round_robin_walk.simps)
next
  case (Cons x xs)
  then show ?case by (simp add: round_robin_walk.simps [of _ _ "Some x"])
qed

lemma priority_walk_list:
  "task_list ts p xs \<Longrightarrow> priority_walk ts (Some b) p =
     Some (Some (fold (\<lambda>i b. if Priority (ts ! i) > Priority (ts ! b) then i else b) xs b))"
proof (induction xs arbitrary: p b)
  case Nil
  then show ?case by (simp add: priority_walk.simps)
next
  case (Cons x xs)
  then show ?case by (simp add: priority_walk.simps [of _ _ "Some x"])
qed

lemma runnable_walk_list:
  "task_list ts p xs \<Longrightarrow> runnable_walk ts c p = Some (\<exists>i \<in> set xs. c \<noteq> Some i)"
proof (induction xs arbitrary: p)
  case Nil
  then show ?case by (simp add: runnable_walk.simps)
next
  case (Cons x xs)
  then show ?case by (auto simp: runnable_walk.simps [of _ _ "Some x"])
qed

lemma task_list_head: "task_list ts p xs \<Longrightarrow> p = head_option xs"
  by (cases xs) (simp_all add: head_option_def)

lemma find_cong_set: "(\<And>x. x \<in> set xs \<Longrightarrow> P x = Q x) \<Longrightarrow> find P xs = find Q xs"
  by (induction xs) auto

lemma SchedFindNext_sim:
  assumes "refines s a" and "\<And>c. CurrentTask s = Some c \<Longrightarrow> c < length (Tasks s)"
  shows "SchedFindNext s = Some (apick a)"
proof -
  note r = refinesD [OF assms(1)]
  have b: "i < length (Tasks s)" if "i \<in> set (rq a)" for i
    using r(10) that by (rule task_path_bounds)
  have "SchedFindRoundRobin s = Some (pick_round_robin a)"
  proof (cases "CurrentTask s")
    case None
    then show ?thesis
      using task_list_head [OF r(10)] r(2) by (simp add: SchedFindRoundRobin_def pick_round_robin_def)
  next
    case (Some c)
    have "find (\<lambda>i. TaskId (tab a ! i) > TaskId (tab a ! c)) (rq a) =
          find (\<lambda>i. TaskId (task s i) > TaskId (task s c)) (rq a)"
      using assms(2) [OF Some] b by (intro find_cong_set) (simp add: r(1))
    then show ?thesis
      using Some r(2) task_list_head [OF r(10), symmetric]
      by (simp add: SchedFindRoundRobin_def pick_round_robin_def round_robin_walk_list [OF r(10)]
          split: option.splits)
  qed
  moreover have "SchedFindPriority s = Some (pick_priority a)"
  proof (cases "rq a")
    case Nil
    with r(10) show ?thesis
      by (simp add: SchedFindPriority_def pick_priority_def priority_walk.simps)
  next
    case (Cons x xs)
    let ?f = "\<lambda>tb i b. if Priority (tb ! i) > Priority (tb ! b) then i else b"
    have "fold (?f (tab a)) ys y = fold (?f (Tasks s)) ys y"
      if "set (y # ys) \<subseteq> {..<length (Tasks s)}" for ys y
      using that by (induction ys arbitrary: y) (auto simp: r(1))
    moreover have "set (x # xs) \<subseteq> {..<length (Tasks s)}" using b Cons by auto
    moreover have "task_list (Tasks s) (Next (task s x)) xs" "ReadyQueue s = Some x"
      using r(10) Cons by simp_all
    ultimately show ?thesis
      using Cons
      by (simp add: SchedFindPriority_def pick_priority_def priority_walk.simps [of _ _ "Some x"]
          priority_walk_list)
  qed
  ultimately show ?thesis using r(3) by (simp add: SchedFindNext_def apick_def)
qed

subsection \<open>Yielding\<close>

lemma refines_current:
  assumes "refines s a" and "ainv a"
  shows "length (Tasks s) = SchedMaxTasks"
    and "CurrentTask s = Some c \<Longrightarrow> c < SchedMaxTasks"
proof -
  have "length (tab a) = SchedMaxTasks" using assms(2) by (simp add: ainv_def queues_ok_def)
  then show "length (Tasks s) = SchedMaxTasks" using refinesD(14) [OF assms(1)] by simp
  show "CurrentTask s = Some c \<Longrightarrow> c < SchedMaxTasks"
    using assms(2) refinesD(2) [OF assms(1)] by (auto simp: ainv_def current_ok_def live_def)
qed

lemma refines_switch_tasks:
  "refines s a \<Longrightarrow> refines (switch_tasks prev next s) a"
  by (auto simp: switch_tasks_def Let_def irq_simps split: prod.splits option.splits
      intro: refines_set_esp)

lemma sim_requeue:
  assumes "refines s a" and "length (Tasks s) = SchedMaxTasks"
    and "\<And>c. cur a = Some c \<Longrightarrow> c < SchedMaxTasks"
    and "\<And>c. cur a = Some c \<Longrightarrow> State (tab a ! c) = TaskRunning \<Longrightarrow> c \<notin> set (rq a @ bq a @ dq a)"
  shows "returns (case CurrentTask s of
            None \<Rightarrow> Some s
          | Some p \<Rightarrow> if State (task s p) = TaskRunning
                      then ready_add p (set_task p (\<lambda>t. t\<lparr>State := TaskReady\<rparr>) s) else Some s)
          (\<lambda>s'. refines s' (arequeue a))"
proof (cases "\<exists>p. CurrentTask s = Some p \<and> State (task s p) = TaskRunning")
  case True
  then obtain p where p: "CurrentTask s = Some p" "State (task s p) = TaskRunning" by blast
  have c: "cur a = Some p" using p refinesD(2) [OF assms(1)] by simp
  have pb: "p < length (Tasks s)" using assms(2,3) c by simp
  then have st: "State (tab a ! p) = TaskRunning" using p refines_nth [OF assms(1)] by simp
  have "refines (set_task p (\<lambda>t. t\<lparr>State := TaskReady\<rparr>) s) (aset p (\<lambda>t. t\<lparr>State := TaskReady\<rparr>) a)"
    by (rule refines_set_task [OF assms(1)]) (simp_all add: erase_def)
  from sim_ready_add [OF this, of p] show ?thesis
    using p c st pb assms(4) by (simp add: arequeue_def set_task_def)
next
  case False
  then show ?thesis
    using assms(1,2,3) refinesD(2) [OF assms(1)] refines_nth [OF assms(1)]
    by (auto simp: arequeue_def split: option.splits)
qed

lemma SchedYield_sim:
  assumes ref: "refines s a" and inv: "ainv a"
  shows "returns (SchedYield s) (\<lambda>(s', sw). refines s' (fst (ayield a)) \<and> sw = snd (ayield a))"
proof -
  obtain w s1 where lk: "SchedLockIrq s = (w, s1)" "snd (SchedLockIrq s) = s1"
    by (rule SchedLockIrq_cases)
  have r1: "refines s1 a" using ref by (simp add: lk(2) [symmetric] irq_simps)
  note r = refinesD [OF r1]
  note len = refines_current [OF r1 inv]
  note q = queues_okD [OF ainvD(1) [OF inv]]
  have pick: "SchedFindNext s1 = Some (apick a)"
    using len by (intro SchedFindNext_sim [OF r1]) simp
  show ?thesis
  proof (cases "lck a = 0 \<and> (\<exists>n. apick a = Some n \<and> cur a \<noteq> Some n)")
    case False
    then show ?thesis
      using pick r(2,6) by (auto simp: SchedYield_def lk(1) ayield_def irq_simps r1 Let_def
          split: option.splits)
  next
    case True
    then obtain n where n: "lck a = 0" "apick a = Some n" "cur a \<noteq> Some n" by blast
    let ?a1 = "a\<lparr>rq := remove1 n (rq a)\<rparr>"
    let ?upd = "\<lambda>t. t\<lparr>State := TaskRunning, TimeUsed := 0, Switches := Switches t + 1\<rparr>"
    have step: "returns (ready_remove n s1) (\<lambda>s'. refines s' ?a1 \<and> CurrentTask s' = CurrentTask s1
        \<and> length (Tasks s') = SchedMaxTasks)"
    proof (rule returns_weaken [OF sim_ready_remove [OF r1, of n]])
      fix s'
      assume x: "refines s' ?a1"
      show "refines s' ?a1 \<and> CurrentTask s' = CurrentTask s1 \<and> length (Tasks s') = SchedMaxTasks"
        using x refinesD(2,14) [OF x] r(2) q(1) by simp
    qed
    have requeue: "returns (case CurrentTask s1 of None \<Rightarrow> Some s2
          | Some p \<Rightarrow> if State (task s2 p) = TaskRunning
                      then ready_add p (set_task p (\<lambda>t. t\<lparr>State := TaskReady\<rparr>) s2) else Some s2)
          (\<lambda>s'. refines s' (arequeue ?a1))"
      if "refines s2 ?a1 \<and> CurrentTask s2 = CurrentTask s1 \<and> length (Tasks s2) = SchedMaxTasks" for s2
    proof -
      have "c \<notin> set (rq ?a1 @ bq ?a1 @ dq ?a1)" if "State (tab ?a1 ! c) = TaskRunning" for c
        using running_not_queued [OF ainvD(1) [OF inv]] that by (auto dest: in_set_remove1 notin_set_remove1)
      then show ?thesis
        using sim_requeue [of s2 ?a1] that r(2) len(2) by simp
    qed
    have disp: "refines (switch_tasks p n ((set_task n ?upd s3)
          \<lparr>CurrentTask := Some n, ContextSwitches := ContextSwitches s3 + 1\<rparr>)) (fst (ayield a))"
      if "refines s3 (arequeue ?a1)" for s3 p
    proof -
      have "refines (set_task n ?upd s3) (aset n ?upd (arequeue ?a1))"
        by (rule refines_set_task [OF that]) (simp_all add: erase_def)
      then show ?thesis
        using n refinesD(9) [OF that]
        by (intro refines_switch_tasks) (simp add: refines_def ayield_def adispatch_def)
    qed
    have "snd (ayield a)" using n by (simp add: ayield_def)
    with disp show ?thesis
      using n r(2,6) pick
      by (auto simp: SchedYield_def lk(1) Let_def set_task_def
          intro!: returns_bind [OF step] returns_bind [OF requeue])
  qed
qed

subsection \<open>Blocking, waking, sleeping\<close>

lemma SchedFind_sim:
  assumes "refines s a" and "ainv a"
  shows "SchedFind ident s = afind ident a"
  unfolding SchedFind_def afind_def
  by (rule find_cong_set) (use refines_current(1) [OF assms] refines_nth [OF assms(1)] in auto)

lemma sim_block:
  assumes "refines s a" and "ainv a" and "live a i"
    and "State (tab a ! i) \<noteq> TaskBlocked" and "State (tab a ! i) = TaskReady \<or> i \<notin> set (rq a)"
  shows "returns (do { s \<leftarrow> ready_remove i s;
                       blocked_add i (set_task i (\<lambda>t. t\<lparr>State := TaskBlocked\<rparr>) s) })
          (\<lambda>s'. refines s' (ablock i a))"
proof (rule returns_bind [OF sim_ready_remove [OF assms(1)]])
  let ?a1 = "a\<lparr>rq := remove1 i (rq a)\<rparr>"
  let ?a2 = "aset i (\<lambda>t. t\<lparr>State := TaskBlocked\<rparr>) ?a1"
  fix s1
  assume r1: "refines s1 ?a1"
  have r2: "refines (set_task i (\<lambda>t. t\<lparr>State := TaskBlocked\<rparr>) s1) ?a2"
    by (rule refines_set_task [OF r1]) (simp_all add: erase_def)
  note q = queues_okD [OF ainvD(1) [OF assms(2)]]
  have "i < length (Tasks (set_task i (\<lambda>t. t\<lparr>State := TaskBlocked\<rparr>) s1))"
    using refinesD(14) [OF r1] q(1) assms(3) by (simp add: set_task_def live_def)
  moreover have "i \<notin> set (rq ?a2 @ bq ?a2 @ dq ?a2)"
    using q(2,6) q(7) [of i] assms(3,4) by (auto simp: live_def)
  ultimately have "returns (blocked_add i (set_task i (\<lambda>t. t\<lparr>State := TaskBlocked\<rparr>) s1))
      (\<lambda>s'. refines s' (?a2\<lparr>bq := bq ?a2 @ [i]\<rparr>))"
    by (rule sim_blocked_add [OF r2])
  moreover have "?a2\<lparr>bq := bq ?a2 @ [i]\<rparr> = ablock i a"
    by (simp add: ablock_def)
  ultimately show "returns (blocked_add i (set_task i (\<lambda>t. t\<lparr>State := TaskBlocked\<rparr>) s1))
      (\<lambda>s'. refines s' (ablock i a))" by simp
qed

lemma SchedBlockTask_resume_sim:
  assumes "refines s a" and "ainv a" and "i < SchedMaxTasks" and "State (tab a ! i) = TaskBlocked"
  shows "returns (SchedBlockTask_resume i s) (\<lambda>s'. refines s' (aundo_block i a))"
proof -
  obtain w s1 where lk: "SchedLockIrq s = (w, s1)" "snd (SchedLockIrq s) = s1"
    by (rule SchedLockIrq_cases)
  have r1: "refines s1 a" using assms(1) by (simp add: lk(2) [symmetric] irq_simps)
  have st: "State (task s1 i) = TaskBlocked"
    using assms refines_current(1) [OF r1 assms(2)] refines_nth [OF r1] by simp
  have "refines (set_task i (\<lambda>t. t\<lparr>State := TaskRunning\<rparr>) s2) (aundo_block i a)"
    if r2: "refines s2 (a\<lparr>bq := remove1 i (bq a)\<rparr>)" for s2
  proof -
    have "refines (set_task i (\<lambda>t. t\<lparr>State := TaskRunning\<rparr>) s2)
        (aset i (\<lambda>t. t\<lparr>State := TaskRunning\<rparr>) (a\<lparr>bq := remove1 i (bq a)\<rparr>))"
      by (rule refines_set_task [OF r2]) (simp_all add: erase_def)
    then show ?thesis by (simp add: aundo_block_def)
  qed
  then show ?thesis
    using st by (simp add: SchedBlockTask_resume_def lk(1) irq_simps)
      (auto simp: irq_simps intro: returns_bind [OF sim_blocked_remove [OF r1]])
qed

text \<open>The rest of \<^verbatim>\<open>SchedBlockTask\<close> once the calling task is on the blocked queue.\<close>

lemma sim_block_self:
  assumes "refines s (ablock i a)" and "ainv (ablock i a)" and "i < length (tab a)"
    and "length (tab a) = SchedMaxTasks"
  shows "returns (do { (s, switched) \<leftarrow> SchedYield s;
              if switched then Some (s, True)
              else do { s \<leftarrow> SchedBlockTask_resume i s; Some (s, False) } })
    (\<lambda>(s', sw). refines s' (case ayield (ablock i a) of (a', True) \<Rightarrow> a' | (a', False) \<Rightarrow> aundo_block i a')
       \<and> sw = snd (ayield (ablock i a)))"
proof (rule returns_bind [OF SchedYield_sim [OF assms(1,2)]])
  let ?y = "ayield (ablock i a)"
  fix x
  assume x: "case x of (s', sw) \<Rightarrow> refines s' (fst ?y) \<and> sw = snd ?y"
  obtain s3 sw where xs: "x = (s3, sw)" by (cases x)
  have st: "State (tab (ablock i a) ! i) = TaskBlocked" using assms(3) by (simp add: ablock_def)
  show "returns (case x of (s, switched) \<Rightarrow> if switched then Some (s, True)
              else do { s \<leftarrow> SchedBlockTask_resume i s; Some (s, False) })
    (\<lambda>(s', sw). refines s' (case ?y of (a', True) \<Rightarrow> a' | (a', False) \<Rightarrow> aundo_block i a')
       \<and> sw = snd ?y)"
  proof (cases "snd ?y")
    case True
    with x xs show ?thesis by (auto split: prod.splits)
  next
    case False
    then have fy: "fst ?y = ablock i a" by (rule ayield_not_switched)
    have "returns (SchedBlockTask_resume i s3) (\<lambda>s'. refines s' (aundo_block i (ablock i a)))"
      using x xs fy assms(3,4) by (intro SchedBlockTask_resume_sim [OF _ assms(2) _ st]) simp_all
    moreover have "?y = (ablock i a, False)" using False fy by (cases ?y) simp
    ultimately show ?thesis using x xs by (auto simp: returns_def)
  qed
qed

lemma ablock_task_self:
  assumes "afind ident a = Some i" and "TaskId (tab a ! i) \<noteq> 0"
    and "State (tab a ! i) \<noteq> TaskBlocked" and "cur a = Some i"
  shows "ablock_task ident a =
    ((case ayield (ablock i a) of (a', True) \<Rightarrow> a' | (a', False) \<Rightarrow> aundo_block i a'),
     snd (ayield (ablock i a)))"
  using assms by (simp add: ablock_task_def split: prod.splits bool.splits)

lemma SchedBlockTask_sim:
  assumes "refines s a" and "ainv a"
  shows "returns (SchedBlockTask ident s)
    (\<lambda>(s', sw). refines s' (fst (ablock_task ident a)) \<and> sw = snd (ablock_task ident a))"
proof -
  obtain w s1 where lk: "SchedLockIrq s = (w, s1)" "snd (SchedLockIrq s) = s1"
    by (rule SchedLockIrq_cases)
  have r1: "refines s1 a" using assms(1) by (simp add: lk(2) [symmetric] irq_simps)
  note r = refinesD [OF r1]
  note q = queues_okD [OF ainvD(1) [OF assms(2)]]
  have find: "SchedFind ident s1 = afind ident a" using r1 assms(2) by (rule SchedFind_sim)
  show ?thesis
  proof (cases "afind ident a")
    case None
    then show ?thesis by (simp add: SchedBlockTask_def lk(1) find ablock_task_def irq_simps r1)
  next
    case (Some i)
    note lv = afind_live [OF Some]
    then have ib: "i < SchedMaxTasks" by (simp add: live_def)
    then have nth: "State (task s1 i) = State (tab a ! i)" "TaskId (task s1 i) = TaskId (tab a ! i)"
      using refines_nth [OF r1] refines_current(1) [OF r1 assms(2)] by simp_all
    show ?thesis
    proof (cases "TaskId (tab a ! i) = 0 \<or> State (tab a ! i) = TaskBlocked")
      case True
      with Some nth lv show ?thesis
        by (auto simp: SchedBlockTask_def lk(1) find ablock_task_def irq_simps r1)
    next
      case False
      then have i0: "i \<noteq> 0" using zero_id_idle [OF ainvD(3) [OF assms(2)]] lv by auto
      have inv: "ainv (ablock i a)" using assms(2) lv i0 False by (simp add: ablock_ainv)
      have rdy: "State (tab a ! i) = TaskReady \<or> i \<notin> set (rq a)" using q(5) by auto
      note block = sim_block [OF r1 assms(2) _ _ rdy]
      have run: "cur a \<noteq> Some i \<Longrightarrow> State (tab a ! i) \<noteq> TaskRunning"
        using ainvD(2) [OF assms(2)] ib by (auto simp: current_ok_def)
      have self: "refines s2 (ablock i a) \<Longrightarrow>
        returns (do { (s, switched) \<leftarrow> SchedYield (SchedUnlockIrq w s2);
              if switched then Some (s, True)
              else do { s \<leftarrow> SchedBlockTask_resume i s; Some (s, False) } })
          (\<lambda>(s', sw). refines s' (case ayield (ablock i a) of (a', True) \<Rightarrow> a' | (a', False) \<Rightarrow> aundo_block i a')
             \<and> sw = snd (ayield (ablock i a)))" for s2
        by (rule sim_block_self) (use inv ib q(1) in \<open>simp_all add: irq_simps\<close>)
      show ?thesis
      proof (cases "cur a = Some i")
        case True
        note at = ablock_task_self [OF Some _ _ True]
        have "returns (Option.bind (do { s \<leftarrow> ready_remove i s1;
                 blocked_add i (set_task i (\<lambda>t. t\<lparr>State := TaskBlocked\<rparr>) s) })
               (\<lambda>s. do { (s, switched) \<leftarrow> SchedYield (SchedUnlockIrq w s);
                if switched then Some (s, True)
                else do { s \<leftarrow> SchedBlockTask_resume i s; Some (s, False) } }))
            (\<lambda>(s', sw). refines s' (fst (ablock_task ident a)) \<and> sw = snd (ablock_task ident a))"
          using False lv by (intro returns_bind [OF block]) (simp_all add: at self)
        then show ?thesis
          using Some nth lv False True r(2) by (simp add: SchedBlockTask_def lk(1) find live_def)
      next
        case other: False
        have "returns (Option.bind (do { s \<leftarrow> ready_remove i s1;
                 blocked_add i (set_task i (\<lambda>t. t\<lparr>State := TaskBlocked\<rparr>) s) })
               (\<lambda>s. Some (SchedUnlockIrq w s, False)))
            (\<lambda>(s', sw). refines s' (ablock i a) \<and> sw = False)"
          using False lv by (intro returns_bind [OF block]) (simp_all add: irq_simps)
        moreover have "ablock_task ident a = (ablock i a, False)"
          using Some False other by (simp add: ablock_task_def)
        moreover have "State (tab a ! i) = TaskReady"
          using run [OF other] False lv by (cases "State (tab a ! i)") (simp_all add: live_def)
        ultimately show ?thesis
          using Some nth lv False other r(2) by (simp add: SchedBlockTask_def lk(1) find live_def)
      qed
    qed
  qed
qed

end
