(* ===== verification/Sched_Sim.thy ===== *)
theory Sched_Sim
  imports Sched_Refine
begin

text \<open>
  Refinement of the remaining scheduler operations: waking, sleeping, the sweep over expired
  sleepers, ending and creating tasks, the timer tick.
\<close>

subsection \<open>Waking\<close>

lemma sim_unblock:
  assumes "refines s a" and "queues_ok a" and "i \<in> set (bq a)"
  shows "returns (do { s \<leftarrow> blocked_remove i s;
                       ready_add i (set_task i (\<lambda>t. t\<lparr>State := TaskReady\<rparr>) s) })
          (\<lambda>s'. refines s' (aunblock i a))"
proof (rule returns_bind [OF sim_blocked_remove [OF assms(1)]])
  let ?a1 = "a\<lparr>bq := remove1 i (bq a)\<rparr>"
  let ?a2 = "aset i (\<lambda>t. t\<lparr>State := TaskReady\<rparr>) ?a1"
  fix s1
  assume r1: "refines s1 ?a1"
  have r2: "refines (set_task i (\<lambda>t. t\<lparr>State := TaskReady\<rparr>) s1) ?a2"
    by (rule refines_set_task [OF r1]) (simp_all add: erase_def)
  note q = queues_okD [OF assms(2)]
  have "i < length (Tasks (set_task i (\<lambda>t. t\<lparr>State := TaskReady\<rparr>) s1))"
    using refinesD(14) [OF r1] q(1) assms(3) q(6) by (simp add: set_task_def)
  moreover have "i \<notin> set (rq ?a2 @ bq ?a2 @ dq ?a2)"
    using q(3,5,6) q(7) [of i] assms(3) by auto
  ultimately have "returns (ready_add i (set_task i (\<lambda>t. t\<lparr>State := TaskReady\<rparr>) s1))
      (\<lambda>s'. refines s' (?a2\<lparr>rq := rq ?a2 @ [i]\<rparr>))"
    by (rule sim_ready_add [OF r2])
  moreover have "?a2\<lparr>rq := rq ?a2 @ [i]\<rparr> = aunblock i a"
    by (simp add: aunblock_def)
  ultimately show "returns (ready_add i (set_task i (\<lambda>t. t\<lparr>State := TaskReady\<rparr>) s1))
      (\<lambda>s'. refines s' (aunblock i a))" by simp
qed

lemma SchedUnblock_sim:
  assumes "refines s a" and "ainv a" and "i < SchedMaxTasks"
  shows "returns (SchedUnblock (Some i) s)
    (\<lambda>s'. refines s' (if State (tab a ! i) = TaskBlocked then aunblock i a else a))"
proof -
  obtain w s1 where lk: "SchedLockIrq s = (w, s1)" "snd (SchedLockIrq s) = s1"
    by (rule SchedLockIrq_cases)
  have r1: "refines s1 a" using assms(1) by (simp add: lk(2) [symmetric] irq_simps)
  have st: "State (task s i) = State (tab a ! i)"
    using refines_nth [OF assms(1)] refines_current(1) [OF assms(1,2)] assms(3) by simp
  show ?thesis
  proof (cases "State (tab a ! i) = TaskBlocked")
    case True
    then have "i \<in> set (bq a)" using queues_okD(6) [OF ainvD(1) [OF assms(2)]] assms(3) by simp
    from returns_bind [OF sim_unblock [OF r1 ainvD(1) [OF assms(2)] this],
        of "\<lambda>s. Some (SchedUnlockIrq w s)" "\<lambda>s'. refines s' (aunblock i a)"]
    show ?thesis using True st by (simp add: SchedUnblock_def lk(1) irq_simps)
  next
    case False
    with st assms(1) show ?thesis by (simp add: SchedUnblock_def)
  qed
qed

lemma SchedWakeTask_sim:
  assumes "refines s a" and "ainv a"
  shows "returns (SchedWakeTask ident s) (\<lambda>s'. refines s' (awake_task ident a))"
proof (cases "afind ident a")
  case None
  with SchedFind_sim [OF assms] assms(1) show ?thesis by (simp add: SchedWakeTask_def awake_task_def)
next
  case (Some i)
  then have "i < SchedMaxTasks" using afind_live by (simp add: live_def)
  from SchedUnblock_sim [OF assms this] Some show ?thesis
    by (simp add: SchedWakeTask_def awake_task_def SchedFind_sim [OF assms])
qed

subsection \<open>Sleeping and the sweep of the timer\<close>

lemma refines_wake_tick:
  "refines s a \<Longrightarrow> refines (set_task i (\<lambda>t. t\<lparr>WakeTick := w\<rparr>) s) (aset i (\<lambda>t. t\<lparr>WakeTick := w\<rparr>) a)"
  by (rule refines_set_task) (simp_all add: erase_def)

lemma sim_wake_one:
  assumes "refines s a" and "ainv a" and "i \<in> set (bq a)"
  shows "returns (do { s \<leftarrow> blocked_remove i (set_task i (\<lambda>t. t\<lparr>WakeTick := 0\<rparr>) s);
                       ready_add i (set_task i (\<lambda>t. t\<lparr>State := TaskReady\<rparr>) s) })
          (\<lambda>s'. refines s' (awake_one i a))"
  unfolding awake_one_def
  by (rule sim_unblock [OF refines_wake_tick [OF assms(1)] ainvD(1) [OF aset_ainv [OF assms(2)]]])
    (simp_all add: assms(3))

lemma task_list_next:
  "task_list ts q (pre @ i # ys) \<Longrightarrow> Next (ts ! i) = head_option ys"
  by (auto simp: task_path_append dest: task_list_head)

lemma awake_one_expired:
  assumes "i \<noteq> j" and "j < length (tab a)"
  shows "expired now (tab (awake_one i a) ! j) = expired now (tab a ! j)"
  using assms by (simp add: awake_one_def aunblock_def)

lemma wake_walk_sim:
  assumes "refines s a" and "ainv a" and "bq a = pre @ ys"
  shows "returns (wake_walk now (head_option ys) woken s)
    (\<lambda>(w, s'). w = woken + of_nat (length (filter (\<lambda>i. expired now (tab a ! i)) ys)) \<and>
       refines s' (fold awake_one (filter (\<lambda>i. expired now (tab a ! i)) ys) a))"
  using assms
proof (induction ys arbitrary: s a pre woken)
  case Nil
  then show ?case by (simp add: head_option_def wake_walk.simps)
next
  case (Cons i ys)
  note q = queues_okD [OF ainvD(1) [OF Cons.prems(2)]]
  have ib: "i < SchedMaxTasks" using q(6) Cons.prems(3) by auto
  have nxt: "Next (task s i) = head_option ys"
    using refinesD(11) [OF Cons.prems(1)] Cons.prems(3) by (auto intro: task_list_next)
  have ex: "expired now (task s i) = expired now (tab a ! i)"
    using refines_nth [OF Cons.prems(1)] refines_current(1) [OF Cons.prems(1,2)] ib
    by (simp add: expired_def)
  show ?case
  proof (cases "expired now (tab a ! i)")
    case False
    with Cons.IH [OF Cons.prems(1,2), of "pre @ [i]" woken] Cons.prems(3) nxt ex show ?thesis
      by (simp add: head_option_def wake_walk.simps [of _ "Some i"] Let_def)
  next
    case True
    let ?a = "awake_one i a"
    have inv: "ainv ?a" using Cons.prems by (auto intro: awake_one_ainv)
    have iys: "i \<notin> set pre" "i \<notin> set ys" using q(3) Cons.prems(3) by auto
    then have bq: "bq ?a = pre @ ys" using Cons.prems(3) by (simp add: awake_one_bq remove1_split)
    have filt: "filter (\<lambda>j. expired now (tab ?a ! j)) ys = filter (\<lambda>j. expired now (tab a ! j)) ys"
    proof (rule filter_cong [OF refl])
      fix j
      assume "j \<in> set ys"
      then have "i \<noteq> j" "j < length (tab a)" using iys q(1,6) Cons.prems(3) by auto
      then show "expired now (tab ?a ! j) = expired now (tab a ! j)" by (rule awake_one_expired)
    qed
    have "returns (do { s \<leftarrow> do { s \<leftarrow> blocked_remove i (set_task i (\<lambda>t. t\<lparr>WakeTick := 0\<rparr>) s);
                 ready_add i (set_task i (\<lambda>t. t\<lparr>State := TaskReady\<rparr>) s) };
               wake_walk now (head_option ys) (woken + 1) s })
     (\<lambda>(w, s'). w = woken + 1 + of_nat (length (filter (\<lambda>i. expired now (tab a ! i)) ys)) \<and>
       refines s' (fold awake_one (filter (\<lambda>i. expired now (tab a ! i)) ys) ?a))"
      by (rule returns_bind [OF sim_wake_one [OF Cons.prems(1,2)]])
        (use Cons.prems(3) Cons.IH [OF _ inv bq, of _ "woken + 1"] filt in auto)
    with True ex nxt show ?thesis
      by (simp add: head_option_def wake_walk.simps [of _ "Some i"] Let_def add.assoc)
  qed
qed

lemma SchedWakeExpired_sim:
  assumes "refines s a" and "ainv a"
  shows "returns (SchedWakeExpired now s)
    (\<lambda>(w, s'). w = of_nat (length (filter (\<lambda>i. expired now (tab a ! i)) (bq a))) \<and>
       refines s' (awake_expired now a))"
proof -
  obtain w s1 where lk: "SchedLockIrq s = (w, s1)" "snd (SchedLockIrq s) = s1"
    by (rule SchedLockIrq_cases)
  have r1: "refines s1 a" using assms(1) by (simp add: lk(2) [symmetric] irq_simps)
  have "BlockedQueue s1 = head_option (bq a)"
    using refinesD(11) [OF r1] by (rule task_list_head)
  with wake_walk_sim [OF r1 assms(2), of "[]" "bq a" now 0] show ?thesis
    by (auto simp: SchedWakeExpired_def lk(1) awake_expired_def irq_simps returns_def)
qed

lemma SchedHasRunnable_sim:
  assumes "refines s a"
  shows "returns (SchedHasRunnable s) (\<lambda>(r, s'). r = (\<exists>i \<in> set (rq a). cur a \<noteq> Some i) \<and> refines s' a)"
proof -
  obtain w s1 where lk: "SchedLockIrq s = (w, s1)" "snd (SchedLockIrq s) = s1"
    by (rule SchedLockIrq_cases)
  have r1: "refines s1 a" using assms(1) by (simp add: lk(2) [symmetric] irq_simps)
  show ?thesis
    using runnable_walk_list [OF refinesD(10) [OF r1]] refinesD(2) [OF r1] r1
    by (simp add: SchedHasRunnable_def lk(1) irq_simps)
qed

definition asleep_until :: "u32 \<Rightarrow> aspec \<Rightarrow> aspec \<times> bool" where
  "asleep_until wake a =
     (case cur a of
        None \<Rightarrow> (a, False)
      | Some i \<Rightarrow>
          if TaskId (tab a ! i) = 0 then (a, False)
          else
            (case ablock_task (TaskId (tab a ! i)) (aset i (\<lambda>t. t\<lparr>WakeTick := wake\<rparr>) a) of
               (a', True) \<Rightarrow> (a', True)
             | (a', False) \<Rightarrow> (aset i (\<lambda>t. t\<lparr>WakeTick := 0\<rparr>) a', False)))"

lemma SchedSleepUntil_sim:
  assumes "refines s a" and "ainv a"
  shows "returns (SchedSleepUntil wake s)
    (\<lambda>(s', sw). refines s' (fst (asleep_until wake a)) \<and> sw = snd (asleep_until wake a))"
proof (cases "\<exists>i. cur a = Some i \<and> TaskId (tab a ! i) \<noteq> 0")
  case False
  have "TaskId (task s i) = TaskId (tab a ! i)" if "cur a = Some i" for i
    using that refines_current [OF assms] refines_nth [OF assms(1)] refinesD(2) [OF assms(1)] by simp
  with False assms(1) refinesD(2) [OF assms(1)] show ?thesis
    by (auto simp: SchedSleepUntil_def asleep_until_def split: option.splits)
next
  case True
  then obtain i where i: "cur a = Some i" "TaskId (tab a ! i) \<noteq> 0" by blast
  let ?a = "aset i (\<lambda>t. t\<lparr>WakeTick := wake\<rparr>) a"
  let ?s = "set_task i (\<lambda>t. t\<lparr>WakeTick := wake\<rparr>) s"
  have c: "CurrentTask s = Some i" using i(1) refinesD(2) [OF assms(1)] by simp
  then have ib: "i < length (Tasks s)" using refines_current [OF assms] by simp
  have ti: "TaskId (task s i) = TaskId (tab a ! i)" "TaskId (task ?s i) = TaskId (tab a ! i)"
    using refines_nth [OF assms(1) ib] ib by (simp_all add: set_task_def)
  have inv: "ainv ?a" using assms(2) by (simp add: aset_ainv)
  have "returns (do { (s, switched) \<leftarrow> SchedBlockTask (TaskId (task ?s i)) ?s;
            if switched then Some (s, True) else Some (SchedSleepUntil_resume i s, False) })
     (\<lambda>(s', sw). refines s' (fst (asleep_until wake a)) \<and> sw = snd (asleep_until wake a))"
    by (rule returns_bind [OF SchedBlockTask_sim [OF refines_wake_tick [OF assms(1)] inv]])
      (use i ti in \<open>auto simp: asleep_until_def SchedSleepUntil_resume_def refines_wake_tick
          split: prod.splits bool.splits\<close>)
  with i c ti show ?thesis by (simp add: SchedSleepUntil_def)
qed

subsection \<open>Ending a task\<close>

lemma sim_bury:
  assumes "refines s a" and "ainv a" and "live a i"
  shows "returns (bury i s) (\<lambda>s'. refines s' (abury i a))"
  unfolding bury_def
proof (rule returns_bind [OF sim_ready_remove [OF assms(1)]],
       rule returns_bind [OF sim_blocked_remove], assumption)
  let ?a2 = "a\<lparr>rq := remove1 i (rq a), bq := remove1 i (bq a)\<rparr>"
  let ?a3 = "aset i SchedResetTask ?a2"
  note q = queues_okD [OF ainvD(1) [OF assms(2)]]
  fix s1 s2
  assume "refines s2 (a\<lparr>rq := remove1 i (rq a)\<rparr>\<lparr>bq := remove1 i (bq (a\<lparr>rq := remove1 i (rq a)\<rparr>))\<rparr>)"
  then have r2: "refines s2 ?a2" by simp
  have nq: "i \<notin> set (rq ?a2 @ bq ?a2 @ dq ?a2)"
    using q(2,3) q(7) [of i] assms(3) by (auto simp: live_def)
  have r3: "refines (set_task i SchedResetTask s2) ?a3"
    by (rule refines_set_task [OF r2]) (use nq in \<open>simp_all add: erase_def SchedResetTask_def\<close>)
  have ib: "i < length (Tasks (set_task i SchedResetTask s2))"
    using refinesD(14) [OF r3] q(1) assms(3) by (simp add: live_def)
  have "returns (dead_add i (set_task i SchedResetTask s2)) (\<lambda>s'. refines s' (?a3\<lparr>dq := dq ?a3 @ [i]\<rparr>))"
    using nq by (intro sim_dead_add [OF r3 ib]) simp
  then show "returns (do { s \<leftarrow> dead_add i (set_task i SchedResetTask s2);
        Some (if TaskCountValue s > 0 then s\<lparr>TaskCountValue := TaskCountValue s - 1\<rparr> else s) })
      (\<lambda>s'. refines s' (abury i a))"
  proof (rule returns_bind)
    fix s4
    assume r4: "refines s4 (?a3\<lparr>dq := dq ?a3 @ [i]\<rparr>)"
    then show "returns (Some (if TaskCountValue s4 > 0
          then s4\<lparr>TaskCountValue := TaskCountValue s4 - 1\<rparr> else s4)) (\<lambda>s'. refines s' (abury i a))"
      using refinesD(4) [OF r4] by (simp add: refines_def abury_def)
  qed
qed

text \<open>The fallback of \<^verbatim>\<open>SchedExit\<close>: when no task was picked, the idle task is made current.\<close>

lemma sim_exit_fallback:
  assumes "refines s a"
  shows "refines (if CurrentTask s = None
      then set_task 0 (\<lambda>t. t\<lparr>State := TaskRunning\<rparr>) (s\<lparr>CurrentTask := Some 0\<rparr>) else s)
    (if cur a = None then aset 0 (\<lambda>t. t\<lparr>State := TaskRunning\<rparr>) (a\<lparr>cur := Some 0\<rparr>) else a)"
proof -
  have "refines (s\<lparr>CurrentTask := Some 0\<rparr>) (a\<lparr>cur := Some 0\<rparr>)" using assms by (simp add: refines_def)
  from refines_set_task [OF this, of "\<lambda>t. t\<lparr>State := TaskRunning\<rparr>" "\<lambda>t. t\<lparr>State := TaskRunning\<rparr>" 0]
  show ?thesis using assms refinesD(2) [OF assms] by (simp add: erase_def)
qed

lemma sim_exit_yield:
  assumes "refines s ((abury i a)\<lparr>cur := None\<rparr>)" and "ainv ((abury i a)\<lparr>cur := None\<rparr>)"
    and "cur a = Some i" and "TaskId (tab a ! i) \<noteq> 0"
  shows "returns (do { (s, switched) \<leftarrow> SchedYield s;
       if switched then Some (s, True)
       else Some (if CurrentTask s = None
                  then set_task 0 (\<lambda>t. t\<lparr>State := TaskRunning\<rparr>) (s\<lparr>CurrentTask := Some 0\<rparr>)
                  else s, False) })
     (\<lambda>(s', sw). refines s' (fst (aexit a)) \<and> sw = snd (aexit a))"
proof (rule returns_bind [OF SchedYield_sim [OF assms(1,2)]], goal_cases)
  case (1 x)
  let ?b = "(abury i a)\<lparr>cur := None\<rparr>"
  obtain s' where x: "x = (s', snd (ayield ?b))" and r: "refines s' (fst (ayield ?b))"
    using 1 by (cases x) simp
  show ?case
  proof (cases "snd (ayield ?b)")
    case True
    then have "aexit a = (fst (ayield ?b), True)"
      using assms(3,4) by (cases "ayield ?b") (simp add: aexit_def)
    with True r show ?thesis by (simp add: x)
  next
    case False
    then have "aexit a = (if cur (fst (ayield ?b)) = None
        then aset 0 (\<lambda>t. t\<lparr>State := TaskRunning\<rparr>) ((fst (ayield ?b))\<lparr>cur := Some 0\<rparr>)
        else fst (ayield ?b), False)"
      using assms(3,4) by (cases "ayield ?b") (simp add: aexit_def)
    with False sim_exit_fallback [OF r] show ?thesis by (simp add: x)
  qed
qed

lemma SchedExit_sim:
  assumes "refines s a" and "ainv a"
  shows "returns (SchedExit s) (\<lambda>(s', sw). refines s' (fst (aexit a)) \<and> sw = snd (aexit a))"
proof (cases "\<exists>i. cur a = Some i \<and> TaskId (tab a ! i) \<noteq> 0")
  case False
  have "TaskId (task s i) = TaskId (tab a ! i)" if "cur a = Some i" for i
    using that refines_current [OF assms] refines_nth [OF assms(1)] refinesD(2) [OF assms(1)] by simp
  with False assms(1) refinesD(2) [OF assms(1)] show ?thesis
    by (auto simp: SchedExit_def aexit_def split: option.splits)
next
  case True
  then obtain i where i: "cur a = Some i" "TaskId (tab a ! i) \<noteq> 0" by blast
  obtain w s1 where lk: "SchedLockIrq s = (w, s1)" "snd (SchedLockIrq s) = s1"
    by (rule SchedLockIrq_cases)
  have r1: "refines s1 a" using assms(1) by (simp add: lk(2) [symmetric] irq_simps)
  have c: "CurrentTask s = Some i" using i(1) refinesD(2) [OF assms(1)] by simp
  then have ti: "TaskId (task s i) \<noteq> 0"
    using refines_current [OF assms] refines_nth [OF assms(1)] i(2) by simp
  have lv: "live a i" using ainvD(2) [OF assms(2)] i(1) by (simp add: current_ok_def)
  have i0: "i \<noteq> 0" using i(2) zero_id_idle [OF ainvD(3) [OF assms(2)] lv] by simp
  have inv: "ainv ((abury i a)\<lparr>cur := None\<rparr>)" using abury_ainv [OF assms(2) lv i0] i(1) by simp
  have unlock: "refines (SchedUnlockIrq w (s2\<lparr>CurrentTask := None\<rparr>)) ((abury i a)\<lparr>cur := None\<rparr>)"
    if "refines s2 (abury i a)" for s2
    using that by (simp add: irq_simps) (simp add: refines_def)
  show ?thesis
    using c ti
    by (simp add: SchedExit_def lk(1) returns_bind [OF sim_bury [OF r1 assms(2) lv]
          sim_exit_yield [OF unlock inv i]])
qed

lemma SchedKill_sim:
  assumes "refines s a" and "ainv a"
  shows "returns (SchedKill ident s) (\<lambda>(s', sw). refines s' (fst (akill ident a)) \<and> sw = snd (akill ident a))"
proof -
  obtain w s1 where lk: "SchedLockIrq s = (w, s1)" "snd (SchedLockIrq s) = s1"
    by (rule SchedLockIrq_cases)
  have r1: "refines s1 a" using assms(1) by (simp add: lk(2) [symmetric] irq_simps)
  have me: "(case CurrentTask s of None \<Rightarrow> False | Some c \<Rightarrow> TaskId (task s c) = ident) \<longleftrightarrow>
      (case cur a of None \<Rightarrow> False | Some c \<Rightarrow> TaskId (tab a ! c) = ident)"
    using refines_current [OF assms] refines_nth [OF assms(1)] refinesD(2) [OF assms(1)]
    by (cases "CurrentTask s") simp_all
  have fnd: "SchedFind ident s1 = afind ident a"
    using SchedFind_sim [OF r1] assms(2) by simp
  have other: "returns (do { s \<leftarrow> bury i s1; Some (SchedUnlockIrq w s, False) })
      (\<lambda>(s', sw). refines s' (abury i a) \<and> sw = False)" if "live a i" for i
    by (rule returns_bind [OF sim_bury [OF r1 assms(2) that]]) (simp add: irq_simps)
  show ?thesis
  proof (cases "ident = 0 \<or> (case cur a of None \<Rightarrow> False | Some c \<Rightarrow> TaskId (tab a ! c) = ident)")
    case True
    with me SchedExit_sim [OF assms] assms(1) show ?thesis
      by (auto simp: SchedKill_def akill_def)
  next
    case False
    show ?thesis
    proof (cases "afind ident a")
      case None
      with False me fnd r1 show ?thesis by (simp add: SchedKill_def akill_def lk(1) irq_simps)
    next
      case (Some i)
      note lv = afind_live [OF Some]
      have "TaskId (task s1 i) = TaskId (tab a ! i)"
        using refines_nth [OF r1, of i] refinesD(14) [OF r1] queues_okD(1) [OF ainvD(1) [OF assms(2)]] lv
        by (simp add: live_def)
      with False me fnd Some lv other [of i] show ?thesis
        by (simp add: SchedKill_def akill_def lk(1))
    qed
  qed
qed

subsection \<open>Creating a task\<close>

text \<open>
  The fields \<^verbatim>\<open>SchedCreate\<close> fills in, once slot \<open>i\<close> is off the queue of dead tasks and has
  its identifier.
\<close>

lemma sim_fill_slot:
  fixes nm entry stacktop sp
  defines "fill \<equiv> \<lambda>parent t. t\<lparr>ParentId := parent, Esp := sp, Eip := entry, Ebp := stacktop - 32,
      Priority := 1, TimeSlice := 10, TimeUsed := 0, Runtime := 0, Switches := 0,
      State := TaskReady, Name := copy_name 0 nm (Name t)\<rparr>"
  assumes "refines s ((aset i (\<lambda>t. t\<lparr>TaskId := nid a\<rparr>) (a\<lparr>dq := remove1 i (dq a)\<rparr>))\<lparr>nid := nid a + 1\<rparr>)"
    (is "refines s ?a1") and "ainv a" and "i < SchedMaxTasks" and "State (tab a ! i) = TaskDead"
  shows "returns (ready_add i
      (set_task i (fill (case CurrentTask s of None \<Rightarrow> 0 | Some c \<Rightarrow> TaskId (task s c))) s))
     (\<lambda>s'. refines (s'\<lparr>TaskCountValue := TaskCountValue s' + 1\<rparr>) (acreate_at i nm entry stacktop a))"
proof -
  let ?par = "case CurrentTask s of None \<Rightarrow> 0 | Some c \<Rightarrow> TaskId (task s c)"
  note q = queues_okD [OF ainvD(1) [OF assms(3)]]
  have par: "?par = (case cur a of None \<Rightarrow> 0 | Some c \<Rightarrow> TaskId (tab a ! c))"
  proof (cases "cur a")
    case (Some c)
    then have "live a c" using ainvD(2) [OF assms(3)] by (simp add: current_ok_def)
    then have "c < length (Tasks s)" "c \<noteq> i"
      using refinesD(14) [OF assms(2)] q(1) assms(5) by (auto simp: live_def)
    then have "TaskId (task s c) = TaskId (tab a ! c)"
      using refines_nth [OF assms(2), of c] by (simp split: if_splits)
    moreover have "CurrentTask s = Some c" using Some refinesD(2) [OF assms(2)] by simp
    ultimately show ?thesis using Some by simp
  qed (use refinesD(2) [OF assms(2)] in simp)
  have nq: "i \<notin> set (rq ?a1 @ bq ?a1 @ dq ?a1)" using q assms(5) by auto
  let ?a2 = "aset i (\<lambda>t. t\<lparr>ParentId := ?par, Eip := entry, Ebp := stacktop - 32,
      Priority := 1, TimeSlice := 10, TimeUsed := 0, Runtime := 0, Switches := 0,
      State := TaskReady, Name := copy_name 0 nm (Name t)\<rparr>) ?a1"
  have r2: "refines (set_task i (fill ?par) s) ?a2"
    by (rule refines_set_task [OF assms(2)]) (simp_all add: erase_def fill_def)
  have ib: "i < length (Tasks (set_task i (fill ?par) s))"
    using refinesD(14) [OF r2] q(1) assms(4) by simp
  have eq: "?a2\<lparr>rq := rq ?a2 @ [i]\<rparr>\<lparr>cnt := cnt a + 1\<rparr> = acreate_at i nm entry stacktop a"
    using par by (cases "i < length (tab a)")
      (simp_all add: acreate_at_def aset_def upd_task_def list_update_beyond)
  have "returns (ready_add i (set_task i (fill ?par) s)) (\<lambda>s'. refines s' (?a2\<lparr>rq := rq ?a2 @ [i]\<rparr>))"
    using nq by (intro sim_ready_add [OF r2 ib]) simp
  then show ?thesis
    by (rule returns_weaken) (simp add: eq [symmetric], simp add: refines_def)
qed

lemma sim_create_id:
  assumes "refines s b" and "nid b = k"
  shows "refines (set_task i (\<lambda>t. t\<lparr>TaskId := NextTaskId s\<rparr>) s\<lparr>NextTaskId := NextTaskId s + 1\<rparr>)
     ((aset i (\<lambda>t. t\<lparr>TaskId := k\<rparr>) b)\<lparr>nid := k + 1\<rparr>)"
proof -
  have "refines (set_task i (\<lambda>t. t\<lparr>TaskId := NextTaskId s\<rparr>) s) (aset i (\<lambda>t. t\<lparr>TaskId := k\<rparr>) b)"
    by (rule refines_set_task [OF assms(1)])
      (use refinesD(5) [OF assms(1)] assms(2) in \<open>simp_all add: erase_def\<close>)
  then show ?thesis using refinesD(5) [OF assms(1)] assms(2) by (simp add: refines_def)
qed

lemma SchedCreate_sim:
  assumes "refines s a" and "ainv a"
  shows "returns (SchedCreate stub (Some nm) entry stacktop s)
    (\<lambda>(r, s'). r = fst (acreate nm entry stacktop a) \<and> refines s' (snd (acreate nm entry stacktop a)))"
proof -
  obtain w s1 where lk: "SchedLockIrq s = (w, s1)" "snd (SchedLockIrq s) = s1"
    by (rule SchedLockIrq_cases)
  have r1: "refines s1 a" using assms(1) by (simp add: lk(2) [symmetric] irq_simps)
  have fnd: "find (\<lambda>i. State (task s1 i) = TaskDead) [0..<SchedMaxTasks] =
      find (\<lambda>i. State (tab a ! i) = TaskDead) [0..<SchedMaxTasks]"
    by (rule find_cong_set) (use refines_nth [OF r1] refines_current(1) [OF r1 assms(2)] in auto)
  show ?thesis
  proof (cases "cnt a \<ge> of_nat SchedMaxTasks")
    case True
    with refinesD(4) [OF assms(1)] assms(1) show ?thesis by (simp add: SchedCreate_def acreate_def)
  next
    case False
    then have cnt: "\<not> TaskCountValue s \<ge> of_nat SchedMaxTasks"
      using refinesD(4) [OF assms(1)] by simp
    show ?thesis
    proof (cases "find (\<lambda>i. State (tab a ! i) = TaskDead) [0..<SchedMaxTasks]")
      case None
      with False cnt fnd r1 show ?thesis by (simp add: SchedCreate_def acreate_def lk(1) irq_simps)
    next
      case (Some i)
      then have i: "i < SchedMaxTasks" "State (tab a ! i) = TaskDead" by (auto simp: find_Some_iff)
      have "returns (SchedCreate_slot stub nm entry stacktop i s1)
          (\<lambda>s'. refines s' (acreate_at i nm entry stacktop a))"
        unfolding SchedCreate_slot_def
      proof (rule returns_bind [OF sim_dead_remove [OF r1]], goal_cases)
        case (1 x)
        obtain sp m where st: "SchedInitStack stub entry stacktop (snd (Machine x)) = (sp, m)"
          by fastforce
        then have sp: "sp = stacktop - 32" using SchedInitStack_esp by (metis fst_conv)
        let ?x = "set_task i (\<lambda>t. t\<lparr>TaskId := NextTaskId x\<rparr>) x\<lparr>NextTaskId := NextTaskId x + 1\<rparr>
            \<lparr>Machine := (fst (Machine x), m)\<rparr>"
        have r: "refines ?x ((aset i (\<lambda>t. t\<lparr>TaskId := nid a\<rparr>) (a\<lparr>dq := remove1 i (dq a)\<rparr>))
            \<lparr>nid := nid a + 1\<rparr>)"
          using sim_create_id [OF 1, of "nid a" i] by (simp only: refines_machine) simp
        have "Machine (set_task i f x) = Machine x" for f by (simp add: set_task_def)
        with returns_bind [OF sim_fill_slot [OF r assms(2) i, where nm = nm and entry = entry
              and stacktop = stacktop and sp = "stacktop - 32"],
            where f = "\<lambda>s'. Some (s'\<lparr>TaskCountValue := TaskCountValue s' + 1\<rparr>)"
              and Q = "\<lambda>s'. refines s' (acreate_at i nm entry stacktop a)"]
        show ?case by (simp add: Let_def st sp cong: option.case_cong)
      qed
      then show ?thesis
        using False cnt
        by (simp add: SchedCreate_def acreate_def lk(1) fnd Some returns_bind irq_simps)
    qed
  qed
qed

end
