(* ===== verification/Sched_Run.thy ===== *)
theory Sched_Run
  imports Sched_Sim
begin

text \<open>
  Runs of the scheduler. The remaining operations of \<^verbatim>\<open>src/kernel/sched.c\<close> (the tick, the
  preemption of the interrupt epilogue, the setters, the lock counter, initialisation) are
  related to the abstract scheduler, every entry point of the interface becomes a value of
  the datatype \<open>sched_call\<close>, and \<open>reachable\<close> is the inductive set of the states that
  \<^verbatim>\<open>SchedInit\<close> followed by any sequence of calls can produce. The invariant of \<^verbatim>\<open>Sched_Spec\<close>
  holds in each of them, and each call returns.
\<close>

definition sched_inv :: "sched \<Rightarrow> bool" where
  "sched_inv s \<longleftrightarrow> (\<exists>a. refines s a \<and> ainv a)"

lemma sched_invI: "refines s a \<Longrightarrow> ainv a \<Longrightarrow> sched_inv s"
  by (auto simp: sched_inv_def)

subsection \<open>Ticks and preemption\<close>

definition atick :: "aspec \<Rightarrow> aspec" where
  "atick a =
     (if lck a \<noteq> 0 then a
      else
        (let a = a\<lparr>ticks := ticks a + 1\<rparr> in
         case cur a of
           None \<Rightarrow> a
         | Some c \<Rightarrow>
             (let a = aset c (\<lambda>t. t\<lparr>Runtime := Runtime t + 1, TimeUsed := TimeUsed t + 1\<rparr>) a in
              if TimeUsed (tab a ! c) \<ge> TimeSlice (tab a ! c)
              then (aset c (\<lambda>t. t\<lparr>TimeUsed := 0\<rparr>) a)\<lparr>pend := True\<rparr>
              else a)))"

lemma ainv_frame [simp]:
  "ainv (a\<lparr>ticks := x\<rparr>) \<longleftrightarrow> ainv a" "ainv (a\<lparr>pend := b\<rparr>) \<longleftrightarrow> ainv a" "ainv (a\<lparr>lck := x\<rparr>) \<longleftrightarrow> ainv a"
  "ainv (a\<lparr>pol := p\<rparr>) \<longleftrightarrow> ainv a"
  by (simp_all add: ainv_def queues_ok_def current_ok_def ids_ok_def count_ok_def live_def)

lemma atick_ainv: "ainv a \<Longrightarrow> ainv (atick a)"
  by (simp add: atick_def Let_def aset_ainv split: option.split)

lemma SchedTick_sim:
  assumes "refines s a" and "ainv a"
  shows "refines (SchedTick True s) (atick a)"
proof (cases "lck a = 0 \<and> (\<exists>c. cur a = Some c)")
  case False
  with refinesD(2,6,8) [OF assms(1)] assms(1) show ?thesis
    by (auto simp: SchedTick_def atick_def refines_def Let_def)
next
  case True
  then obtain c where c: "cur a = Some c" by blast
  then have cs: "CurrentTask s = Some c" using refinesD(2) [OF assms(1)] by simp
  have cb: "c < length (Tasks s)" using refines_current [OF assms] cs by simp
  let ?f = "\<lambda>t. t\<lparr>Runtime := Runtime t + 1, TimeUsed := TimeUsed t + 1\<rparr>"
  let ?s = "set_task c ?f (s\<lparr>SchedulerTicks := SchedulerTicks s + 1\<rparr>)"
  let ?a = "aset c ?f (a\<lparr>ticks := ticks a + 1\<rparr>)"
  have "refines (s\<lparr>SchedulerTicks := SchedulerTicks s + 1\<rparr>) (a\<lparr>ticks := ticks a + 1\<rparr>)"
    using assms(1) by (simp add: refines_def)
  then have r: "refines ?s ?a" by (rule refines_set_task) (simp_all add: erase_def)
  then have r2: "refines (set_task c (\<lambda>t. t\<lparr>TimeUsed := 0\<rparr>) ?s) (aset c (\<lambda>t. t\<lparr>TimeUsed := 0\<rparr>) ?a)"
    by (rule refines_set_task) (simp_all add: erase_def)
  then have r3: "refines ((set_task c (\<lambda>t. t\<lparr>TimeUsed := 0\<rparr>) ?s)\<lparr>PreemptPending := True\<rparr>)
      ((aset c (\<lambda>t. t\<lparr>TimeUsed := 0\<rparr>) ?a)\<lparr>pend := True\<rparr>)"
    by (simp add: refines_def)
  have "c < length (Tasks ?s)" using cb by (simp add: set_task_def)
  from refines_nth [OF r this]
  have eq: "TimeUsed (tab ?a ! c) = TimeUsed (task ?s c)" "TimeSlice (tab ?a ! c) = TimeSlice (task ?s c)"
    by simp_all
  have "SchedTick True s = (if TimeUsed (task ?s c) \<ge> TimeSlice (task ?s c)
      then (set_task c (\<lambda>t. t\<lparr>TimeUsed := 0\<rparr>) ?s)\<lparr>PreemptPending := True\<rparr> else ?s)"
    using True cs refinesD(6) [OF assms(1)] by (simp add: SchedTick_def Let_def)
  moreover have "atick a = (if TimeUsed (tab ?a ! c) \<ge> TimeSlice (tab ?a ! c)
      then (aset c (\<lambda>t. t\<lparr>TimeUsed := 0\<rparr>) ?a)\<lparr>pend := True\<rparr> else ?a)"
    using True c by (simp add: atick_def Let_def)
  ultimately show ?thesis using r r3 eq by presburger
qed

definition apreempt :: "aspec \<Rightarrow> aspec \<times> bool" where
  "apreempt a = (if \<not> pend a \<or> lck a \<noteq> 0 then (a, False) else ayield (a\<lparr>pend := False\<rparr>))"

lemma SchedPreempt_sim:
  assumes "refines s a" and "ainv a"
  shows "returns (SchedPreempt s) (\<lambda>(s', sw). refines s' (fst (apreempt a)) \<and> sw = snd (apreempt a))"
proof -
  have "refines (s\<lparr>PreemptPending := False\<rparr>) (a\<lparr>pend := False\<rparr>)"
    using assms(1) by (simp add: refines_def)
  from SchedYield_sim [OF this] assms refinesD(6,7) [OF assms(1)] show ?thesis
    by (simp add: SchedPreempt_def apreempt_def)
qed

definition ablock_self :: "aspec \<Rightarrow> aspec \<times> bool" where
  "ablock_self a =
     (case cur a of
        None \<Rightarrow> (a, False)
      | Some c \<Rightarrow> if TaskId (tab a ! c) = 0 then (a, False) else ablock_task (TaskId (tab a ! c)) a)"

lemma SchedBlock_sim:
  assumes "refines s a" and "ainv a"
  shows "returns (SchedBlock s) (\<lambda>(s', sw). refines s' (fst (ablock_self a)) \<and> sw = snd (ablock_self a))"
proof (cases "CurrentTask s")
  case None
  with refinesD(2) [OF assms(1)] assms(1) show ?thesis by (simp add: SchedBlock_def ablock_self_def)
next
  case (Some c)
  then have "TaskId (tab a ! c) = TaskId (task s c)"
    using refines_current [OF assms] refines_nth [OF assms(1)] by simp
  with Some refinesD(2) [OF assms(1)] SchedBlockTask_sim [OF assms] assms(1) show ?thesis
    by (simp add: SchedBlock_def ablock_self_def)
qed

subsection \<open>Setters, lock counter and statistics\<close>

lemma SchedSetPolicy_sim:
  "refines s a \<Longrightarrow> refines (SchedSetPolicy p s) (if p \<noteq> 0 \<and> p \<noteq> 1 then a
     else a\<lparr>pol := (if p = 0 then SchedRoundRobin else SchedPriority)\<rparr>)"
  by (simp add: SchedSetPolicy_def refines_def)

lemma SchedSetPriority_sim:
  assumes "refines s a" and "i < length (Tasks s)"
  shows "refines (SchedSetPriority (Some i) p s) (if State (tab a ! i) = TaskDead then a
     else aset i (\<lambda>t. t\<lparr>Priority := (if p > 255 then 255 else p)\<rparr>) a)"
proof -
  have "refines (set_task i (\<lambda>t. t\<lparr>Priority := (if p > 255 then 255 else p)\<rparr>) s)
      (aset i (\<lambda>t. t\<lparr>Priority := (if p > 255 then 255 else p)\<rparr>) a)"
    by (rule refines_set_task [OF assms(1)]) (simp_all add: erase_def)
  with assms refines_nth [OF assms] show ?thesis by (simp add: SchedSetPriority_def)
qed

lemma SchedLock_sim: "refines s a \<Longrightarrow> refines (SchedLock s) (a\<lparr>lck := lck a + 1\<rparr>)"
  by (simp add: SchedLock_def refines_def)

lemma SchedUnlock_sim:
  "refines s a \<Longrightarrow> refines (SchedUnlock s) (if lck a > 0 then a\<lparr>lck := lck a - 1\<rparr> else a)"
  by (simp add: SchedUnlock_def refines_def)

subsection \<open>Initialisation\<close>

definition ainit :: "sched \<Rightarrow> aspec" where
  "ainit s =
     \<lparr>tab = (map (\<lambda>t. erase (SchedResetTask t)) (Tasks s))
        [0 := (erase (SchedResetTask (task s 0)))\<lparr>Priority := 0, State := TaskRunning,
           Name := idle_name (Name (SchedResetTask (task s 0)))\<rparr>],
      cur = Some 0, pol = CurrentPolicy s, cnt = 1, nid = 1, ticks = 0, sws = 0, lck = 0,
      pend = False, rq = [], bq = [], dq = []\<rparr>"

lemma SchedInit_sim:
  assumes "length (Tasks s) = SchedMaxTasks"
  shows "refines (SchedInit s) (ainit s)"
proof -
  have pos: "0 < length (Tasks s)" using assms by simp
  then have "upd_task 0 f (map SchedResetTask (Tasks s)) =
      (map SchedResetTask (Tasks s))[0 := f (SchedResetTask (task s 0))]" for f
    by (simp add: upd_task_def)
  moreover have "erase ((SchedResetTask t)\<lparr>TaskId := 0, ParentId := 0, Priority := 0, TimeSlice := 10,
      State := TaskRunning, Name := n\<rparr>) =
      (erase (SchedResetTask t))\<lparr>Priority := 0, State := TaskRunning, Name := n\<rparr>" for t n
    by (cases t) (simp add: erase_def SchedResetTask_def)
  ultimately show ?thesis
    by (simp add: refines_def SchedInit_def ainit_def Let_def set_task_def map_update comp_def)
qed

lemma ainit_ainv:
  assumes "length (Tasks s) = SchedMaxTasks"
  shows "ainv (ainit s)"
proof -
  have st: "State (tab (ainit s) ! i) = (if i = 0 then TaskRunning else TaskDead)"
    "TaskId (tab (ainit s) ! i) = 0" if "i < SchedMaxTasks" for i
    using that assms by (simp_all add: ainit_def SchedResetTask_def nth_list_update)
  have fields: "length (tab (ainit s)) = SchedMaxTasks" "cur (ainit s) = Some 0" "nid (ainit s) = 1"
    "cnt (ainit s) = 1" "rq (ainit s) = []" "bq (ainit s) = []" "dq (ainit s) = []"
    using assms by (simp_all add: ainit_def)
  have lv: "live (ainit s) i \<longleftrightarrow> i = 0" for i by (auto simp: live_def st split: if_splits)
  have "{i. live (ainit s) i} = {0}" using lv by auto
  then have "count_ok (ainit s)" by (simp add: count_ok_def fields)
  then show ?thesis
    by (auto simp: ainv_def queues_ok_def current_ok_def ids_ok_def lv st fields split: if_splits)
qed

subsection \<open>Calls\<close>

text \<open>
  Every entry point of \<^verbatim>\<open>src/include/novium/sched.h\<close> that changes state, and the two
  continuations of a task that was suspended while it blocked. Task pointers are indices
  into the table. The exit stub's address is an argument of the creation, as in
  \<open>SchedInitStack\<close>.
\<close>

datatype sched_call =
    CCreate u32 "u8 list option" u32 u32
  | CYield
  | CTick bool
  | CPreempt
  | CBlock
  | CBlockTask u32
  | CBlockResume nat
  | CUnblock "nat option"
  | CWakeTask u32
  | CSleepUntil u32
  | CSleepResume nat
  | CWakeExpired u32
  | CHasRunnable
  | CExit
  | CKill u32
  | CSetPolicy u32
  | CSetPriority "nat option" u32
  | CGetStats bool
  | CLock
  | CUnlock

fun run_call :: "sched_call \<Rightarrow> sched \<Rightarrow> sched option" where
  "run_call (CCreate stub name entry stacktop) s = map_option snd (SchedCreate stub name entry stacktop s)"
| "run_call CYield s = map_option fst (SchedYield s)"
| "run_call (CTick regs_nonnull) s = Some (SchedTick regs_nonnull s)"
| "run_call CPreempt s = map_option fst (SchedPreempt s)"
| "run_call CBlock s = map_option fst (SchedBlock s)"
| "run_call (CBlockTask ident) s = map_option fst (SchedBlockTask ident s)"
| "run_call (CBlockResume i) s = SchedBlockTask_resume i s"
| "run_call (CUnblock item) s = SchedUnblock item s"
| "run_call (CWakeTask ident) s = SchedWakeTask ident s"
| "run_call (CSleepUntil wake) s = map_option fst (SchedSleepUntil wake s)"
| "run_call (CSleepResume i) s = Some (SchedSleepUntil_resume i s)"
| "run_call (CWakeExpired now) s = map_option snd (SchedWakeExpired now s)"
| "run_call CHasRunnable s = map_option snd (SchedHasRunnable s)"
| "run_call CExit s = map_option fst (SchedExit s)"
| "run_call (CKill ident) s = map_option fst (SchedKill ident s)"
| "run_call (CSetPolicy policy) s = Some (SchedSetPolicy policy s)"
| "run_call (CSetPriority item priority) s = Some (SchedSetPriority item priority s)"
| "run_call (CGetStats stats_nonnull) s = Some (snd (SchedGetStats stats_nonnull s))"
| "run_call CLock s = Some (SchedLock s)"
| "run_call CUnlock s = Some (SchedUnlock s)"

text \<open>
  What a caller has to respect: a task pointer points into the table, a continuation belongs
  to the task that runs, a task does not exit while the scheduler is locked, and the
  identifiers have not run out (\<^verbatim>\<open>NextTaskId\<close> is never reset).
\<close>

fun allowed :: "sched_call \<Rightarrow> sched \<Rightarrow> bool" where
  "allowed (CCreate stub name entry stacktop) s \<longleftrightarrow> unat (NextTaskId s) < 4294967295"
| "allowed (CUnblock (Some i)) s \<longleftrightarrow> i < SchedMaxTasks"
| "allowed (CSetPriority (Some i) priority) s \<longleftrightarrow> i < SchedMaxTasks"
| "allowed (CBlockResume i) s \<longleftrightarrow> CurrentTask s = Some i"
| "allowed CExit s \<longleftrightarrow> SchedulerLocked s = 0"
| "allowed (CKill ident) s \<longleftrightarrow> SchedulerLocked s = 0"
| "allowed _ s \<longleftrightarrow> True"

inductive reachable :: "sched \<Rightarrow> bool" where
  init: "length (Tasks s) = SchedMaxTasks \<Longrightarrow> reachable (SchedInit s)"
| call: "reachable s \<Longrightarrow> allowed c s \<Longrightarrow> run_call c s = Some s' \<Longrightarrow> reachable s'"

lemma returns_map:
  "returns m P \<Longrightarrow> (\<And>x. P x \<Longrightarrow> Q (f x)) \<Longrightarrow> returns (map_option f m) Q"
  by (auto simp: returns_def)

lemma returns_map_fst:
  assumes "returns m (\<lambda>(s', sw). refines s' a \<and> sw = b)" and "ainv a"
  shows "returns (map_option fst m) sched_inv"
  using assms by (auto simp: returns_def intro: sched_invI)

lemma returns_map_snd:
  assumes "returns m (\<lambda>(r, s'). R r \<and> refines s' a)" and "ainv a"
  shows "returns (map_option snd m) sched_inv"
  using assms by (auto simp: returns_def intro: sched_invI)

lemma returns_inv:
  assumes "returns m (\<lambda>s'. refines s' a)" and "ainv a"
  shows "returns m sched_inv"
  using assms by (auto simp: returns_def intro: sched_invI)

lemma asleep_until_ainv:
  assumes "ainv a"
  shows "ainv (fst (asleep_until w a))"
proof -
  have "ainv b" if "ablock_task k (aset i (\<lambda>t. t\<lparr>WakeTick := w\<rparr>) a) = (b, f)" for k i b f
    using ablock_task_ainv [of "aset i (\<lambda>t. t\<lparr>WakeTick := w\<rparr>) a" k] assms that
    by (simp add: aset_ainv)
  with assms show ?thesis
    by (auto simp: asleep_until_def aset_ainv split: option.split prod.split bool.split)
qed

lemma apreempt_ainv: "ainv a \<Longrightarrow> ainv (fst (apreempt a))"
  by (simp add: apreempt_def ayield_ainv)

lemma ablock_self_ainv: "ainv a \<Longrightarrow> ainv (fst (ablock_self a))"
  by (simp add: ablock_self_def ablock_task_ainv split: option.split)

subsection \<open>Each call returns and keeps the invariant\<close>

named_theorems call_inv \<open>every call returns and keeps the invariant\<close>

lemma switching_calls_inv [call_inv]:
  assumes "sched_inv s"
  shows "returns (map_option fst (SchedYield s)) sched_inv"
    and "returns (map_option fst (SchedPreempt s)) sched_inv"
    and "returns (map_option fst (SchedBlock s)) sched_inv"
    and "returns (map_option fst (SchedBlockTask ident s)) sched_inv"
    and "returns (map_option fst (SchedSleepUntil wake s)) sched_inv"
  using assms unfolding sched_inv_def [of s]
  by (auto intro: returns_map_fst [OF SchedYield_sim ayield_ainv]
      returns_map_fst [OF SchedPreempt_sim apreempt_ainv]
      returns_map_fst [OF SchedBlock_sim ablock_self_ainv]
      returns_map_fst [OF SchedBlockTask_sim ablock_task_ainv]
      returns_map_fst [OF SchedSleepUntil_sim asleep_until_ainv])

lemma ending_calls_inv [call_inv]:
  assumes "sched_inv s" and "SchedulerLocked s = 0"
  shows "returns (map_option fst (SchedExit s)) sched_inv"
    and "returns (map_option fst (SchedKill ident s)) sched_inv"
proof -
  obtain a where a: "refines s a" "ainv a" using assms(1) by (auto simp: sched_inv_def)
  then have "lck a = 0" using refinesD(6) assms(2) by fastforce
  with a show "returns (map_option fst (SchedExit s)) sched_inv"
    and "returns (map_option fst (SchedKill ident s)) sched_inv"
    by (auto intro: returns_map_fst [OF SchedExit_sim aexit_ainv(1)]
        returns_map_fst [OF SchedKill_sim akill_ainv])
qed

lemma SchedCreate_inv [call_inv]:
  assumes "sched_inv s" and "unat (NextTaskId s) < 4294967295"
  shows "returns (map_option snd (SchedCreate stub name entry stacktop s)) sched_inv"
proof (cases name)
  case None
  with assms(1) show ?thesis by (simp add: SchedCreate_def)
next
  case (Some nm)
  obtain a where a: "refines s a" "ainv a" using assms(1) by (auto simp: sched_inv_def)
  then have "ainv (snd (acreate nm entry stacktop a))"
    using acreate_ainv refinesD(5) assms(2) by fastforce
  with Some show ?thesis using returns_map_snd [OF SchedCreate_sim [OF a]] by simp
qed

lemma SchedBlockTask_resume_inv [call_inv]:
  assumes "sched_inv s" and "CurrentTask s = Some i"
  shows "returns (SchedBlockTask_resume i s) sched_inv"
proof -
  obtain a where a: "refines s a" "ainv a" using assms(1) by (auto simp: sched_inv_def)
  have i: "i < SchedMaxTasks" using refines_current(2) [OF a assms(2)] .
  then have st: "State (tab a ! i) = State (task s i)"
    using refines_nth [OF a(1)] refines_current(1) [OF a] by simp
  show ?thesis
  proof (cases "State (task s i) = TaskBlocked")
    case True
    with st i have "i \<in> set (bq a)" using queues_okD(6) [OF ainvD(1) [OF a(2)]] by simp
    then have "ainv (aundo_block i a)"
      using aundo_block_ainv [OF a(2)] assms(2) refinesD(2) [OF a(1)] by simp
    with returns_inv [OF SchedBlockTask_resume_sim [OF a i]] True st show ?thesis by simp
  next
    case False
    with a show ?thesis
      by (auto simp: SchedBlockTask_resume_def irq_simps Let_def SchedLockIrq_def refines_machine
          intro!: sched_invI [of _ a])
  qed
qed

lemma waking_calls_inv [call_inv]:
  assumes "sched_inv s"
  shows "returns (SchedWakeTask ident s) sched_inv"
    and "returns (map_option snd (SchedWakeExpired now s)) sched_inv"
    and "returns (map_option snd (SchedHasRunnable s)) sched_inv"
  using assms unfolding sched_inv_def [of s]
  by (auto intro: returns_inv [OF SchedWakeTask_sim awake_task_ainv]
      returns_map_snd [OF SchedWakeExpired_sim awake_expired_ainv]
      returns_map_snd [OF SchedHasRunnable_sim])

lemma SchedUnblock_inv [call_inv]:
  assumes "sched_inv s" and "case item of None \<Rightarrow> True | Some i \<Rightarrow> i < SchedMaxTasks"
  shows "returns (SchedUnblock item s) sched_inv"
proof (cases item)
  case None
  with assms(1) show ?thesis by (simp add: SchedUnblock_def)
next
  case (Some i)
  obtain a where a: "refines s a" "ainv a" using assms(1) by (auto simp: sched_inv_def)
  have "ainv (if State (tab a ! i) = TaskBlocked then aunblock i a else a)"
    using a(2) queues_okD(6) [OF ainvD(1) [OF a(2)]] aunblock_ainv assms(2) Some by simp
  with returns_inv [OF SchedUnblock_sim [OF a, of i]] assms(2) Some show ?thesis by simp
qed

lemma setter_calls_inv [call_inv]:
  assumes "sched_inv s"
  shows "sched_inv (SchedTick b s)" and "sched_inv (SchedSleepUntil_resume i s)"
    and "sched_inv (SchedSetPolicy p s)" and "sched_inv (snd (SchedGetStats b s))"
    and "sched_inv (SchedLock s)" and "sched_inv (SchedUnlock s)"
proof -
  obtain a where a: "refines s a" "ainv a" using assms(1) by (auto simp: sched_inv_def)
  show "sched_inv (SchedTick b s)"
    using SchedTick_sim [OF a] atick_ainv [OF a(2)] assms
    by (cases b) (auto intro: sched_invI simp: SchedTick_def)
  show "sched_inv (SchedSleepUntil_resume i s)"
    unfolding SchedSleepUntil_resume_def by (rule sched_invI [OF refines_wake_tick [OF a(1)]])
      (simp add: aset_ainv a(2))
  show "sched_inv (SchedSetPolicy p s)" by (rule sched_invI [OF SchedSetPolicy_sim [OF a(1)]]) (simp add: a(2))
  show "sched_inv (snd (SchedGetStats b s))"
    using a by (auto simp: SchedGetStats_def Let_def SchedLockIrq_def irq_simps refines_machine
        intro!: sched_invI [of _ a])
  show "sched_inv (SchedLock s)" by (rule sched_invI [OF SchedLock_sim [OF a(1)]]) (simp add: a(2))
  show "sched_inv (SchedUnlock s)" by (rule sched_invI [OF SchedUnlock_sim [OF a(1)]]) (simp add: a(2))
qed

lemma SchedSetPriority_inv [call_inv]:
  assumes "sched_inv s" and "case item of None \<Rightarrow> True | Some i \<Rightarrow> i < SchedMaxTasks"
  shows "sched_inv (SchedSetPriority item p s)"
proof (cases item)
  case None
  with assms(1) show ?thesis by (simp add: SchedSetPriority_def)
next
  case (Some i)
  obtain a where a: "refines s a" "ainv a" using assms(1) by (auto simp: sched_inv_def)
  have "i < length (Tasks s)" using refines_current(1) [OF a] assms(2) Some by simp
  with Some show ?thesis
    by (auto intro: sched_invI [OF SchedSetPriority_sim [OF a(1)]] simp: aset_ainv a(2))
qed

lemma run_call_inv:
  assumes "sched_inv s" and "allowed c s"
  shows "returns (run_call c s) sched_inv"
  using assms by (cases "(c, s)" rule: allowed.cases) (simp_all add: call_inv)

lemma SchedInit_inv: "length (Tasks s) = SchedMaxTasks \<Longrightarrow> sched_inv (SchedInit s)"
  by (rule sched_invI [OF SchedInit_sim ainit_ainv])

lemma reachable_inv: "reachable s \<Longrightarrow> sched_inv s"
proof (induction rule: reachable.induct)
  case (init s)
  then show ?case by (rule SchedInit_inv)
next
  case (call s c s')
  then show ?case using run_call_inv [of s c] by simp
qed

end
