(* ===== verification/Irq.thy ===== *)
theory Irq
  imports Stdio Keyboard Sched_Run
begin

text \<open>
  Interrupts: \<^verbatim>\<open>src/arch/x86_32/kernel/irq.c\<close>, with the two handlers the kernel installs
  (\<^verbatim>\<open>timer_callback\<close> of \<^verbatim>\<open>pit.c\<close> and \<^verbatim>\<open>keyboard_callback\<close> of \<^verbatim>\<open>keyboard.c\<close>). The state \<open>kernel\<close> puts the parts
  together that an interrupt reaches: console, keyboard, scheduler, descriptor table, handler
  table, spurious counts and the tick.

  Writes to I/O ports go to the one record of port writes that theory \<open>Console\<close> keeps. What a read from the
  interrupt controller returns is hardware: the argument \<open>dev\<close> gives it as a function of the writes
  so far and the port. The bytes the keyboard controller delivers are the tape \<open>ps2\<close>. The addresses of the
  interrupt stubs and of the descriptor table are arguments.

  An interrupt may end in a task switch: as in theory \<open>Sched\<close>, the flag is \<^const>\<open>True\<close> when another task runs
  now. A halted machine (the endless loop after a panic) is the value \<^const>\<open>Inl\<close>.
\<close>

definition PIC1_CMD :: u16 where "PIC1_CMD = 0x20"
definition PIC1_DATA :: u16 where "PIC1_DATA = 0x21"
definition PIC2_CMD :: u16 where "PIC2_CMD = 0xA0"
definition PIC2_DATA :: u16 where "PIC2_DATA = 0xA1"
definition PIC_EOI :: u8 where "PIC_EOI = 0x20"
definition IRQ_BASE :: nat where "IRQ_BASE = 0x20"
definition IRQ_COUNT :: nat where "IRQ_COUNT = 16"
definition INT_VECTORS :: nat where "INT_VECTORS = 256"
definition PIC_OCW3_IRR :: u8 where "PIC_OCW3_IRR = 0x0A"
definition PIC_OCW3_ISR :: u8 where "PIC_OCW3_ISR = 0x0B"
definition PIC_IN_SERVICE :: u8 where "PIC_IN_SERVICE = 0x80"

lemmas irq_consts = PIC1_CMD_def PIC1_DATA_def PIC2_CMD_def PIC2_DATA_def PIC_EOI_def IRQ_BASE_def
  IRQ_COUNT_def INT_VECTORS_def PIC_OCW3_IRR_def PIC_OCW3_ISR_def PIC_IN_SERVICE_def

record idt_entry =
  offset_low :: u16
  selector :: u16
  zero :: u8
  type_attr :: u8
  offset_high :: u16

record idtr =
  limit :: u16
  base :: u32

text \<open>\<^verbatim>\<open>struct registers\<close>: what the interrupt stubs push.\<close>

record registers =
  r_gs :: u32
  r_fs :: u32
  r_es :: u32
  r_ds :: u32
  r_edi :: u32
  r_esi :: u32
  r_ebp :: u32
  r_esp :: u32
  r_ebx :: u32
  r_edx :: u32
  r_ecx :: u32
  r_eax :: u32
  int_no :: u32
  err_code :: u32
  r_eip :: u32
  r_cs :: u32
  r_eflags :: u32
  r_user_esp :: u32
  r_ss :: u32

text \<open>The handlers that the kernel registers.\<close>

datatype irq_handler_t = timer_handler | keyboard_handler

record kernel =
  con :: console
  kbd :: keyboard
  ps2 :: "u8 list"
  sch :: sched
  idt :: "idt_entry list"
  idtp :: idtr
  loaded_idtr :: "idtr option"
  handlers :: "irq_handler_t option list"
  spurious_count :: "u32 list"
  spurious_reported :: u32
  cr2 :: u32
  tick_count :: u32
  ticks_per_second :: u32

type_synonym device = "port_write list \<Rightarrow> u16 \<Rightarrow> u8"

definition kout :: "u16 \<Rightarrow> u8 \<Rightarrow> kernel \<Rightarrow> kernel" where
  "kout port v k = k\<lparr>con := outb port v (con k)\<rparr>"

definition kin :: "device \<Rightarrow> u16 \<Rightarrow> kernel \<Rightarrow> u8" where
  "kin dev port k = dev (ports (con k)) port"

subsection \<open>The descriptor table\<close>

definition idt_set_gate :: "nat \<Rightarrow> u32 \<Rightarrow> kernel \<Rightarrow> kernel" where
  "idt_set_gate n fn k = k\<lparr>idt := (idt k)[n :=
     \<lparr>offset_low = ucast (fn AND 0xFFFF), selector = 0x10, zero = 0, type_attr = 0x8E,
      offset_high = ucast (drop_bit 16 fn AND 0xFFFF)\<rparr>]\<rparr>"

text \<open>The size of the table is 256 entries of 8 bytes.\<close>

definition idt_init :: "u32 list \<Rightarrow> u32 \<Rightarrow> u32 \<Rightarrow> kernel \<Rightarrow> kernel" where
  "idt_init stub_table stub_placeholder idt_address k =
     (let k = fold (\<lambda>i. idt_set_gate i (stub_table ! i)) [0..<48] k;
          k = fold (\<lambda>i. idt_set_gate i stub_placeholder) [48..<INT_VECTORS] k;
          k = k\<lparr>idtp := \<lparr>limit = of_nat (INT_VECTORS * 8 - 1), base = idt_address\<rparr>\<rparr>
      in k\<lparr>loaded_idtr := Some (idtp k)\<rparr>)"

subsection \<open>The interrupt controller\<close>

definition pic_init :: "kernel \<Rightarrow> kernel" where
  "pic_init k =
     (let k = kout PIC1_CMD 0x11 k; k = kout PIC2_CMD 0x11 k;
          k = kout PIC1_DATA (of_nat IRQ_BASE) k; k = kout PIC2_DATA (of_nat (IRQ_BASE + 8)) k;
          k = kout PIC1_DATA 0x04 k; k = kout PIC2_DATA 0x02 k;
          k = kout PIC1_DATA 0x01 k; k = kout PIC2_DATA 0x01 k;
          k = kout PIC1_DATA 0xFF k
      in kout PIC2_DATA 0xFF k)"

definition line_port :: "int \<Rightarrow> u16" where
  "line_port irq = (if irq < 8 then PIC1_DATA else PIC2_DATA)"

definition irq_register :: "device \<Rightarrow> int \<Rightarrow> irq_handler_t option \<Rightarrow> kernel \<Rightarrow> kernel" where
  "irq_register dev irq h k =
     (if irq < 0 \<or> irq \<ge> int IRQ_COUNT \<or> h = None then k
      else
        (let k = k\<lparr>handlers := (handlers k)[IRQ_BASE + nat irq := h]\<rparr>;
             port = line_port irq;
             k = kout port (kin dev port k AND NOT (push_bit (nat (irq AND 7)) 1)) k
         in if irq \<ge> 8 then kout PIC1_DATA (kin dev PIC1_DATA k AND NOT (push_bit 2 1)) k else k))"

definition irq_unregister :: "device \<Rightarrow> int \<Rightarrow> kernel \<Rightarrow> kernel" where
  "irq_unregister dev irq k =
     (if irq < 0 \<or> irq \<ge> int IRQ_COUNT then k
      else
        (let k = k\<lparr>handlers := (handlers k)[IRQ_BASE + nat irq := None]\<rparr>;
             port = line_port irq
         in kout port (kin dev port k OR push_bit (nat (irq AND 7)) 1) k))"

definition irq_spurious_count :: "int \<Rightarrow> kernel \<Rightarrow> u32" where
  "irq_spurious_count irq k = (if irq < 0 \<or> irq \<ge> int IRQ_COUNT then 0 else spurious_count k ! nat irq)"

subsection \<open>Handlers\<close>

definition timer_callback :: "kernel \<Rightarrow> kernel option" where
  "timer_callback k =
     do { let k = k\<lparr>tick_count := tick_count k + 1\<rparr>;
          let k = k\<lparr>sch := SchedTick True (sch k)\<rparr>;
          (_, s) \<leftarrow> SchedWakeExpired (tick_count k) (sch k);
          Some (k\<lparr>sch := s\<rparr>) }"

definition call_handler :: "irq_handler_t \<Rightarrow> kernel \<Rightarrow> kernel option" where
  "call_handler h k =
     (case h of
        timer_handler \<Rightarrow> timer_callback k
      | keyboard_handler \<Rightarrow>
          do { (kb, tape) \<leftarrow> keyboard_callback (ps2 k) (kbd k); Some (k\<lparr>kbd := kb, ps2 := tape\<rparr>) })"

definition keyboard_init :: "device \<Rightarrow> kernel \<Rightarrow> kernel" where
  "keyboard_init dev k = irq_register dev 1 (Some keyboard_handler) k"

subsection \<open>Dispatch\<close>

definition panic_format :: "u8 list" where
  "panic_format = ascii ''PANIC: unhandled exception, vector 0x%x, err_code 0x%x'' @ [10]"

definition fault_format :: "u8 list" where
  "fault_format = ascii ''  page fault at address 0x%x'' @ [10]"

definition halt_format :: "u8 list" where
  "halt_format = ascii ''halting'' @ [10]"

definition spurious_format :: "u8 list" where
  "spurious_format = ascii ''WARNING: spurious IRQ %u (ISR 0x%x), check PIC/EOI'' @ [10]"

definition isr_panic :: "registers \<Rightarrow> kernel \<Rightarrow> kernel option" where
  "isr_panic r k =
     do { c \<leftarrow> kprintf panic_format [IntArg (int_no r), IntArg (err_code r)] (con k);
          c \<leftarrow> (if int_no r = 14 then kprintf fault_format [IntArg (cr2 k)] c else Some c);
          c \<leftarrow> kprintf halt_format [] c;
          Some (k\<lparr>con := c\<rparr>) }"

text \<open>The test of lines 7 and 15: whether the interrupt is spurious, and what was read.\<close>

definition isr_in_service :: "device \<Rightarrow> nat \<Rightarrow> kernel \<Rightarrow> u8 \<times> kernel" where
  "isr_in_service dev line k =
     (let port = (if line = 7 then PIC1_CMD else PIC2_CMD);
          k = kout port PIC_OCW3_ISR k;
          in_service = kin dev port k
      in (in_service, kout port PIC_OCW3_IRR k))"

definition isr_spurious :: "nat \<Rightarrow> u8 \<Rightarrow> kernel \<Rightarrow> kernel option" where
  "isr_spurious line in_service k =
     (let k = k\<lparr>spurious_count := (spurious_count k)[line := spurious_count k ! line + 1]\<rparr>;
          k = (if line = 15 then kout PIC1_CMD PIC_EOI k else k)
      in if spurious_reported k AND push_bit line 1 = 0
         then do { let k = k\<lparr>spurious_reported := spurious_reported k OR push_bit line 1\<rparr>;
                   c \<leftarrow> kprintf spurious_format [IntArg (of_nat line), IntArg (ucast in_service)] (con k);
                   Some (k\<lparr>con := c\<rparr>) }
         else Some k)"

text \<open>A real interrupt: the handler, the end of the interrupt, and only then a task switch.\<close>

definition isr_serve :: "nat \<Rightarrow> nat \<Rightarrow> kernel \<Rightarrow> (kernel \<times> bool) option" where
  "isr_serve vec line k =
     do { k \<leftarrow> (case handlers k ! vec of None \<Rightarrow> Some k | Some h \<Rightarrow> call_handler h k);
          let k = (if line \<ge> 8 then kout PIC2_CMD PIC_EOI k else k);
          let k = kout PIC1_CMD PIC_EOI k;
          (s, switched) \<leftarrow> SchedPreempt (sch k);
          Some (k\<lparr>sch := s\<rparr>, switched) }"

definition isr_dispatch :: "device \<Rightarrow> registers \<Rightarrow> kernel \<Rightarrow> (kernel + kernel \<times> bool) option" where
  "isr_dispatch dev r k =
     (let vec = unat (int_no r) in
      if vec < IRQ_BASE then map_option Inl (isr_panic r k)
      else
        (let line = vec - IRQ_BASE in
         if line = 7 \<or> line = 15 then
           (let (in_service, k) = isr_in_service dev line k in
            if in_service AND PIC_IN_SERVICE = 0
            then map_option (\<lambda>k. Inr (k, False)) (isr_spurious line in_service k)
            else map_option Inr (isr_serve vec line k))
         else map_option Inr (isr_serve vec line k)))"

definition irq_disable :: "kernel \<Rightarrow> kernel" where
  "irq_disable k = k\<lparr>sch := (sch k)\<lparr>Machine := (cpu_disable_irqs (fst (Machine (sch k))), snd (Machine (sch k)))\<rparr>\<rparr>"

definition irq_enable :: "kernel \<Rightarrow> kernel" where
  "irq_enable k = k\<lparr>sch := (sch k)\<lparr>Machine := (cpu_enable_irqs (fst (Machine (sch k))), snd (Machine (sch k)))\<rparr>\<rparr>"

end
