(* ===== verification/Irq_Laws.thy ===== *)
theory Irq_Laws
  imports Irq
begin

text \<open>
  The kernel under interrupts: the invariant \<open>kernel_ok\<close> of the parts that an interrupt reaches, that
  dispatching any interrupt keeps it, and what each step of the dispatch does.
\<close>

subsection \<open>Invariant\<close>

definition kernel_ok :: "bytes \<Rightarrow> kernel \<Rightarrow> bool" where
  "kernel_ok m0 k \<longleftrightarrow> sched_inv (sch k) \<and> kbd_ok (kbd k) \<and> (\<exists>t. displays m0 (con k) t) \<and>
     length (idt k) = 256 \<and> length (handlers k) = 256 \<and> length (spurious_count k) = 16"

text \<open>Ports that do not belong to the display controller.\<close>

lemma outb_displays:
  assumes "displays m0 c t" and "port \<noteq> 0x3D4" and "port \<noteq> 0x3D5"
  shows "displays m0 (outb port v c) t"
  using assms by (simp add: displays_def outb_def hw_cursor_def crt_write_def)

lemma kout_ok:
  assumes "kernel_ok m0 k" and "port \<noteq> 0x3D4" and "port \<noteq> 0x3D5"
  shows "kernel_ok m0 (kout port v k)"
proof -
  obtain t where "displays m0 (con k) t" using assms(1) by (auto simp: kernel_ok_def)
  from outb_displays [OF this assms(2,3), of v] show ?thesis using assms(1) by (auto simp: kernel_ok_def kout_def)
qed

lemma kout_fields [simp]:
  "sch (kout port v k) = sch k" "kbd (kout port v k) = kbd k" "ps2 (kout port v k) = ps2 k" "idt (kout port v k) = idt k"
  "handlers (kout port v k) = handlers k" "spurious_count (kout port v k) = spurious_count k"
  "spurious_reported (kout port v k) = spurious_reported k" "tick_count (kout port v k) = tick_count k"
  "ticks_per_second (kout port v k) = ticks_per_second k" "cr2 (kout port v k) = cr2 k"
  "ports (con (kout port v k)) = ports (con k) @ [(port, v)]"
  by (simp_all add: kout_def outb_def)

lemma pic_ports [simp]:
  "PIC1_CMD \<noteq> 0x3D4" "PIC1_CMD \<noteq> 0x3D5" "PIC2_CMD \<noteq> 0x3D4" "PIC2_CMD \<noteq> 0x3D5"
  "PIC1_DATA \<noteq> 0x3D4" "PIC1_DATA \<noteq> 0x3D5" "PIC2_DATA \<noteq> 0x3D4" "PIC2_DATA \<noteq> 0x3D5"
  by (simp_all add: irq_consts)

lemma kprintf_ok:
  assumes "kernel_ok m0 k" and "format_text fmt args \<noteq> None"
  shows "returns (kprintf fmt args (con k)) (\<lambda>c. kernel_ok m0 (k\<lparr>con := c\<rparr>))"
proof -
  obtain cs where cs: "format_text fmt args = Some cs" using assms(2) by auto
  obtain t where "displays m0 (con k) t" using assms(1) by (auto simp: kernel_ok_def)
  from write_displays [OF this, of cs] obtain c where "console_write cs (con k) = Some c" "\<exists>t. displays m0 c t" by blast
  then show ?thesis using assms(1) by (simp add: kprintf_writes [OF cs] kernel_ok_def)
qed

text \<open>The formats of this file always have the arguments they ask for.\<close>

lemma format_text_Cons: "c \<noteq> 37 \<Longrightarrow> format_text (c # fmt) args = map_option (Cons c) (format_text fmt args)"
  by (cases fmt) simp_all

lemma formats:
  "format_text panic_format [IntArg a, IntArg b] \<noteq> None" "format_text fault_format [IntArg a] \<noteq> None"
  "format_text halt_format [] \<noteq> None" "format_text spurious_format [IntArg a, IntArg b] \<noteq> None"
  by (simp_all add: panic_format_def fault_format_def halt_format_def spurious_format_def ascii_def
      format_text_Cons conv_text_def)

subsection \<open>Handlers\<close>

lemma timer_callback_ok:
  assumes "kernel_ok m0 k"
  shows "returns (timer_callback k) (\<lambda>k'. kernel_ok m0 k' \<and> con k' = con k \<and> handlers k' = handlers k \<and> kbd k' = kbd k \<and>
    ps2 k' = ps2 k \<and> tick_count k' = tick_count k + 1 \<and> ticks_per_second k' = ticks_per_second k)"
proof -
  have "sched_inv (SchedTick True (sch k))" using assms by (simp add: kernel_ok_def setter_calls_inv)
  from waking_calls_inv(2) [OF this, of "tick_count k + 1"]
  obtain n s where "SchedWakeExpired (tick_count k + 1) (SchedTick True (sch k)) = Some (n, s)" "sched_inv s"
    by (auto simp: returns_def)
  then show ?thesis using assms by (simp add: timer_callback_def kernel_ok_def)
qed

text \<open>The keyboard controller delivers a byte: it is polled some times, then ready.\<close>

definition delivers :: "u8 list \<Rightarrow> bool" where
  "delivers tape \<longleftrightarrow> (\<exists>polls st sc rest. tape = polls @ st # sc # rest \<and> (\<forall>p \<in> set polls. p AND 1 = 0) \<and> st AND 1 \<noteq> 0)"

lemma keyboard_handler_ok:
  assumes "kernel_ok m0 k" and "delivers (ps2 k)"
  shows "returns (call_handler keyboard_handler k) (\<lambda>k'. kernel_ok m0 k' \<and> con k' = con k \<and> handlers k' = handlers k \<and> sch k' = sch k)"
proof -
  obtain sc rest where "ps2_read_scancode (ps2 k) = Some (sc, rest)" using assms(2) ps2_polls by (auto simp: delivers_def)
  then show ?thesis using assms(1) keyboard_store_law [of "kbd k" sc]
    by (simp add: call_handler_def keyboard_callback_def kernel_ok_def)
qed

subsection \<open>Dispatch\<close>

text \<open>The bytes written to end the interrupt of a line.\<close>

definition eoi :: "nat \<Rightarrow> port_write list" where
  "eoi line = (if 8 \<le> line then [(PIC2_CMD, PIC_EOI)] else []) @ [(PIC1_CMD, PIC_EOI)]"

lemma isr_serve_ok:
  assumes ok: "kernel_ok m0 k" and kb: "handlers k ! vec = Some keyboard_handler \<Longrightarrow> delivers (ps2 k)"
  shows "returns (isr_serve vec line k) (\<lambda>(k', switched). kernel_ok m0 k' \<and> ports (con k') = ports (con k) @ eoi line \<and>
    (\<exists>k1. (case handlers k ! vec of None \<Rightarrow> Some k | Some h \<Rightarrow> call_handler h k) = Some k1 \<and> SchedPreempt (sch k1) = Some (sch k', switched)))"
proof -
  have "returns (case handlers k ! vec of None \<Rightarrow> Some k | Some h \<Rightarrow> call_handler h k) (\<lambda>k1. kernel_ok m0 k1 \<and> con k1 = con k)"
  proof (cases "handlers k ! vec")
    case (Some h)
    then show ?thesis
      using kb timer_callback_ok [OF ok] keyboard_handler_ok [OF ok]
      by (cases h) (auto simp: call_handler_def elim!: returns_weaken)
  qed (use ok in simp)
  then obtain k1 where k1: "(case handlers k ! vec of None \<Rightarrow> Some k | Some h \<Rightarrow> call_handler h k) = Some k1" "kernel_ok m0 k1" "con k1 = con k"
    by (auto simp: returns_def)
  define k2 where "k2 = kout PIC1_CMD PIC_EOI (if line \<ge> 8 then kout PIC2_CMD PIC_EOI k1 else k1)"
  have k2: "kernel_ok m0 k2" using k1(2) by (simp add: k2_def kout_ok)
  have sch: "sch k2 = sch k1" by (simp add: k2_def)
  have "sched_inv (sch k1)" using k1(2) by (simp add: kernel_ok_def)
  from switching_calls_inv(2) [OF this] obtain s sw where s: "SchedPreempt (sch k1) = Some (s, sw)" "sched_inv s"
    by (auto simp: returns_def)
  have "isr_serve vec line k = Some (k2\<lparr>sch := s\<rparr>, sw)"
    using k1(1) s(1) unfolding isr_serve_def by (simp add: k2_def sch [unfolded k2_def])
  moreover have "kernel_ok m0 (k2\<lparr>sch := s\<rparr>)" using k2 s(2) by (simp add: kernel_ok_def)
  moreover have "ports (con k2) = ports (con k) @ eoi line" by (simp add: k2_def eoi_def k1(3))
  ultimately show ?thesis using k1(1) s(1) by simp
qed

lemma isr_panic_ok:
  assumes "kernel_ok m0 k"
  shows "returns (isr_panic r k) (kernel_ok m0)"
  unfolding isr_panic_def
proof (rule returns_bind [OF kprintf_ok [OF assms formats(1)]])
  fix c
  assume c: "kernel_ok m0 (k\<lparr>con := c\<rparr>)"
  have "returns (if int_no r = 14 then kprintf fault_format [IntArg (cr2 k)] c else Some c) (\<lambda>c. kernel_ok m0 (k\<lparr>con := c\<rparr>))"
    using kprintf_ok [OF c formats(2)] c by simp
  then show "returns ((if int_no r = 14 then kprintf fault_format [IntArg (cr2 k)] c else Some c) \<bind>
      (\<lambda>c. kprintf halt_format [] c \<bind> (\<lambda>c. Some (k\<lparr>con := c\<rparr>)))) (kernel_ok m0)"
  proof (rule returns_bind)
    fix c'
    assume "kernel_ok m0 (k\<lparr>con := c'\<rparr>)"
    from kprintf_ok [OF this formats(3)] show "returns (kprintf halt_format [] c' \<bind> (\<lambda>c. Some (k\<lparr>con := c\<rparr>))) (kernel_ok m0)"
      by (auto elim!: returns_bind)
  qed
qed

lemma isr_spurious_ok:
  assumes "kernel_ok m0 k" and "line < 16"
  shows "returns (isr_spurious line v k) (\<lambda>k'. kernel_ok m0 k' \<and> sch k' = sch k \<and> kbd k' = kbd k \<and> tick_count k' = tick_count k \<and>
    spurious_count k' = (spurious_count k)[line := spurious_count k ! line + 1])"
proof -
  define k1 where "k1 = (if line = 15 then kout PIC1_CMD PIC_EOI (k\<lparr>spurious_count := (spurious_count k)[line := spurious_count k ! line + 1]\<rparr>)
    else k\<lparr>spurious_count := (spurious_count k)[line := spurious_count k ! line + 1]\<rparr>)"
  have "kernel_ok m0 (k\<lparr>spurious_count := (spurious_count k)[line := spurious_count k ! line + 1]\<rparr>)"
    using assms(1) by (simp add: kernel_ok_def)
  then have ok1: "kernel_ok m0 k1" by (auto simp: k1_def intro: kout_ok)
  have f: "sch k1 = sch k" "kbd k1 = kbd k" "tick_count k1 = tick_count k" "spurious_count k1 = (spurious_count k)[line := spurious_count k ! line + 1]"
    by (simp_all add: k1_def)
  have "kernel_ok m0 (k1\<lparr>spurious_reported := spurious_reported k1 OR push_bit line 1\<rparr>)" using ok1 by (simp add: kernel_ok_def)
  from kprintf_ok [OF this formats(4), of "of_nat line" "ucast v"] show ?thesis
    unfolding isr_spurious_def k1_def [symmetric] Let_def using ok1 f by (auto elim!: returns_bind)
qed

end
