(* ===== verification/Timer.thy ===== *)
theory Timer
  imports Irq_Laws
begin

text \<open>
  The timer, \<^verbatim>\<open>src/arch/x86_32/kernel/pit.c\<close> (its interrupt handler \<^verbatim>\<open>timer_callback\<close> is in theory
  \<open>Irq\<close>): programming the rate, the time since boot, and sleeping. \<^verbatim>\<open>cpu_hlt\<close> waits for the next
  interrupt: the argument \<open>irqs\<close> lists the interrupts that arrive, and a wait that outlasts the list has no
  result. As in theory \<open>Sched\<close>, a task that is switched away while it waits is described by a flag, and by what it
  does when it runs again.
\<close>

definition PIT_OSC_FREQ :: u32 where "PIT_OSC_FREQ = 1193182"
definition PIT_CH0_DATA :: u16 where "PIT_CH0_DATA = 0x40"
definition PIT_CMD_REG :: u16 where "PIT_CMD_REG = 0x43"
definition PIT_CMD_SQUARE :: u8 where "PIT_CMD_SQUARE = 0x36"
definition PIT_MAX_DIVISOR :: u32 where "PIT_MAX_DIVISOR = 65535"

definition io_wait :: "kernel \<Rightarrow> kernel" where
  "io_wait k = kout 0x80 0x00 k"

definition pit_divisor :: "int \<Rightarrow> u32" where
  "pit_divisor hz =
     (let divisor = PIT_OSC_FREQ div word_of_int hz in
      if divisor = 0 then 1 else if divisor > PIT_MAX_DIVISOR then PIT_MAX_DIVISOR else divisor)"

definition timer_init :: "device \<Rightarrow> int \<Rightarrow> kernel \<Rightarrow> kernel" where
  "timer_init dev hz k =
     (if hz \<le> 0 then k
      else
        (let divisor = pit_divisor hz;
             k = kout PIT_CMD_REG PIT_CMD_SQUARE k;
             k = io_wait k;
             k = kout PIT_CH0_DATA (ucast (divisor AND 0xFF)) k;
             k = io_wait k;
             k = kout PIT_CH0_DATA (ucast (drop_bit 8 divisor AND 0xFF)) k;
             k = k\<lparr>ticks_per_second := PIT_OSC_FREQ div divisor\<rparr>
         in irq_register dev 0 (Some timer_handler) k))"

definition timer_get_ticks :: "kernel \<Rightarrow> u32" where
  "timer_get_ticks k = tick_count k"

definition timer_uptime_ms :: "kernel \<Rightarrow> u64" where
  "timer_uptime_ms k =
     (if ticks_per_second k = 0 then 0
      else
        (let secs = tick_count k div ticks_per_second k;
             rem = tick_count k mod ticks_per_second k;
             frac = rem * 1000 div ticks_per_second k
         in ucast secs * 1000 + ucast frac))"

subsection \<open>Sleeping\<close>

definition sleep_deadline :: "u32 \<Rightarrow> kernel \<Rightarrow> u32" where
  "sleep_deadline ms k =
     (let secs = ms div 1000; rem = ms mod 1000
      in tick_count k + secs * ticks_per_second k + (rem * ticks_per_second k + 999) div 1000)"

text \<open>\<^verbatim>\<open>cpu_hlt\<close>: the next interrupt is dispatched; a panic never comes back.\<close>

definition cpu_hlt :: "device \<Rightarrow> registers list \<Rightarrow> kernel \<Rightarrow> (kernel \<times> registers list \<times> bool) option" where
  "cpu_hlt dev irqs k =
     (case irqs of
        [] \<Rightarrow> None
      | r # irqs \<Rightarrow>
          (case isr_dispatch dev r k of
             Some (Inr (k, switched)) \<Rightarrow> Some (k, irqs, switched)
           | _ \<Rightarrow> None))"

definition before :: "u32 \<Rightarrow> kernel \<Rightarrow> bool" where
  "before deadline k \<longleftrightarrow> sint (tick_count k - deadline) < 0"

text \<open>The loop of a task that has nothing to switch to; also what such a task does when it runs again.\<close>

function halt_until :: "device \<Rightarrow> u32 \<Rightarrow> registers list \<Rightarrow> kernel \<Rightarrow> (kernel \<times> registers list \<times> bool) option" where
  "halt_until dev deadline irqs k =
     (if before deadline k then
        (case cpu_hlt dev irqs k of
           None \<Rightarrow> None
         | Some (k, irqs, switched) \<Rightarrow> if switched then Some (k, irqs, True) else halt_until dev deadline irqs k)
      else Some (k, irqs, False))"
  by pat_completeness auto
termination
  by (relation "measure (\<lambda>(dev, deadline, irqs, k). length irqs)")
    (auto simp: cpu_hlt_def split: list.splits option.splits sum.splits)

text \<open>The loop of the idle task.\<close>

function idle_until :: "device \<Rightarrow> u32 \<Rightarrow> registers list \<Rightarrow> kernel \<Rightarrow> (kernel \<times> registers list \<times> bool) option" where
  "idle_until dev deadline irqs k =
     (if before deadline k then
        (case SchedYield (sch k) of
           None \<Rightarrow> None
         | Some (s, switched) \<Rightarrow>
             if switched then Some (k\<lparr>sch := s\<rparr>, irqs, True)
             else
               (case cpu_hlt dev irqs (k\<lparr>sch := s\<rparr>) of
                  None \<Rightarrow> None
                | Some (k, irqs, switched) \<Rightarrow> if switched then Some (k, irqs, True) else idle_until dev deadline irqs k))
      else Some (k, irqs, False))"
  by pat_completeness auto
termination
  by (relation "measure (\<lambda>(dev, deadline, irqs, k). length irqs)")
    (auto simp: cpu_hlt_def split: list.splits option.splits sum.splits)

declare halt_until.simps [simp del] idle_until.simps [simp del]

text \<open>What the idle task does when it runs again after its \<^verbatim>\<open>SchedYield\<close>: it goes on with the halt.\<close>

definition idle_until_resume :: "device \<Rightarrow> u32 \<Rightarrow> registers list \<Rightarrow> kernel \<Rightarrow> (kernel \<times> registers list \<times> bool) option" where
  "idle_until_resume dev deadline irqs k =
     do { (k, irqs, switched) \<leftarrow> cpu_hlt dev irqs k;
          if switched then Some (k, irqs, True) else idle_until dev deadline irqs k }"

definition timer_sleep_ms :: "device \<Rightarrow> u32 \<Rightarrow> registers list \<Rightarrow> kernel \<Rightarrow> (kernel \<times> registers list \<times> bool) option" where
  "timer_sleep_ms dev ms irqs k =
     (if ticks_per_second k = 0 \<or> ms = 0 then Some (k, irqs, False)
      else if \<not> cpu_irqs_enabled (fst (Machine (sch k))) then Some (k, irqs, False)
      else
        (let deadline = sleep_deadline ms k in
         if (case SchedCurrent (sch k) of None \<Rightarrow> True | Some i \<Rightarrow> TaskId (task (sch k) i) = 0)
         then idle_until dev deadline irqs k
         else
           do { (runnable, s) \<leftarrow> SchedHasRunnable (sch k);
                let k = k\<lparr>sch := s\<rparr>;
                if \<not> runnable then halt_until dev deadline irqs k
                else do { (s, switched) \<leftarrow> SchedSleepUntil deadline (sch k); Some (k\<lparr>sch := s\<rparr>, irqs, switched) } }))"

end
