(* ===== verification/Sched_Live.thy ===== *)
theory Sched_Live
  imports Sched_Run
begin

text \<open>
  Fairness of the round-robin policy. A yield picks the first task of the ready queue whose
  identifier is larger than the running task's, and the head of the queue when there is
  none; the running task goes to the end. A waiting task never moves back in the queue; it
  moves forward whenever the head is taken, and between two such yields the identifier of
  the running task grows, which can happen at most once per task. The measure \<open>rr_measure\<close>
  combines the two, so every ready task is dispatched after a bounded number of yields.
\<close>

fun position :: "'a \<Rightarrow> 'a list \<Rightarrow> nat" where
  "position x [] = 0"
| "position x (y # ys) = (if x = y then 0 else Suc (position x ys))"

lemma position_append: "x \<in> set xs \<Longrightarrow> position x (xs @ ys) = position x xs"
  by (induction xs) auto

lemma position_remove1_le: "x \<noteq> y \<Longrightarrow> position x (remove1 y xs) \<le> position x xs"
  by (induction xs) auto

lemma position_remove1_head: "x \<in> set xs \<Longrightarrow> x \<noteq> hd xs \<Longrightarrow> position x (remove1 (hd xs) xs) < position x xs"
  by (cases xs) auto

lemma position_less: "x \<in> set xs \<Longrightarrow> position x xs < length xs"
  by (induction xs) auto

definition rr_above :: "aspec \<Rightarrow> u32 \<Rightarrow> nat set" where
  "rr_above a k = {j \<in> set (rq a). TaskId (tab a ! j) > k}"

definition rr_measure :: "nat \<Rightarrow> aspec \<Rightarrow> nat" where
  "rr_measure i a =
     SchedMaxTasks * position i (rq a) +
     (case cur a of None \<Rightarrow> 0 | Some c \<Rightarrow> card (rr_above a (TaskId (tab a ! c))))"

definition rr_waiting :: "nat \<Rightarrow> aspec \<Rightarrow> bool" where
  "rr_waiting i a \<longleftrightarrow> ainv a \<and> pol a = SchedRoundRobin \<and> lck a = 0 \<and> i \<in> set (rq a) \<and>
     (\<exists>c. cur a = Some c \<and> State (tab a ! c) = TaskRunning)"

lemma card_below_max:
  assumes "A \<subseteq> {..<SchedMaxTasks}" and "x < SchedMaxTasks" and "x \<notin> A"
  shows "card A < SchedMaxTasks"
proof -
  have "A \<subset> {..<SchedMaxTasks}" using assms by auto
  from psubset_card_mono [OF _ this] show ?thesis by simp
qed

text \<open>The state after one yield that dispatches \<open>n\<close>.\<close>

lemma rr_yield:
  assumes "rr_waiting i a" and "cur a = Some c" and "apick a = Some n"
  defines "b \<equiv> fst (ayield a)"
  shows "cur b = Some n" and "rq b = remove1 n (rq a) @ [c]" and "pol b = pol a" and "lck b = lck a"
    and "State (tab b ! n) = TaskRunning" and "ainv b"
    and "\<And>j. j < SchedMaxTasks \<Longrightarrow> TaskId (tab b ! j) = TaskId (tab a ! j)"
    and "c \<notin> set (rq a)" and "n \<noteq> c" and "snd (ayield a)"
proof -
  have w: "ainv a" "lck a = 0" "State (tab a ! c) = TaskRunning"
    using assms(1,2) by (auto simp: rr_waiting_def)
  note q = queues_okD [OF ainvD(1) [OF w(1)]]
  show nc: "c \<notin> set (rq a)" using q(5) w(3) by simp
  have n: "n \<in> set (rq a)" using apick_member [OF assms(3)] .
  then show ne: "n \<noteq> c" using nc by blast
  have nb: "n < SchedMaxTasks" using n q(5) by blast
  have eq: "ayield a = (adispatch n (arequeue (a\<lparr>rq := remove1 n (rq a)\<rparr>)), True)"
    using assms(2,3) w(2) ne by (simp add: ayield_def)
  then show "snd (ayield a)" by simp
  show "cur b = Some n" and "pol b = pol a" and "lck b = lck a" and "rq b = remove1 n (rq a) @ [c]"
    using assms(2) w(3) by (simp_all add: b_def eq aops)
  show "ainv b" unfolding b_def by (rule ayield_ainv [OF w(1)])
  have tab: "tab b ! j = (if j = n then (tab a ! n)\<lparr>State := TaskRunning, TimeUsed := 0,
        Switches := Switches (tab a ! n) + 1\<rparr>
     else if State (tab a ! j) = TaskRunning then (tab a ! j)\<lparr>State := TaskReady\<rparr>
     else tab a ! j)" if "j < SchedMaxTasks" for j
    using arequeue_dispatch_tab [OF ainvD(1,2) [OF w(1)] nb that] assms(2) ne by (simp add: b_def eq)
  show "State (tab b ! n) = TaskRunning" using tab [OF nb] by simp
  show "TaskId (tab b ! j) = TaskId (tab a ! j)" if "j < SchedMaxTasks" for j using tab [OF that] by simp
qed

text \<open>
  Which task the round robin picks: one with a larger identifier, or the head when the
  running task has the largest one.
\<close>

lemma rr_pick_cases:
  assumes "rr_waiting i a" and "cur a = Some c"
  obtains (larger) n where "apick a = Some n" and "TaskId (tab a ! n) > TaskId (tab a ! c)"
  | (wrap) "apick a = Some (hd (rq a))" and "rr_above a (TaskId (tab a ! c)) = {}"
proof (cases "find (\<lambda>i. TaskId (tab a ! i) > TaskId (tab a ! c)) (rq a)")
  case None
  with assms have "apick a = Some (hd (rq a))"
    by (cases "rq a") (auto simp: apick_def pick_round_robin_def head_option_def rr_waiting_def)
  moreover have "rr_above a (TaskId (tab a ! c)) = {}"
    using None by (auto simp: rr_above_def find_None_iff)
  ultimately show thesis by (rule wrap)
next
  case (Some n)
  then have "TaskId (tab a ! n) > TaskId (tab a ! c)" by (auto simp: find_Some_iff)
  moreover have "apick a = Some n"
    using assms Some by (simp add: apick_def pick_round_robin_def rr_waiting_def)
  ultimately show thesis by (intro larger)
qed

lemma rr_step:
  assumes "rr_waiting i a" and "cur (fst (ayield a)) \<noteq> Some i"
  shows "rr_waiting i (fst (ayield a)) \<and> rr_measure i (fst (ayield a)) < rr_measure i a"
proof -
  let ?b = "fst (ayield a)"
  obtain c where c: "cur a = Some c" and w: "ainv a" "i \<in> set (rq a)"
    using assms(1) by (auto simp: rr_waiting_def)
  note q = queues_okD [OF ainvD(1) [OF w(1)]]
  have rb: "x < SchedMaxTasks" if "x \<in> set (rq a)" for x using that q(5) by blast
  obtain n where n: "apick a = Some n"
    using rr_pick_cases [OF assms(1) c] by metis
  note y = rr_yield [OF assms(1) c n]
  have ni: "n \<noteq> i" using assms(2) y(1) by simp
  have mem: "i \<in> set (remove1 n (rq a))" using w(2) ni by simp
  have pos: "position i (rq ?b) = position i (remove1 n (rq a))"
    using mem by (simp add: y(2) position_append)
  have wait: "rr_waiting i ?b"
    using assms(1) y mem by (auto simp: rr_waiting_def)
  have cb: "c < SchedMaxTasks" using ainvD(2) [OF w(1)] c by (simp add: current_ok_def live_def)
  have nb: "n < SchedMaxTasks" using apick_member [OF n] rb by blast
  have above: "rr_above ?b (TaskId (tab ?b ! n)) =
      {j \<in> insert c (set (rq a) - {n}). TaskId (tab a ! j) > TaskId (tab a ! n)}"
    using q(2) cb nb rb y(7) by (auto simp: rr_above_def y(2))
  then have small: "card (rr_above ?b (TaskId (tab ?b ! n))) < SchedMaxTasks"
    using rb cb nb by (intro card_below_max [of _ n]) auto
  from assms(1) c show ?thesis
  proof (cases rule: rr_pick_cases)
    case (larger m)
    with n have gt: "TaskId (tab a ! n) > TaskId (tab a ! c)" by simp
    have "rr_above ?b (TaskId (tab ?b ! n)) \<subset> rr_above a (TaskId (tab a ! c))"
      using gt apick_member [OF n] unfolding above by (auto simp: rr_above_def)
    then have "card (rr_above ?b (TaskId (tab ?b ! n))) < card (rr_above a (TaskId (tab a ! c)))"
      by (intro psubset_card_mono) (simp add: rr_above_def)
    moreover have "position i (rq ?b) \<le> position i (rq a)" using pos position_remove1_le ni by metis
    ultimately show ?thesis using wait c y(1) by (simp add: rr_measure_def add_le_less_mono)
  next
    case wrap
    with n have "n = hd (rq a)" by simp
    then have "position i (rq ?b) < position i (rq a)"
      using pos position_remove1_head [OF w(2)] ni by simp
    then have "SchedMaxTasks * Suc (position i (rq ?b)) \<le> SchedMaxTasks * position i (rq a)"
      by (intro mult_le_mono2) simp
    with small wait c y(1) show ?thesis by (simp add: rr_measure_def)
  qed
qed

text \<open>A run of the code that only yields.\<close>

primrec yields :: "nat \<Rightarrow> sched \<Rightarrow> sched option" where
  "yields 0 s = Some s"
| "yields (Suc k) s = SchedYield s \<bind> (\<lambda>(s', _). yields k s')"

lemma yields_dispatch:
  assumes "refines s a" and "rr_waiting i a"
  shows "\<exists>k \<le> Suc (rr_measure i a). returns (yields k s) (\<lambda>s'. CurrentTask s' = Some i)"
  using assms
proof (induction "rr_measure i a" arbitrary: a s rule: less_induct)
  case less
  have inv: "ainv a" using less.prems(2) by (simp add: rr_waiting_def)
  obtain s' where s': "SchedYield s = Some (s', snd (ayield a))" "refines s' (fst (ayield a))"
    using SchedYield_sim [OF less.prems(1) inv] by (auto simp: returns_def)
  show ?case
  proof (cases "cur (fst (ayield a)) = Some i")
    case True
    then have "returns (yields 1 s) (\<lambda>s'. CurrentTask s' = Some i)"
      using s' refinesD(2) [OF s'(2)] by simp
    then show ?thesis by fastforce
  next
    case False
    note st = rr_step [OF less.prems(2) False]
    then obtain k where k: "k \<le> Suc (rr_measure i (fst (ayield a)))"
      "returns (yields k s') (\<lambda>s'. CurrentTask s' = Some i)"
      using less.hyps [OF _ s'(2)] by blast
    then have "returns (yields (Suc k) s) (\<lambda>s'. CurrentTask s' = Some i)" using s'(1) by simp
    moreover have "Suc k \<le> Suc (rr_measure i a)" using k(1) st by simp
    ultimately show ?thesis by blast
  qed
qed

lemma rr_measure_bound:
  assumes "rr_waiting i a"
  shows "Suc (rr_measure i a) \<le> SchedMaxTasks * SchedMaxTasks"
proof -
  obtain c where c: "cur a = Some c" "State (tab a ! c) = TaskRunning" and w: "ainv a" "i \<in> set (rq a)"
    using assms(1) by (auto simp: rr_waiting_def)
  note q = queues_okD [OF ainvD(1) [OF w(1)]]
  have cb: "c < SchedMaxTasks" using ainvD(2) [OF w(1)] c by (simp add: current_ok_def live_def)
  have sub: "set (rq a) \<subseteq> {..<SchedMaxTasks}" and nc: "c \<notin> set (rq a)" using q(5) c(2) by auto
  have "length (rq a) < SchedMaxTasks"
    using card_below_max [OF sub cb nc] distinct_card [OF q(2)] by simp
  then have "Suc (position i (rq a)) < SchedMaxTasks" using position_less [OF w(2)] by linarith
  moreover have "card (rr_above a (TaskId (tab a ! c))) < SchedMaxTasks"
    by (rule card_below_max [OF _ cb]) (use sub nc in \<open>auto simp: rr_above_def\<close>)
  ultimately show ?thesis using c(1) by (simp add: rr_measure_def SchedMaxTasks_def)
qed

end
