(* ===== verification/Sched_Machine.thy ===== *)
theory Sched_Machine
  imports Sched_Live
begin

text \<open>
  The processor side of the scheduler, which the abstract scheduler does not see: queue
  operations leave the saved stack pointers and the machine alone, \<^verbatim>\<open>SchedCreate\<close> leaves the
  initial frame of \<^verbatim>\<open>SchedInitStack\<close> behind the stack pointer it stores, and \<^verbatim>\<open>SchedYield\<close>
  is one \<^verbatim>\<open>SchedSwitch\<close> with interrupts off, from the saved stack of the task it dispatches.
\<close>

definition esps :: "Task list \<Rightarrow> u32 list" where
  "esps ts = map Esp ts"

lemma esps_upd_next [simp]: "esps (upd_task i (Next_update f) ts) = esps ts"
  by (cases "i < length ts")
    (simp_all add: esps_def upd_task_def map_update list_update_beyond list_update_same_conv)

lemma queue_unlink_esps_snd:
  "queue_unlink q i c p ts = Some y \<Longrightarrow> esps (snd y) = esps ts"
  by (rule queue_unlink.raw_induct [where P = "\<lambda>q i c p ts y. esps (snd y) = esps ts"])
    (auto simp: Let_def split: option.splits if_splits)

lemma queue_unlink_esps:
  "queue_unlink q i c p ts = Some (q', ts') \<Longrightarrow> esps ts' = esps ts"
  using queue_unlink_esps_snd by fastforce

lemma SchedQueueAdd_esps: "SchedQueueAdd q i ts = Some (q', ts') \<Longrightarrow> esps ts' = esps ts"
  by (auto simp: SchedQueueAdd_def Let_def split: option.splits)

lemma SchedQueueRemove_esps: "SchedQueueRemove q i ts = Some (q', ts') \<Longrightarrow> esps ts' = esps ts"
  by (auto simp: SchedQueueRemove_def dest: queue_unlink_esps split: option.splits)

lemma queue_calls_esps:
  "ready_add i s = Some s' \<Longrightarrow> esps (Tasks s') = esps (Tasks s) \<and> Machine s' = Machine s"
  "ready_remove i s = Some s' \<Longrightarrow> esps (Tasks s') = esps (Tasks s) \<and> Machine s' = Machine s"
  "dead_remove i s = Some s' \<Longrightarrow> esps (Tasks s') = esps (Tasks s) \<and> Machine s' = Machine s"
  by (auto simp: ready_add_def ready_remove_def dead_remove_def bind_eq_Some_conv
      dest: SchedQueueAdd_esps SchedQueueRemove_esps)

lemma esps_nth: "esps ts = esps us \<Longrightarrow> i < length ts \<Longrightarrow> Esp (ts ! i) = Esp (us ! i)"
  by (metis esps_def length_map nth_map)

lemma esps_set_task:
  assumes "\<And>t. Esp (f t) = Esp t"
  shows "esps (Tasks (set_task i f s)) = esps (Tasks s)" and "Machine (set_task i f s) = Machine s"
  using assms by (cases "i < length (Tasks s)";
      simp add: esps_def set_task_def upd_task_def map_update list_update_beyond list_update_same_conv)+

text \<open>The two halves of \<^verbatim>\<open>SchedYield\<close>: the bookkeeping, and the switch.\<close>

lemma SchedYield_split:
  assumes "SchedYield s = Some (s', True)"
  obtains n s1 where "CurrentTask s \<noteq> Some n" and "CurrentTask s1 = Some n"
    and "esps (Tasks s1) = esps (Tasks s)"
    and "Machine s1 = (cpu_disable_irqs (fst (Machine s)), snd (Machine s))"
    and "s' = switch_tasks (CurrentTask s) n s1"
proof -
  obtain w s0 where lk: "SchedLockIrq s = (w, s0)" by fastforce
  then have s0: "s0 = s\<lparr>Machine := (cpu_disable_irqs (fst (Machine s)), snd (Machine s))\<rparr>"
    by (simp add: SchedLockIrq_def)
  let ?requeue = "\<lambda>s. case CurrentTask s0 of None \<Rightarrow> Some s
      | Some p \<Rightarrow> if State (task s p) = TaskRunning
          then ready_add p (set_task p (\<lambda>t. t\<lparr>State := TaskReady\<rparr>) s) else Some s"
  have l: "SchedulerLocked s0 = 0"
    by (rule ccontr) (use assms in \<open>simp add: SchedYield_def lk\<close>)
  have "SchedFindNext s0 \<noteq> None" "SchedFindNext s0 \<noteq> Some None"
    by (rule notI; use assms l in \<open>simp add: SchedYield_def lk\<close>)+
  then obtain n where fn: "SchedulerLocked s0 = 0" "SchedFindNext s0 = Some (Some n)" using l by auto
  with assms have c: "CurrentTask s0 \<noteq> Some n" by (auto simp: SchedYield_def lk)
  obtain s1 s2 where n: "ready_remove n s0 = Some s1" "?requeue s1 = Some s2"
    and s': "s' = switch_tasks (CurrentTask s0) n
      ((set_task n (\<lambda>t. t\<lparr>State := TaskRunning, TimeUsed := 0, Switches := Switches t + 1\<rparr>) s2)
         \<lparr>CurrentTask := Some n, ContextSwitches := ContextSwitches s2 + 1\<rparr>)"
    using assms c fn by (auto simp: SchedYield_def lk Let_def bind_eq_Some_conv set_task_def)
  have "esps (Tasks s2) = esps (Tasks s0) \<and> Machine s2 = Machine s0"
    using n(2) queue_calls_esps(2) [OF n(1)]
    by (auto simp: esps_set_task dest!: queue_calls_esps(1) split: option.splits if_splits)
  then show thesis
    using c s' s0 by (intro that) (auto simp: esps_set_task)
qed

lemma SchedYield_machine:
  assumes "SchedYield s = Some (s', True)" and "n < length (Tasks s)" and "CurrentTask s' = Some n"
  shows "Machine s' =
       snd (SchedSwitch (Esp (task s n)) (cpu_disable_irqs (fst (Machine s)), snd (Machine s)))"
    and "CurrentTask s = Some p \<Longrightarrow> p < length (Tasks s) \<Longrightarrow> Esp (task s' p) = esp (fst (Machine s)) - 24"
    and "CurrentTask s \<noteq> Some j \<Longrightarrow> j < length (Tasks s) \<Longrightarrow> Esp (task s' j) = Esp (task s j)"
proof -
  obtain m s1 where m: "CurrentTask s \<noteq> Some m" "CurrentTask s1 = Some m"
    "esps (Tasks s1) = esps (Tasks s)"
    "Machine s1 = (cpu_disable_irqs (fst (Machine s)), snd (Machine s))"
    "s' = switch_tasks (CurrentTask s) m s1"
    using SchedYield_split [OF assms(1)] .
  have len: "length (Tasks s1) = length (Tasks s)" using m(3) by (metis esps_def length_map)
  have cur: "CurrentTask s' = CurrentTask s1"
    by (simp add: m(5) switch_tasks_def Let_def set_task_def split: prod.splits option.splits)
  then have mn: "m = n" using m(2) assms(3) by simp
  have e: "Esp (task s1 j) = Esp (task s j)" if "j < length (Tasks s)" for j
    using esps_nth [OF m(3)] len that by simp
  obtain old cm where sw: "SchedSwitch (Esp (task s n)) (Machine s1) = (old, cm)"
    by (cases "SchedSwitch (Esp (task s n)) (Machine s1)") auto
  have old: "old = esp (fst (Machine s)) - 24"
    using sw by (simp add: SchedSwitch_def Let_def m(4) switch_save_esp cpu_disable_irqs_def)
  have s': "s' = (case CurrentTask s of None \<Rightarrow> s1\<lparr>Machine := cm\<rparr>
      | Some p \<Rightarrow> set_task p (\<lambda>t. t\<lparr>Esp := old\<rparr>) (s1\<lparr>Machine := cm\<rparr>))"
    using m(5) e [OF assms(2)] sw by (simp add: switch_tasks_def mn Let_def)
  show "Machine s' =
       snd (SchedSwitch (Esp (task s n)) (cpu_disable_irqs (fst (Machine s)), snd (Machine s)))"
    using s' sw m(4) by (simp add: set_task_def split: option.splits)
  show "CurrentTask s = Some p \<Longrightarrow> p < length (Tasks s) \<Longrightarrow> Esp (task s' p) = esp (fst (Machine s)) - 24"
    using s' old len by (simp add: set_task_def)
  show "CurrentTask s \<noteq> Some j \<Longrightarrow> j < length (Tasks s) \<Longrightarrow> Esp (task s' j) = Esp (task s j)"
    using s' e [of j] by (auto simp: set_task_def split: option.splits)
qed

text \<open>
  A created task has its stack pointer on the frame of \<^verbatim>\<open>SchedInitStack\<close>; the processor is
  as it was.
\<close>

lemma SchedCreate_slot_machine:
  assumes "SchedCreate_slot stub nm entry stacktop i s = Some s'"
  shows "i < length (Tasks s) \<Longrightarrow> Esp (task s' i) = stacktop - 32"
    and "snd (Machine s') = snd (SchedInitStack stub entry stacktop (snd (Machine s)))"
    and "i \<noteq> j \<Longrightarrow> j < length (Tasks s) \<Longrightarrow> Esp (task s' j) = Esp (task s j)"
    and "fst (Machine s') = fst (Machine s)"
proof -
  obtain s1 where s1: "dead_remove i s = Some s1"
    using assms by (auto simp: SchedCreate_slot_def bind_eq_Some_conv)
  note e1 = queue_calls_esps(3) [OF s1]
  obtain sp m where st: "SchedInitStack stub entry stacktop (snd (Machine s)) = (sp, m)" by fastforce
  then have sp: "sp = stacktop - 32" using SchedInitStack_esp by (metis fst_conv)
  let ?y = "(set_task i (\<lambda>t. t\<lparr>TaskId := NextTaskId s1\<rparr>) s1)\<lparr>NextTaskId := NextTaskId s1 + 1,
      Machine := (fst (Machine s), m)\<rparr>"
  have my: "Machine (set_task i f s1) = Machine s" for f using e1 by (simp add: set_task_def)
  obtain f s2 where s2: "ready_add i (set_task i f ?y) = Some s2" "\<And>t. Esp (f t) = sp"
    and s': "s' = s2\<lparr>TaskCountValue := TaskCountValue s2 + 1\<rparr>"
    using assms by (simp add: SchedCreate_slot_def s1 my st bind_eq_Some_conv Let_def
        cong: option.case_cong) fastforce
  note e2 = queue_calls_esps(1) [OF s2(1)]
  have len: "length (Tasks s1) = length (Tasks s)" "length (Tasks s2) = length (Tasks s)"
    using e1 e2 by (auto simp: esps_def set_task_def dest!: arg_cong [where f = length])
  have e: "Esp (task s' j) = (if j = i then sp else Esp (task s j))" if "j < length (Tasks s)" for j
  proof -
    have "Esp (task s2 j) = Esp (task (set_task i f ?y) j)"
      by (rule esps_nth) (use e2 that len in auto)
    also have "\<dots> = (if j = i then sp else Esp (task s1 j))"
      using that len s2(2) by (simp add: set_task_def)
    also have "Esp (task s1 j) = Esp (task s j)"
      by (rule esps_nth) (use e1 that len in auto)
    finally show ?thesis by (simp add: s')
  qed
  show "i < length (Tasks s) \<Longrightarrow> Esp (task s' i) = stacktop - 32" using e sp by simp
  show "i \<noteq> j \<Longrightarrow> j < length (Tasks s) \<Longrightarrow> Esp (task s' j) = Esp (task s j)" using e by simp
  show "snd (Machine s') = snd (SchedInitStack stub entry stacktop (snd (Machine s)))"
    and "fst (Machine s') = fst (Machine s)"
    using e2 st by (simp_all add: s' set_task_def)
qed

lemma SchedCreate_machine:
  assumes "SchedCreate stub (Some nm) entry stacktop s = Some (Some i, s')" and "i < length (Tasks s)"
  shows "Esp (task s' i) = stacktop - 32"
    and "snd (Machine s') = snd (SchedInitStack stub entry stacktop (snd (Machine s)))"
    and "i \<noteq> j \<Longrightarrow> j < length (Tasks s) \<Longrightarrow> Esp (task s' j) = Esp (task s j)"
    and "esp (fst (Machine s')) = esp (fst (Machine s))"
proof -
  obtain w s0 where lk: "SchedLockIrq s = (w, s0)" by fastforce
  then have s0: "snd (Machine s0) = snd (Machine s)" "Tasks s0 = Tasks s"
    "esp (fst (Machine s0)) = esp (fst (Machine s))"
    by (auto simp: SchedLockIrq_def cpu_disable_irqs_def)
  have esp: "fst (SchedInitStack stub entry stacktop m) = stacktop - 32" for m
    by (rule SchedInitStack_esp)
  obtain s1 where s1: "SchedCreate_slot stub nm entry stacktop i s0 = Some s1" "s' = SchedUnlockIrq w s1"
    using assms(1) by (auto simp: SchedCreate_def lk bind_eq_Some_conv split: if_splits option.splits)
  have un: "Tasks s' = Tasks s1" "snd (Machine s') = snd (Machine s1)"
    "esp (fst (Machine s')) = esp (fst (Machine s1))"
    by (simp_all add: s1(2) SchedUnlockIrq_def cpu_enable_irqs_def)
  show "Esp (task s' i) = stacktop - 32"
    and "snd (Machine s') = snd (SchedInitStack stub entry stacktop (snd (Machine s)))"
    and "i \<noteq> j \<Longrightarrow> j < length (Tasks s) \<Longrightarrow> Esp (task s' j) = Esp (task s j)"
    and "esp (fst (Machine s')) = esp (fst (Machine s))"
    using SchedCreate_slot_machine [OF s1(1)] assms(2) s0 un by auto
qed

subsection \<open>A task that blocks itself\<close>

text \<open>The task table after a yield that switches to \<open>n\<close>.\<close>

lemma ayield_tab:
  assumes "ainv a" and "lck a = 0" and "apick a = Some n" and "cur a \<noteq> Some n"
  shows "cur (fst (ayield a)) = Some n"
    and "i < SchedMaxTasks \<Longrightarrow> tab (fst (ayield a)) ! i =
      (if i = n then (tab a ! n)\<lparr>State := TaskRunning, TimeUsed := 0, Switches := Switches (tab a ! n) + 1\<rparr>
       else if State (tab a ! i) = TaskRunning then (tab a ! i)\<lparr>State := TaskReady\<rparr> else tab a ! i)"
proof -
  have nb: "n < SchedMaxTasks"
    using apick_member [OF assms(3)] queues_okD(5) [OF ainvD(1) [OF assms(1)]] by blast
  have eq: "ayield a = (adispatch n (arequeue (a\<lparr>rq := remove1 n (rq a)\<rparr>)), True)"
    using assms(2-4) by (simp add: ayield_def)
  then show "cur (fst (ayield a)) = Some n" by (simp add: adispatch_def)
  show "i < SchedMaxTasks \<Longrightarrow> tab (fst (ayield a)) ! i =
      (if i = n then (tab a ! n)\<lparr>State := TaskRunning, TimeUsed := 0, Switches := Switches (tab a ! n) + 1\<rparr>
       else if State (tab a ! i) = TaskRunning then (tab a ! i)\<lparr>State := TaskReady\<rparr> else tab a ! i)"
    unfolding eq fst_conv by (rule arequeue_dispatch_tab [OF ainvD(1,2) [OF assms(1)] nb _ assms(4)])
qed

lemma afind_unique:
  assumes "ainv a" and "live a i"
  shows "afind (TaskId (tab a ! i)) a = Some i"
proof (cases "afind (TaskId (tab a ! i)) a")
  case None
  with assms(2) show ?thesis by (auto simp: afind_def find_None_iff live_def)
next
  case (Some j)
  from afind_live [OF this] assms ainvD(3) [OF assms(1)] have "j = i"
    by (auto simp: ids_ok_def)
  with Some show ?thesis by simp
qed

text \<open>
  With the scheduler unlocked a running task that blocks itself is switched away from: the
  idle task is ready, so there is always a task to run.
\<close>

lemma SchedBlock_switches:
  assumes "refines s a" and "ainv a" and "lck a = 0" and "cur a = Some i" and "i \<noteq> 0"
    and "State (tab a ! i) = TaskRunning"
  obtains s' n where "SchedBlock s = Some (s', True)" and "CurrentTask s' = Some n" and "n \<noteq> i"
    and "State (task s' i) = TaskBlocked" and "refines s' (fst (ayield (ablock i a)))"
    and "ainv (fst (ayield (ablock i a)))"
proof -
  let ?b = "ablock i a"
  note q = queues_okD [OF ainvD(1) [OF assms(2)]]
  have lv: "live a i" using ainvD(2) [OF assms(2)] assms(4) by (simp add: current_ok_def)
  have i: "i < SchedMaxTasks" using lv by (simp add: live_def)
  have ti: "TaskId (tab a ! i) \<noteq> 0" using zero_id_idle [OF ainvD(3) [OF assms(2)] lv] assms(5) by simp
  have inv: "ainv ?b" using ablock_ainv [OF assms(2) lv assms(5)] assms(6) by simp
  have st: "State (tab ?b ! i) = TaskBlocked" "cur ?b = Some i" using i q(1) assms(4) by (simp_all add: ablock_def)
  then have nr: "i \<notin> set (rq ?b)" using queues_okD(5) [OF ainvD(1) [OF inv]] by simp
  have sw: "snd (ayield ?b)" "cur (fst (ayield ?b)) \<noteq> None"
    using ayield_switches [OF inv] assms(3,5) st(2) nr by (auto simp: ablock_def)
  then obtain n where n: "apick ?b = Some n" "n \<noteq> i"
    using st(2) by (auto simp: ayield_def split: if_splits option.splits)
  have fin: "State (tab (fst (ayield ?b)) ! i) = TaskBlocked" "cur (fst (ayield ?b)) = Some n"
    using ayield_tab [OF inv _ n(1)] i st n(2) assms(3) by (simp_all add: ablock_def)
  have "ablock_self a = (fst (ayield ?b), True)"
    using ablock_task_self [OF afind_unique [OF assms(2) lv] ti] assms(4,6) ti sw(1)
    by (auto simp: ablock_self_def split: prod.splits)
  with SchedBlock_sim [OF assms(1,2)] obtain s' where s': "SchedBlock s = Some (s', True)"
    "refines s' (fst (ayield ?b))" by (auto simp: returns_def)
  have "State (task s' i) = TaskBlocked" "CurrentTask s' = Some n"
    using refines_nth [OF s'(2), of i] refines_current(1) [OF s'(2) ayield_ainv [OF inv]] i fin
      refinesD(2) [OF s'(2)] by simp_all
  with s' n(2) ayield_ainv [OF inv] show thesis by (intro that) simp_all
qed

end
