(* ===== verification/Sched_Props.thy ===== *)
theory Sched_Props
  imports Sched_Machine
begin

text \<open>
  The properties of the scheduler, stated over the operations of \<^verbatim>\<open>Sched\<close>, with the concrete
  state \<open>demo\<close> (an idle task, a running task, a ready one and a sleeping one) on which they
  are applied.
\<close>

subsection \<open>A concrete state\<close>

definition demo_task :: "u32 \<Rightarrow> u32 \<Rightarrow> u32 \<Rightarrow> TaskState \<Rightarrow> nat option \<Rightarrow> Task" where
  "demo_task ident prio wake st nxt =
     \<lparr>TaskId = ident, ParentId = 0, Eip = 0x100000, Esp = 0, Ebp = 0, Priority = prio, TimeSlice = 10,
      TimeUsed = 0, Runtime = 0, Switches = 0, WakeTick = wake, State = st,
      Name = replicate SchedNameLength 0, Next = nxt\<rparr>"

definition demo_cpu :: cpu where
  "demo_cpu = \<lparr>edi = 1, esi = 2, ebx = 3, ebp = 4, esp = 0x8000, eflags = 0x202, eip = 0x100040\<rparr>"

definition demo :: sched where
  "demo =
     \<lparr>Tasks = (replicate SchedMaxTasks (demo_task 0 1 0 TaskDead None))
        [0 := demo_task 0 0 0 TaskReady (Some 2), 1 := demo_task 1 1 0 TaskRunning None,
         2 := demo_task 2 5 0 TaskReady None, 3 := demo_task 3 1 100 TaskBlocked None],
      CurrentTask = Some 1, CurrentPolicy = SchedRoundRobin, TaskCountValue = 4, NextTaskId = 4,
      SchedulerTicks = 0, ContextSwitches = 0, SchedulerLocked = 0, PreemptPending = False,
      Machine = (demo_cpu, \<lambda>_. 0),
      ReadyQueue = Some 0, BlockedQueue = Some 3, DeadQueue = None\<rparr>"

definition ademo :: aspec where
  "ademo =
     \<lparr>tab = map erase (Tasks demo), cur = Some 1, pol = SchedRoundRobin, cnt = 4, nid = 4, ticks = 0,
      sws = 0, lck = 0, pend = False, rq = [0, 2], bq = [3], dq = []\<rparr>"

lemma demo_tasks [simp]: "length (Tasks demo) = SchedMaxTasks"
  by (simp add: demo_def)

lemma demo_nth [simp]:
  "i < SchedMaxTasks \<Longrightarrow> task demo i =
     (if i = 0 then demo_task 0 0 0 TaskReady (Some 2) else if i = 1 then demo_task 1 1 0 TaskRunning None
      else if i = 2 then demo_task 2 5 0 TaskReady None
      else if i = 3 then demo_task 3 1 100 TaskBlocked None else demo_task 0 1 0 TaskDead None)"
  by (simp add: demo_def nth_list_update)

lemma demo_task_fields [simp]:
  "TaskId (demo_task ident prio wake st nxt) = ident" "Priority (demo_task ident prio wake st nxt) = prio"
  "WakeTick (demo_task ident prio wake st nxt) = wake" "State (demo_task ident prio wake st nxt) = st"
  "Next (demo_task ident prio wake st nxt) = nxt" "TimeUsed (demo_task ident prio wake st nxt) = 0"
  "TimeSlice (demo_task ident prio wake st nxt) = 10" "Esp (demo_task ident prio wake st nxt) = 0"
  by (simp_all add: demo_task_def)

lemma demo_fields [simp]:
  "CurrentTask demo = Some 1" "CurrentPolicy demo = SchedRoundRobin" "TaskCountValue demo = 4"
  "NextTaskId demo = 4" "SchedulerLocked demo = 0" "PreemptPending demo = False"
  "ReadyQueue demo = Some 0" "BlockedQueue demo = Some 3" "DeadQueue demo = None"
  "Machine demo = (demo_cpu, \<lambda>_. 0)" "SchedulerTicks demo = 0" "ContextSwitches demo = 0"
  by (simp_all add: demo_def)

lemma ademo_fields [simp]:
  "cur ademo = Some 1" "pol ademo = SchedRoundRobin" "cnt ademo = 4" "nid ademo = 4" "lck ademo = 0"
  "rq ademo = [0, 2]" "bq ademo = [3]" "dq ademo = []" "length (tab ademo) = SchedMaxTasks"
  "i < SchedMaxTasks \<Longrightarrow> tab ademo ! i = erase (task demo i)" "pend ademo = False"
  "ticks ademo = 0" "sws ademo = 0"
  by (simp_all add: ademo_def)

lemma below_max [simp]: "Suc 0 < SchedMaxTasks" "2 < SchedMaxTasks" "3 < SchedMaxTasks" "4 < SchedMaxTasks"
  by (simp_all add: SchedMaxTasks_def)

lemma demo_refines: "refines demo ademo"
  by (simp add: refines_def) (simp add: ademo_def)

lemma ademo_inv: "ainv ademo"
proof -
  have lv: "live ademo i \<longleftrightarrow> i \<in> {0, 1, 2, 3}" for i
    by (cases "i < SchedMaxTasks") (auto simp: live_def, simp add: SchedMaxTasks_def)
  have "{i. live ademo i} = {0, 1, 2, 3}" using lv by blast
  then have "count_ok ademo" by (simp add: count_ok_def)
  moreover have "queues_ok ademo" by (auto simp: queues_ok_def split: if_splits)
  moreover have "current_ok ademo" by (auto simp: current_ok_def lv split: if_splits)
  moreover have "ids_ok ademo" by (auto simp: ids_ok_def lv)
  ultimately show ?thesis by (simp add: ainv_def)
qed

lemma demo_inv: "sched_inv demo"
  by (rule sched_invI [OF demo_refines ademo_inv])

subsection \<open>Invariant and termination\<close>

text \<open>
  C1: in every state the scheduler can reach, the three queues are disjoint null-terminated
  lists without repetition, the ready and the blocked queue hold exactly the tasks in that
  state, no task but the current one is running, slot 0 is the idle task with identifier 0
  and is ready or running, live tasks have distinct identifiers, and \<^verbatim>\<open>TaskCountValue\<close>
  counts the live tasks.
\<close>

theorem sched_reachable_structure:
  assumes "reachable s"
  shows "(\<exists>r b d. task_list (Tasks s) (ReadyQueue s) r \<and> task_list (Tasks s) (BlockedQueue s) b \<and>
        task_list (Tasks s) (DeadQueue s) d \<and> distinct (r @ b @ d) \<and>
        set r = {i. i < SchedMaxTasks \<and> State (task s i) = TaskReady} \<and>
        set b = {i. i < SchedMaxTasks \<and> State (task s i) = TaskBlocked} \<and>
        (\<forall>i \<in> set d. State (task s i) = TaskDead)) \<and>
      (\<forall>i < SchedMaxTasks. State (task s i) = TaskRunning \<longrightarrow> CurrentTask s = Some i) \<and>
      TaskId (task s 0) = 0 \<and> State (task s 0) \<in> {TaskReady, TaskRunning} \<and>
      inj_on (\<lambda>i. TaskId (task s i)) {i. i < SchedMaxTasks \<and> State (task s i) \<noteq> TaskDead} \<and>
      unat (TaskCountValue s) = card {i. i < SchedMaxTasks \<and> State (task s i) \<noteq> TaskDead}"
proof -
  obtain a where a: "refines s a" "ainv a" using reachable_inv [OF assms] by (auto simp: sched_inv_def)
  note r = refinesD [OF a(1)] and inv = ainvD [OF a(2)]
  have t: "tab a ! i = erase (task s i)" if "i < SchedMaxTasks" for i
    using refines_nth [OF a(1)] that refines_current(1) [OF a] by simp
  have "set (rq a) = {i. i < SchedMaxTasks \<and> State (task s i) = TaskReady}"
    "set (bq a) = {i. i < SchedMaxTasks \<and> State (task s i) = TaskBlocked}"
    "\<forall>i \<in> set (dq a). State (task s i) = TaskDead"
    using inv(1) t by (auto simp: queues_ok_def)
  with r(10-13) have "\<exists>r b d. task_list (Tasks s) (ReadyQueue s) r \<and> task_list (Tasks s) (BlockedQueue s) b \<and>
      task_list (Tasks s) (DeadQueue s) d \<and> distinct (r @ b @ d) \<and>
      set r = {i. i < SchedMaxTasks \<and> State (task s i) = TaskReady} \<and>
      set b = {i. i < SchedMaxTasks \<and> State (task s i) = TaskBlocked} \<and>
      (\<forall>i \<in> set d. State (task s i) = TaskDead)" by blast
  moreover have "\<forall>i < SchedMaxTasks. State (task s i) = TaskRunning \<longrightarrow> CurrentTask s = Some i"
    using inv(2) t r(2) by (simp add: current_ok_def)
  moreover have "TaskId (task s 0) = 0" "State (task s 0) \<in> {TaskReady, TaskRunning}"
    using inv(3) t by (simp_all add: ids_ok_def)
  moreover have "inj_on (\<lambda>i. TaskId (task s i)) {i. i < SchedMaxTasks \<and> State (task s i) \<noteq> TaskDead}"
    using inv(3) t by (auto simp: ids_ok_def live_def inj_on_def)
  moreover have "{i. live a i} = {i. i < SchedMaxTasks \<and> State (task s i) \<noteq> TaskDead}"
    using t by (auto simp: live_def)
  then have "unat (TaskCountValue s) = card {i. i < SchedMaxTasks \<and> State (task s i) \<noteq> TaskDead}"
    using inv(4) r(4) by (simp add: count_ok_def)
  ultimately show ?thesis by blast
qed

theorem sched_reachable_structure_witness:
  "unat (TaskCountValue (SchedInit demo)) =
     card {i. i < SchedMaxTasks \<and> State (task (SchedInit demo) i) \<noteq> TaskDead}"
  using sched_reachable_structure [OF reachable.init [OF demo_tasks]] by blast

text \<open>
  C2: every call of the scheduler's interface that respects the caller's obligations
  (\<open>allowed\<close>) returns from every reachable state: no queue walk runs forever, and the state
  it leaves is again reachable.
\<close>

theorem sched_calls_return:
  assumes "reachable s" and "allowed c s"
  shows "\<exists>s'. run_call c s = Some s' \<and> reachable s'"
proof -
  obtain s' where "run_call c s = Some s'"
    using run_call_inv [OF reachable_inv [OF assms(1)] assms(2)] by (auto simp: returns_def)
  with assms show ?thesis by (blast intro: reachable.call)
qed

theorem sched_calls_return_witness:
  "\<exists>s'. run_call (CCreate 0x200000 (Some [65, 66]) 0x300000 0x400000) (SchedInit demo) = Some s' \<and>
     reachable s'"
  by (rule sched_calls_return [OF reachable.init])
    (simp_all add: SchedInit_def Let_def set_task_def)

subsection \<open>Switching\<close>

text \<open>
  C3: \<^verbatim>\<open>SchedYield\<close> implements the abstract yield: nothing while the scheduler is locked, when
  the ready queue is empty or when the pick is the current task; otherwise the picked task
  leaves the ready queue, a running caller goes to the end of it, and the picked task is
  current and running with its time slice fresh. A switch is reported exactly then.
\<close>

theorem SchedYield_correct:
  assumes "refines s a" and "ainv a"
  shows "\<exists>s'. SchedYield s = Some (s', snd (ayield a)) \<and> refines s' (fst (ayield a)) \<and>
    ainv (fst (ayield a))"
  using SchedYield_sim [OF assms] ayield_ainv [OF assms(2)] by (auto simp: returns_def)

theorem SchedYield_correct_witness:
  "\<exists>s'. SchedYield demo = Some (s', True) \<and> CurrentTask s' = Some 2"
proof -
  have y: "snd (ayield ademo)" "cur (fst (ayield ademo)) = Some 2"
    by (simp_all add: ayield_def apick_def pick_round_robin_def adispatch_def)
  obtain s' where "SchedYield demo = Some (s', snd (ayield ademo))" "refines s' (fst (ayield ademo))"
    using SchedYield_correct [OF demo_refines ademo_inv] by blast
  with y show ?thesis using refinesD(2) by (metis (full_types))
qed

text \<open>
  C4: a task that yields resumes where it left off. When \<open>p\<close> yields in \<open>s\<close>, and a later
  yield, in a state \<open>t\<close> that still has \<open>p\<close>'s saved stack pointer and whose memory still
  holds what \<^verbatim>\<open>SchedSwitch\<close> pushed for \<open>p\<close>, dispatches \<open>p\<close> again, then the processor has
  exactly the registers, the stack pointer, the flags and the instruction pointer it had
  when \<open>p\<close> called the switch, interrupts being off until \<open>p\<close> restores them.
\<close>

theorem SchedYield_resumes:
  assumes "SchedYield s = Some (s', True)" and "CurrentTask s = Some p" and "p < length (Tasks s)"
    and "CurrentTask s' = Some n" and "n < length (Tasks s)"
    and "SchedYield t = Some (t', True)" and "CurrentTask t' = Some p" and "p < length (Tasks t)"
    and "Esp (task t p) = Esp (task s' p)"
    and "switch_frame (snd (switch_save (cpu_disable_irqs (fst (Machine t)), snd (Machine t)))) (Esp (task t p)) =
         switch_frame (snd (switch_save (cpu_disable_irqs (fst (Machine s)), snd (Machine s)))) (Esp (task t p))"
  shows "fst (Machine t') = cpu_disable_irqs (fst (Machine s))"
proof -
  let ?c = "cpu_disable_irqs (fst (Machine s))"
  have "Esp (task t p) = fst (SchedSwitch (Esp (task s n)) (?c, snd (Machine s)))"
    using SchedYield_machine(2) [OF assms(1,5,4,2,3)] assms(9)
    by (simp add: SchedSwitch_def Let_def switch_save_esp cpu_disable_irqs_def)
  from switch_back [OF assms(10) this] show ?thesis
    using SchedYield_machine(1) [OF assms(6,8,7)] by simp
qed

text \<open>The state of a second yield: the idle task runs and task 1 is next.\<close>

definition demo_back :: sched where
  "demo_back = demo\<lparr>Tasks := (Tasks demo)
      [0 := (demo_task 0 0 0 TaskRunning None), 1 := (demo_task 1 1 0 TaskReady (Some 2))\<lparr>Esp := 0x8000 - 24\<rparr>],
      CurrentTask := Some 0, ReadyQueue := Some 1,
      Machine := (demo_cpu\<lparr>esp := 0x9000\<rparr>, snd (switch_save (cpu_disable_irqs demo_cpu, \<lambda>_. 0)))\<rparr>"

definition ademo_back :: aspec where
  "ademo_back = ademo\<lparr>tab := map erase (Tasks demo_back), cur := Some 0, rq := [1, 2]\<rparr>"

lemma demo_back_nth [simp]:
  "i < SchedMaxTasks \<Longrightarrow> task demo_back i =
     (if i = 0 then demo_task 0 0 0 TaskRunning None
      else if i = 1 then (demo_task 1 1 0 TaskReady (Some 2))\<lparr>Esp := 0x8000 - 24\<rparr> else task demo i)"
  by (simp add: demo_back_def nth_list_update)

lemma ademo_back_fields [simp]:
  "cur ademo_back = Some 0" "rq ademo_back = [1, 2]" "bq ademo_back = [3]" "dq ademo_back = []"
  "nid ademo_back = 4" "cnt ademo_back = 4" "length (tab ademo_back) = SchedMaxTasks"
  "lck ademo_back = 0" "pol ademo_back = SchedRoundRobin"
  "i < SchedMaxTasks \<Longrightarrow> tab ademo_back ! i = erase (task demo_back i)"
  by (simp_all add: ademo_back_def demo_back_def)

lemma demo_back_refines: "refines demo_back ademo_back"
  by (simp add: refines_def ademo_back_def) (simp add: demo_back_def)

lemma ademo_back_inv: "ainv ademo_back"
proof -
  have lv: "live ademo_back i \<longleftrightarrow> i \<in> {0, 1, 2, 3}" for i
    by (cases "i < SchedMaxTasks") (auto simp: live_def, simp add: SchedMaxTasks_def)
  have "{i. live ademo_back i} = {0, 1, 2, 3}" using lv by blast
  then have "count_ok ademo_back" by (simp add: count_ok_def)
  moreover have "queues_ok ademo_back" by (auto simp: queues_ok_def split: if_splits)
  moreover have "current_ok ademo_back" by (auto simp: current_ok_def lv split: if_splits)
  moreover have "ids_ok ademo_back" by (auto simp: ids_ok_def lv)
  ultimately show ?thesis by (simp add: ainv_def)
qed

theorem SchedYield_resumes_witness:
  "\<exists>t'. SchedYield demo_back = Some (t', True) \<and> fst (Machine t') = cpu_disable_irqs demo_cpu"
proof -
  have y: "snd (ayield ademo)" "cur (fst (ayield ademo)) = Some 2"
    "snd (ayield ademo_back)" "cur (fst (ayield ademo_back)) = Some 1"
    by (simp_all add: ayield_def apick_def pick_round_robin_def adispatch_def)
  obtain s' where s': "SchedYield demo = Some (s', True)" "CurrentTask s' = Some 2"
    using SchedYield_sim [OF demo_refines ademo_inv] y(1,2) by (auto simp: returns_def dest: refinesD(2))
  obtain t' where t': "SchedYield demo_back = Some (t', True)" "CurrentTask t' = Some 1"
    using SchedYield_sim [OF demo_back_refines ademo_back_inv] y(3,4)
    by (auto simp: returns_def dest: refinesD(2))
  have b: "length (Tasks demo_back) = SchedMaxTasks"
    "Machine demo_back = (demo_cpu\<lparr>esp := 0x9000\<rparr>, snd (switch_save (cpu_disable_irqs demo_cpu, \<lambda>_. 0)))"
    by (simp_all add: demo_back_def)
  have "fst (Machine t') = cpu_disable_irqs (fst (Machine demo))"
    by (rule SchedYield_resumes [OF s'(1) _ _ s'(2) _ t'])
      (use SchedYield_machine(2) [OF s'(1) _ s'(2), of 1] in
        \<open>simp_all add: b switch_save_def push_def switch_frame_def demo_cpu_def cpu_disable_irqs_def upt_rec\<close>)
  with t'(1) show ?thesis by simp
qed

text \<open>
  C8: a task that \<^verbatim>\<open>SchedCreate\<close> has made starts, when a yield dispatches it for the first
  time, in \<^verbatim>\<open>SchedExitStub\<close> with zero registers, interrupts enabled, a null return address
  and its entry point as the first argument, provided its stack still holds the frame
  \<^verbatim>\<open>SchedInitStack\<close> wrote.
\<close>

theorem SchedCreate_first_run:
  assumes "SchedCreate stub (Some nm) entry stacktop s = Some (Some i, s')" and "i < length (Tasks s)"
    and "SchedYield t = Some (t', True)" and "CurrentTask t' = Some i" and "i < length (Tasks t)"
    and "Esp (task t i) = Esp (task s' i)"
    and "\<And>k. k < 8 \<Longrightarrow>
      snd (switch_save (cpu_disable_irqs (fst (Machine t)), snd (Machine t))) (stacktop - 32 + 4 * of_nat k) =
      snd (Machine s') (stacktop - 32 + 4 * of_nat k)"
  shows "fst (Machine t') =
      \<lparr>edi = 0, esi = 0, ebx = 0, ebp = 0, esp = stacktop - 8, eflags = 0x202, eip = stub\<rparr> \<and>
    snd (Machine t') (stacktop - 8) = 0 \<and> snd (Machine t') (stacktop - 4) = entry"
proof -
  let ?cm = "(cpu_disable_irqs (fst (Machine t)), snd (Machine t))"
  note c = SchedCreate_machine [OF assms(1,2)]
  have esp: "Esp (task t i) = fst (SchedInitStack stub entry stacktop (snd (Machine s)))"
    using assms(6) c(1) by (simp add: SchedInitStack_esp)
  have mem: "snd (switch_save ?cm) (stacktop - 32 + 4 * of_nat k) =
      snd (SchedInitStack stub entry stacktop (snd (Machine s))) (stacktop - 32 + 4 * of_nat k)" if "k < 8" for k
    using assms(7) [OF that] c(2) by simp
  have fr: "switch_frame (snd (switch_save ?cm)) (Esp (task t i)) =
      switch_frame (snd (SchedInitStack stub entry stacktop (snd (Machine s)))) (Esp (task t i))"
    using mem by (simp add: switch_frame_def esp SchedInitStack_esp)
  have m: "Machine t' = snd (SchedSwitch (Esp (task t i)) ?cm)"
    by (rule SchedYield_machine(1) [OF assms(3,5,4)])
  have "snd (Machine t') = snd (switch_save ?cm)"
    by (simp add: m SchedSwitch_def Let_def switch_restore_def)
  then have "snd (Machine t') (stacktop - 8) = 0 \<and> snd (Machine t') (stacktop - 4) = entry"
    using mem [of 6] mem [of 7] SchedInitStack_args [of stub entry stacktop] by simp
  with switch_to_fresh [OF fr esp] m show ?thesis by simp
qed

lemma find_first_free:
  "\<not> P 0 \<Longrightarrow> P 1 \<Longrightarrow> find P [0..<SchedMaxTasks] = Some (Suc 0)"
  by (simp add: SchedMaxTasks_def upt_conv_Cons)

lemma demo_create:
  "\<exists>s'. SchedCreate 0x200000 (Some [65]) 0x300000 0x400000 (SchedInit demo) = Some (Some 1, s') \<and>
     refines s' (acreate_at 1 [65] 0x300000 0x400000 (ainit demo)) \<and>
     ainv (acreate_at 1 [65] 0x300000 0x400000 (ainit demo))"
proof -
  have c: "acreate [65] 0x300000 0x400000 (ainit demo) =
      (Some 1, acreate_at 1 [65] 0x300000 0x400000 (ainit demo))"
    by (simp add: acreate_def find_first_free ainit_def SchedResetTask_def)
      (simp add: SchedMaxTasks_def word_le_nat_alt)
  have "ainv (acreate_at 1 [65] 0x300000 0x400000 (ainit demo))"
    using acreate_ainv [OF ainit_ainv [OF demo_tasks], where nm = "[65]" and entry = "0x300000"
        and stacktop = "0x400000"] c
    by (simp add: ainit_def)
  with SchedCreate_sim [OF SchedInit_sim [OF demo_tasks] ainit_ainv [OF demo_tasks],
      of "0x200000" "[65]" "0x300000" "0x400000"] c
  show ?thesis by (auto simp: returns_def)
qed

theorem SchedCreate_first_run_witness:
  "\<exists>s' t'. SchedCreate 0x200000 (Some [65]) 0x300000 0x400000 (SchedInit demo) = Some (Some 1, s') \<and>
     SchedYield s' = Some (t', True) \<and> eip (fst (Machine t')) = 0x200000 \<and>
     snd (Machine t') (0x400000 - 4) = 0x300000"
proof -
  let ?b = "acreate_at 1 [65] 0x300000 0x400000 (ainit demo)"
  obtain s' where s': "SchedCreate 0x200000 (Some [65]) 0x300000 0x400000 (SchedInit demo) = Some (Some 1, s')"
    "refines s' ?b" "ainv ?b" using demo_create by blast
  have f: "lck ?b = 0" "pol ?b = SchedRoundRobin" "cur ?b = Some 0" "rq ?b = [1]"
    by (simp_all add: acreate_at_def ainit_def)
  have "TaskId (tab ?b ! 1) = 1" "TaskId (tab ?b ! 0) = 0"
    by (simp_all add: acreate_at_def ainit_def SchedResetTask_def)
  with f have y: "snd (ayield ?b)" "cur (fst (ayield ?b)) = Some 1"
    by (simp_all add: ayield_def apick_def pick_round_robin_def adispatch_def)
  obtain t' where t': "SchedYield s' = Some (t', True)" "CurrentTask t' = Some 1"
    using SchedYield_sim [OF s'(2,3)] y by (auto simp: returns_def dest: refinesD(2))
  have len: "length (Tasks (SchedInit demo)) = SchedMaxTasks" "length (Tasks s') = SchedMaxTasks"
    using refines_current(1) [OF SchedInit_sim ainit_ainv] refines_current(1) [OF s'(2,3)] by simp_all
  have "esp (fst (Machine (SchedInit demo))) = 0x8000"
    by (simp add: SchedInit_def Let_def set_task_def demo_cpu_def)
  then have sp: "esp (cpu_disable_irqs (fst (Machine s'))) = 0x8000"
    using SchedCreate_machine(4) [OF s'(1)] len by (simp add: cpu_disable_irqs_def)
  have "snd (switch_save (cpu_disable_irqs (fst (Machine s')), snd (Machine s'))) (0x400000 - 32 + 4 * of_nat k) =
      snd (Machine s') (0x400000 - 32 + 4 * of_nat k)" if "k < 8" for k
  proof -
    have "k \<in> {0, 1, 2, 3, 4, 5, 6, 7}" using that by auto
    then have "0x400000 - 32 + 4 * of_nat k \<in> {0x3FFFE0, 0x3FFFE4, 0x3FFFE8, 0x3FFFEC,
        0x3FFFF0, 0x3FFFF4, 0x3FFFF8, 0x3FFFFC :: u32}" by auto
    then show ?thesis by (intro switch_save_other) (auto simp: sp)
  qed
  from SchedCreate_first_run [OF s'(1) _ t' _ refl this] len s'(1) t'(1) show ?thesis by auto
qed

subsection \<open>Choosing\<close>

text \<open>
  C5: round robin is fair. Under the round-robin policy, with the scheduler unlocked, every
  ready task is dispatched after at most 1024 yields.
\<close>

theorem round_robin_fair:
  assumes "refines s a" and "ainv a" and "CurrentPolicy s = SchedRoundRobin"
    and "SchedulerLocked s = 0" and "CurrentTask s = Some c" and "State (task s c) = TaskRunning"
    and "i < SchedMaxTasks" and "State (task s i) = TaskReady"
  shows "\<exists>k \<le> 1024. \<exists>s'. yields k s = Some s' \<and> CurrentTask s' = Some i"
proof -
  note r = refinesD [OF assms(1)]
  have len: "length (Tasks s) = SchedMaxTasks" by (rule refines_current(1) [OF assms(1,2)])
  have t: "tab a ! j = erase (task s j)" if "j < SchedMaxTasks" for j
    using refines_nth [OF assms(1)] that len by simp
  have "i \<in> set (rq a)" using queues_okD(5) [OF ainvD(1) [OF assms(2)]] assms(7,8) t by simp
  moreover have "c < SchedMaxTasks" using refines_current(2) [OF assms(1,2,5)] .
  ultimately have w: "rr_waiting i a"
    using assms r t by (simp add: rr_waiting_def)
  obtain k s' where k: "k \<le> Suc (rr_measure i a)" "yields k s = Some s'" "CurrentTask s' = Some i"
    using yields_dispatch [OF assms(1) w] by (auto simp: returns_def)
  moreover have "k \<le> 1024" using k(1) rr_measure_bound [OF w] by (simp add: SchedMaxTasks_def)
  ultimately show ?thesis by blast
qed

theorem round_robin_fair_witness:
  "\<exists>k \<le> 1024. \<exists>s'. yields k demo = Some s' \<and> CurrentTask s' = Some 0"
  by (rule round_robin_fair [OF demo_refines ademo_inv, of 1]) simp_all

lemma fold_pick_first:
  assumes "distinct (x # xs)"
  shows "\<exists>ys zs. x # xs = ys @ fold (\<lambda>i b. if f i > (f b :: 'b::linorder) then i else b) xs x # zs \<and>
    (\<forall>y \<in> set ys. f y < f (fold (\<lambda>i b. if f i > f b then i else b) xs x))"
  using assms
proof (induction xs arbitrary: x rule: rev_induct)
  case Nil
  then show ?case by (intro exI [of _ "[]"]) simp
next
  case (snoc z xs)
  let ?b = "fold (\<lambda>i b. if f i > f b then i else b) xs x"
  obtain ys zs where *: "x # xs = ys @ ?b # zs" "\<forall>y \<in> set ys. f y < f ?b"
    using snoc.IH [of x] snoc.prems by auto
  show ?case
  proof (cases "f z > f ?b")
    case True
    have "\<forall>y \<in> set (x # xs). f y < f z"
      using fold_pick_max [of _ x xs f] True by fastforce
    with True show ?thesis by (intro exI [of _ "x # xs"] exI [of _ "[]"]) auto
  next
    case False
    with * show ?thesis by (intro exI [of _ ys] exI [of _ "zs @ [z]"]) auto
  qed
qed

text \<open>
  Under the priority policy the search returns a ready task of the highest priority,
  and the one that has been on the queue longest among those.
\<close>

theorem SchedFindPriority_best:
  assumes "refines s a" and "ainv a" and "rq a \<noteq> []"
  shows "\<exists>i before after. SchedFindPriority s = Some (Some i) \<and> rq a = before @ i # after \<and>
    (\<forall>j \<in> set before. Priority (task s j) < Priority (task s i)) \<and>
    (\<forall>j \<in> set after. Priority (task s j) \<le> Priority (task s i))"
proof -
  obtain x xs where x: "rq a = x # xs" using assms(3) by (cases "rq a") auto
  let ?i = "fold (\<lambda>i b. if Priority (tab a ! i) > Priority (tab a ! b) then i else b) xs x"
  have d: "distinct (x # xs)" using queues_okD(2) [OF ainvD(1) [OF assms(2)]] x by simp
  obtain ys zs where s: "x # xs = ys @ ?i # zs" "\<forall>y \<in> set ys. Priority (tab a ! y) < Priority (tab a ! ?i)"
    using fold_pick_first [OF d, of "\<lambda>i. Priority (tab a ! i)"] by blast
  have m: "Priority (tab a ! y) \<le> Priority (tab a ! ?i)" if "y \<in> set (x # xs)" for y
    using fold_pick_max [of y x xs "\<lambda>i. Priority (tab a ! i)"] that by simp
  have t: "Priority (tab a ! y) = Priority (task s y)" if "y \<in> set (rq a)" for y
    using that queues_okD(5) [OF ainvD(1) [OF assms(2)]] refines_nth [OF assms(1)]
      refines_current(1) [OF assms(1,2)] by simp
  have "SchedFindNext (s\<lparr>CurrentPolicy := SchedPriority\<rparr>) = Some (apick (a\<lparr>pol := SchedPriority\<rparr>))"
    by (rule SchedFindNext_sim)
      (use assms(1) refines_current [OF assms(1,2)] in \<open>simp_all add: refines_def\<close>)
  then have "SchedFindPriority s = Some (Some ?i)"
    by (simp add: SchedFindNext_def SchedFindPriority_def apick_def pick_priority_def x)
  moreover have rq: "rq a = ys @ ?i # zs" using s(1) x by simp
  have ti: "Priority (tab a ! ?i) = Priority (task s ?i)" by (rule t) (simp add: rq)
  have "\<forall>j \<in> set ys. Priority (task s j) < Priority (task s ?i)"
  proof
    fix j assume j: "j \<in> set ys"
    then have "Priority (tab a ! j) = Priority (task s j)" by (intro t) (simp add: rq)
    with s(2) j ti show "Priority (task s j) < Priority (task s ?i)" by fastforce
  qed
  moreover have "\<forall>j \<in> set zs. Priority (task s j) \<le> Priority (task s ?i)"
  proof
    fix j assume j: "j \<in> set zs"
    then have "Priority (tab a ! j) = Priority (task s j)" by (intro t) (simp add: rq)
    moreover have "j \<in> set (x # xs)" using j s(1) by simp
    ultimately show "Priority (task s j) \<le> Priority (task s ?i)" using m [of j] ti by simp
  qed
  ultimately show ?thesis using rq by blast
qed

theorem SchedFindPriority_best_witness:
  "\<exists>i. SchedFindPriority demo = Some (Some i)"
  using SchedFindPriority_best [OF demo_refines ademo_inv] by auto

end
