(* ===== verification/Sched_Props2.thy ===== *)
theory Sched_Props2
  imports Sched_Props
begin

text \<open>
  The properties of the scheduler that concern blocking, sleeping, ending and creating
  tasks, the time slice and the statistics.
\<close>

subsection \<open>Blocking and waking\<close>

lemma aset_aset: "aset i f (aset i g a) = aset i (\<lambda>t. f (g t)) a"
  by (cases "i < length (tab a)") (simp_all add: aset_def upd_task_def list_update_beyond)

lemma aset_id: "f (tab a ! i) = tab a ! i \<Longrightarrow> aset i f a = a"
  by (cases "i < length (tab a)") (simp_all add: aset_def upd_task_def list_update_beyond)

lemma block_wake_abstract:
  assumes "ainv a" and "i \<in> set (rq a)" and "TaskId (tab a ! i) \<noteq> 0" and "cur a \<noteq> Some i"
  shows "ablock_task (TaskId (tab a ! i)) a = (ablock i a, False)"
    and "awake_task (TaskId (tab a ! i)) (ablock i a) = a\<lparr>rq := remove1 i (rq a) @ [i]\<rparr>"
proof -
  note q = queues_okD [OF ainvD(1) [OF assms(1)]]
  have i: "i < SchedMaxTasks" "State (tab a ! i) = TaskReady" using q(5) assms(2) by auto
  then have lv: "live a i" by (simp add: live_def)
  have i0: "i \<noteq> 0" using assms(3) zero_id_idle [OF ainvD(3) [OF assms(1)] lv] by simp
  show "ablock_task (TaskId (tab a ! i)) a = (ablock i a, False)"
    using afind_unique [OF assms(1) lv] assms(3,4) i by (simp add: ablock_task_def)
  have inv: "ainv (ablock i a)" using ablock_ainv [OF assms(1) lv i0] i(2) by simp
  have t: "TaskId (tab (ablock i a) ! i) = TaskId (tab a ! i)" "State (tab (ablock i a) ! i) = TaskBlocked"
    using i(1) q(1) by (simp_all add: ablock_def)
  then have f: "afind (TaskId (tab a ! i)) (ablock i a) = Some i"
    using afind_unique [OF inv, of i] i(1) by (simp add: live_def)
  have nb: "i \<notin> set (bq a)" using q(6) i(2) by simp
  have "(tab a ! i)\<lparr>State := TaskReady\<rparr> = tab a ! i" using i(2) by (cases "tab a ! i") simp
  then have "aset i (\<lambda>t. t\<lparr>State := TaskReady\<rparr>) (aset i (\<lambda>t. t\<lparr>State := TaskBlocked\<rparr>) a) = a"
    by (simp add: aset_aset aset_id)
  then show "awake_task (TaskId (tab a ! i)) (ablock i a) = a\<lparr>rq := remove1 i (rq a) @ [i]\<rparr>"
    using f t(2) nb by (simp add: awake_task_def aunblock_def ablock_def remove1_append)
qed

text \<open>
  Blocking a ready task that is not running and waking it again leaves the scheduler as
  it was, except that the task is now at the end of the ready queue.
\<close>

theorem SchedBlockTask_wake_roundtrip:
  assumes "refines s a" and "ainv a" and "i \<in> set (rq a)" and "TaskId (tab a ! i) \<noteq> 0"
    and "cur a \<noteq> Some i"
  shows "\<exists>s1 s2. SchedBlockTask (TaskId (tab a ! i)) s = Some (s1, False) \<and>
    State (task s1 i) = TaskBlocked \<and> SchedWakeTask (TaskId (tab a ! i)) s1 = Some s2 \<and>
    refines s2 (a\<lparr>rq := remove1 i (rq a) @ [i]\<rparr>)"
proof -
  note ab = block_wake_abstract [OF assms(2-5)]
  obtain s1 where s1: "SchedBlockTask (TaskId (tab a ! i)) s = Some (s1, False)" "refines s1 (ablock i a)"
    using SchedBlockTask_sim [OF assms(1,2), of "TaskId (tab a ! i)"] ab(1) by (auto simp: returns_def)
  have inv: "ainv (ablock i a)"
    using ablock_task_ainv [OF assms(2), of "TaskId (tab a ! i)"] ab(1) by simp
  have i: "i < SchedMaxTasks" using queues_okD(5) [OF ainvD(1) [OF assms(2)]] assms(3) by blast
  have "State (tab (ablock i a) ! i) = TaskBlocked"
    using i queues_okD(1) [OF ainvD(1) [OF assms(2)]] by (simp add: ablock_def)
  then have "State (task s1 i) = TaskBlocked"
    using refines_nth [OF s1(2)] refines_current(1) [OF s1(2) inv] i by simp
  with s1 SchedWakeTask_sim [OF s1(2) inv, of "TaskId (tab a ! i)"] ab(2) show ?thesis
    by (auto simp: returns_def)
qed

theorem SchedBlockTask_wake_roundtrip_witness:
  "\<exists>s1 s2. SchedBlockTask 2 demo = Some (s1, False) \<and> State (task s1 2) = TaskBlocked \<and>
     SchedWakeTask 2 s1 = Some s2 \<and> refines s2 (ademo\<lparr>rq := [0, 2]\<rparr>)"
  using SchedBlockTask_wake_roundtrip [OF demo_refines ademo_inv, of 2] by simp

text \<open>
  A running task that blocks itself always gives the processor away: with the scheduler
  unlocked the call switches to another task, and the caller is on the blocked queue. (The
  idle task is always ready then, so there is a task to run.)
\<close>

theorem SchedBlock_gives_way:
  assumes "refines s a" and "ainv a" and "lck a = 0" and "cur a = Some i" and "i \<noteq> 0"
    and "State (tab a ! i) = TaskRunning"
  shows "\<exists>s'. SchedBlock s = Some (s', True) \<and> State (task s' i) = TaskBlocked \<and>
    CurrentTask s' \<noteq> None \<and> CurrentTask s' \<noteq> Some i"
proof -
  obtain s' n where "SchedBlock s = Some (s', True)" "CurrentTask s' = Some n" "n \<noteq> i"
    "State (task s' i) = TaskBlocked"
    by (rule SchedBlock_switches [OF assms])
  then show ?thesis by simp
qed

theorem SchedBlock_gives_way_witness:
  "\<exists>s'. SchedBlock demo = Some (s', True) \<and> State (task s' 1) = TaskBlocked \<and> CurrentTask s' \<noteq> None"
  using SchedBlock_gives_way [OF demo_refines ademo_inv, of 1] by auto

subsection \<open>Sleeping\<close>

lemma fold_awake_fields:
  assumes "distinct xs" and "length (tab a) = SchedMaxTasks"
  shows "rq (fold awake_one xs a) = rq a @ xs"
    and "bq (fold awake_one xs a) = fold remove1 xs (bq a)"
    and "i < SchedMaxTasks \<Longrightarrow> tab (fold awake_one xs a) ! i =
      (if i \<in> set xs then (tab a ! i)\<lparr>WakeTick := 0, State := TaskReady\<rparr> else tab a ! i)"
  using assms
proof (induction xs arbitrary: a)
  case (Cons x xs)
  { case 1 with Cons.IH(1) [of "awake_one x a"] show ?case by (simp add: aops) }
  { case 2 with Cons.IH(2) [of "awake_one x a"] show ?case by (simp add: aops) }
  { case 3 with Cons.IH(3) [of "awake_one x a"] show ?case by (auto simp: aops) }
qed simp_all

lemma fold_remove1_filter:
  "distinct ys \<Longrightarrow> fold remove1 xs ys = filter (\<lambda>y. y \<notin> set xs) ys"
  by (induction xs arbitrary: ys) (auto simp: remove1_filter_distinct filter_filter intro: filter_cong)

text \<open>
  C9: \<^verbatim>\<open>SchedWakeExpired\<close> wakes exactly the sleepers whose deadline has passed: they move, in
  queue order, from the blocked queue to the end of the ready queue with their deadline
  cleared, every other task is left alone, and the result counts them.
\<close>

theorem SchedWakeExpired_exact:
  fixes now :: u32
  assumes "refines s a" and "ainv a"
  defines "woken \<equiv> filter (\<lambda>i. expired now (tab a ! i)) (bq a)"
  shows "\<exists>s' a'. SchedWakeExpired now s = Some (of_nat (length woken), s') \<and> refines s' a' \<and>
    rq a' = rq a @ woken \<and> bq a' = filter (\<lambda>i. \<not> expired now (tab a ! i)) (bq a) \<and>
    (\<forall>i < SchedMaxTasks. tab a' ! i =
      (if i \<in> set woken then (tab a ! i)\<lparr>WakeTick := 0, State := TaskReady\<rparr> else tab a ! i))"
proof -
  note q = queues_okD [OF ainvD(1) [OF assms(2)]]
  have d: "distinct woken" using q(3) by (simp add: woken_def)
  have "bq (awake_expired now a) = filter (\<lambda>i. \<not> expired now (tab a ! i)) (bq a)"
    using fold_awake_fields(2) [OF d q(1)] q(3)
    by (auto simp: awake_expired_def woken_def fold_remove1_filter intro: filter_cong)
  moreover have "rq (awake_expired now a) = rq a @ woken"
    "\<And>i. i < SchedMaxTasks \<Longrightarrow> tab (awake_expired now a) ! i =
      (if i \<in> set woken then (tab a ! i)\<lparr>WakeTick := 0, State := TaskReady\<rparr> else tab a ! i)"
    using fold_awake_fields(1,3) [OF d q(1)] by (simp_all add: awake_expired_def woken_def [symmetric])
  moreover obtain s' where "SchedWakeExpired now s = Some (of_nat (length woken), s')"
    "refines s' (awake_expired now a)"
    using SchedWakeExpired_sim [OF assms(1,2), of now] by (auto simp: returns_def woken_def)
  ultimately show ?thesis by blast
qed

theorem SchedWakeExpired_exact_witness:
  "\<exists>s' a'. SchedWakeExpired 100 demo = Some (1, s') \<and> refines s' a' \<and> rq a' = [0, 2, 3] \<and> bq a' = []"
proof -
  have "filter (\<lambda>i. expired 100 (tab ademo ! i)) (bq ademo) = [3]"
    "filter (\<lambda>i. \<not> expired 100 (tab ademo ! i)) (bq ademo) = []"
    by (simp_all add: expired_def)
  with SchedWakeExpired_exact [OF demo_refines ademo_inv, of 100] show ?thesis by auto
qed

lemma sint_nonneg_iff: "0 \<le> sint (w :: u32) \<longleftrightarrow> unat w < 2 ^ 31"
proof -
  have b: "unat w < 2 ^ 32" using unsigned_less [of w] by simp
  have "bit w 31 \<longleftrightarrow> bit (unat w) 31" by (simp add: bit_unsigned_iff)
  also have "\<dots> \<longleftrightarrow> odd (unat w div 2 ^ 31)" by (simp add: bit_iff_odd)
  also have "\<dots> \<longleftrightarrow> \<not> unat w < 2 ^ 31"
  proof (cases "unat w < 2 ^ 31")
    case False
    then have "unat w div 2 ^ 31 = 1" using b by (intro div_nat_eqI) simp_all
    with False show ?thesis by simp
  qed simp
  finally show ?thesis using bit_last_iff [of w] by auto
qed

text \<open>
  the deadline test is right across a wrap of the 32-bit tick: a task that went to sleep
  at tick \<open>t\<close> for \<open>d\<close> ticks counts as expired \<open>e\<close> ticks later exactly when \<open>d \<le> e\<close>, for
  spans below \<open>2 ^ 31\<close> and unless \<open>t + d\<close> happens to be 0, the value that means no deadline.
\<close>

theorem expired_wraps:
  assumes "WakeTick tsk = now + d" and "now + d \<noteq> 0" and "unat d < 2 ^ 31" and "unat e < 2 ^ 31"
  shows "expired (now + e) tsk \<longleftrightarrow> d \<le> e"
proof -
  have diff: "now + e - WakeTick tsk = e - d" using assms(1) by simp
  have "unat (e - d) < 2 ^ 31 \<longleftrightarrow> d \<le> e"
  proof (cases "d \<le> e")
    case True
    then have "unat (e - d) = unat e - unat d" by (simp add: unat_sub)
    with True assms(4) show ?thesis by simp
  next
    case False
    then have "unat (e - d) = unat e + 2 ^ 32 - unat d"
      using unat_sub_if_size [of e d] by (simp add: word_le_nat_alt word_size)
    with False assms(3) show ?thesis by simp
  qed
  with assms(1,2) diff show ?thesis by (simp add: expired_def sint_nonneg_iff)
qed

theorem expired_wraps_witness:
  "expired (0xFFFFFFF0 + 21) (demo_task 1 1 3 TaskBlocked None) \<and>
     \<not> expired (0xFFFFFFF0 + 18) (demo_task 1 1 3 TaskBlocked None)"
proof -
  have "expired (0xFFFFFFF0 + 21) (demo_task 1 1 3 TaskBlocked None) \<longleftrightarrow> (19 :: u32) \<le> 21"
    by (rule expired_wraps) simp_all
  moreover have "expired (0xFFFFFFF0 + 18) (demo_task 1 1 3 TaskBlocked None) \<longleftrightarrow> (19 :: u32) \<le> 18"
    by (rule expired_wraps) simp_all
  ultimately show ?thesis by simp
qed

subsection \<open>Ending a task\<close>

lemma abury_gone:
  assumes "ainv a" and "live a i" and "i \<noteq> 0" and "cur a \<noteq> Some i"
  shows "ainv (abury i a)" and "afind (TaskId (tab a ! i)) (abury i a) = None"
proof -
  have "(abury i a)\<lparr>cur := cur a\<rparr> = abury i a" by (simp add: abury_def aset_def)
  then show inv: "ainv (abury i a)" using abury_ainv [OF assms(1-3)] assms(4) by simp
  have t: "tab (abury i a) ! j = (if j = i then SchedResetTask (tab a ! i) else tab a ! j)"
    if "j < SchedMaxTasks" for j
    using that queues_okD(1) [OF ainvD(1) [OF assms(1)]] by (auto simp: aops)
  have "State (tab (abury i a) ! j) = TaskDead \<or> TaskId (tab (abury i a) ! j) \<noteq> TaskId (tab a ! i)"
    if "j < SchedMaxTasks" for j
    using t [OF that] that ainvD(3) [OF assms(1)] assms(2)
    by (auto simp: ids_ok_def live_def SchedResetTask_def)
  then show "afind (TaskId (tab a ! i)) (abury i a) = None"
    by (auto simp: afind_def find_None_iff)
qed

text \<open>
  killing another task removes it: its slot is free and on no queue but the dead one, it
  can no longer be found, every other slot, the current task and the queues of the others are as
  they were, and the count drops by one.
\<close>

theorem SchedKill_removes:
  assumes "refines s a" and "ainv a" and "live a i" and "i \<noteq> 0" and "cur a \<noteq> Some i"
  shows "\<exists>s'. SchedKill (TaskId (tab a ! i)) s = Some (s', False) \<and> refines s' (abury i a) \<and>
    State (task s' i) = TaskDead \<and> SchedFind (TaskId (tab a ! i)) s' = None \<and>
    CurrentTask s' = CurrentTask s \<and> unat (TaskCountValue s) = Suc (unat (TaskCountValue s')) \<and>
    (\<forall>j < SchedMaxTasks. j \<noteq> i \<longrightarrow> erase (task s' j) = erase (task s j))"
proof -
  note g = abury_gone [OF assms(2-5)]
  note q = queues_okD [OF ainvD(1) [OF assms(2)]]
  have ti: "TaskId (tab a ! i) \<noteq> 0" using zero_id_idle [OF ainvD(3) [OF assms(2)] assms(3)] assms(4) by simp
  have me: "TaskId (tab a ! c) \<noteq> TaskId (tab a ! i)" if "cur a = Some c" for c
    using that ainvD(2,3) [OF assms(2)] assms(3,5) by (auto simp: current_ok_def ids_ok_def)
  have "akill (TaskId (tab a ! i)) a = (abury i a, False)"
    using me ti afind_unique [OF assms(2,3)] by (simp add: akill_def split: option.split)
  with SchedKill_sim [OF assms(1,2), of "TaskId (tab a ! i)"]
  obtain s' where s': "SchedKill (TaskId (tab a ! i)) s = Some (s', False)" "refines s' (abury i a)"
    by (auto simp: returns_def)
  note n = refines_nth [OF s'(2)] refines_nth [OF assms(1)]
    refines_current(1) [OF assms(1,2)] refines_current(1) [OF s'(2) g(1)]
  have i: "i < SchedMaxTasks" using assms(3) by (simp add: live_def)
  have t: "tab (abury i a) ! j = (if j = i then SchedResetTask (tab a ! i) else tab a ! j)"
    if "j < SchedMaxTasks" for j using that q(1) by (auto simp: aops)
  have "State (erase (task s' i)) = State (SchedResetTask (tab a ! i))"
    using n(1) [of i] n(4) i t [OF i] by simp
  then have "State (task s' i) = TaskDead" by (simp add: SchedResetTask_def)
  moreover have "\<forall>j < SchedMaxTasks. j \<noteq> i \<longrightarrow> erase (task s' j) = erase (task s j)"
  proof (intro allI impI)
    fix j
    assume j: "j < SchedMaxTasks" "j \<noteq> i"
    then have "erase (task s' j) = tab a ! j" using n(1) [of j] n(4) t [of j] by simp
    with n(2) [of j] n(3) j show "erase (task s' j) = erase (task s j)" by simp
  qed
  moreover have "CurrentTask s' = CurrentTask s"
    using refinesD(2) [OF s'(2)] refinesD(2) [OF assms(1)] by (simp add: abury_def)
  moreover have "cnt a \<noteq> 0"
  proof
    assume "cnt a = 0"
    then have "card {j. live a j} = 0" using ainvD(4) [OF assms(2)] by (simp add: count_ok_def)
    moreover have "finite {j. live a j}"
      by (rule finite_subset [of _ "{..<SchedMaxTasks}"]) (auto simp: live_def)
    ultimately show False using assms(3) by auto
  qed
  then have "cnt (abury i a) = cnt a - 1" "0 < unat (cnt a)" "unat (cnt a - 1) = unat (cnt a) - 1"
    by (simp_all add: abury_def word_gt_0 unat_gt_0 unat_minus_one')
  then have "unat (TaskCountValue s) = Suc (unat (TaskCountValue s'))"
    using refinesD(4) [OF s'(2)] refinesD(4) [OF assms(1)] by simp
  ultimately show ?thesis using s' SchedFind_sim [OF s'(2) g(1)] g(2) by simp
qed

theorem SchedKill_removes_witness:
  "\<exists>s'. SchedKill 2 demo = Some (s', False) \<and> State (task s' 2) = TaskDead \<and> SchedFind 2 s' = None \<and>
     unat (TaskCountValue s') = 3"
  using SchedKill_removes [OF demo_refines ademo_inv, of 2] by (auto simp: live_def)




subsection \<open>Creating a task\<close>



subsection \<open>Time slice\<close>

lemma SchedTick_step:
  assumes "SchedulerLocked s = 0" and "CurrentTask s = Some c" and "c < length (Tasks s)"
  defines "s' \<equiv> SchedTick True s"
  defines "full \<equiv> TimeUsed (task s c) + 1 \<ge> TimeSlice (task s c)"
  shows "SchedulerLocked s' = 0" "CurrentTask s' = Some c" "length (Tasks s') = length (Tasks s)"
    and "TimeSlice (task s' c) = TimeSlice (task s c)" and "Runtime (task s' c) = Runtime (task s c) + 1"
    and "TimeUsed (task s' c) = (if full then 0 else TimeUsed (task s c) + 1)"
    and "PreemptPending s' \<longleftrightarrow> full \<or> PreemptPending s"
  using assms by (simp_all add: SchedTick_def Let_def set_task_def)

lemma ticks_before:
  assumes "SchedulerLocked s = 0" and "CurrentTask s = Some c" and "c < length (Tasks s)"
    and "TimeUsed (task s c) = 0" and "k < unat (TimeSlice (task s c))"
  shows "SchedulerLocked ((SchedTick True ^^ k) s) = 0 \<and> CurrentTask ((SchedTick True ^^ k) s) = Some c \<and>
    length (Tasks ((SchedTick True ^^ k) s)) = length (Tasks s) \<and>
    TimeSlice (task ((SchedTick True ^^ k) s) c) = TimeSlice (task s c) \<and>
    TimeUsed (task ((SchedTick True ^^ k) s) c) = of_nat k \<and>
    PreemptPending ((SchedTick True ^^ k) s) = PreemptPending s"
  using assms(5)
proof (induction k)
  case 0
  with assms show ?case by simp
next
  case (Suc k)
  let ?s = "(SchedTick True ^^ k) s"
  have IH: "SchedulerLocked ?s = 0" "CurrentTask ?s = Some c" "length (Tasks ?s) = length (Tasks s)"
    "TimeSlice (task ?s c) = TimeSlice (task s c)" "TimeUsed (task ?s c) = of_nat k"
    "PreemptPending ?s = PreemptPending s" using Suc by simp_all
  have "unat (of_nat k + 1 :: u32) = Suc k"
    using Suc.prems u32_less [of "TimeSlice (task s c)"]
    by (simp add: unat_succ_bound unat_of_nat_u32)
  then have "\<not> TimeSlice (task ?s c) \<le> TimeUsed (task ?s c) + 1"
    using Suc.prems IH(4,5) by (simp add: word_le_nat_alt)
  with SchedTick_step [of ?s c] IH assms(3) show ?case by (simp add: add.commute)
qed

text \<open>
  a task that starts a slice is asked to give way exactly when its slice is used up: with
  the scheduler unlocked, the ticks before the last one of the slice leave the preemption
  request as it was, and the last one sets it and starts a new slice.
\<close>

theorem time_slice_preempts:
  assumes "SchedulerLocked s = 0" and "CurrentTask s = Some c" and "c < length (Tasks s)"
    and "TimeUsed (task s c) = 0" and "unat (TimeSlice (task s c)) = Suc n"
  shows "(\<forall>k \<le> n. PreemptPending ((SchedTick True ^^ k) s) = PreemptPending s) \<and>
    PreemptPending ((SchedTick True ^^ Suc n) s) \<and>
    TimeUsed (task ((SchedTick True ^^ Suc n) s) c) = 0"
proof -
  have b: "k < unat (TimeSlice (task s c))" if "k \<le> n" for k using that assms(5) by simp
  note before = ticks_before [OF assms(1-4)]
  let ?s = "(SchedTick True ^^ n) s"
  have "unat (of_nat n + 1 :: u32) = Suc n"
    using assms(5) u32_less [of "TimeSlice (task s c)"]
    by (simp add: unat_succ_bound unat_of_nat_u32)
  then have "TimeSlice (task ?s c) \<le> TimeUsed (task ?s c) + 1"
    using before [OF b [OF le_refl]] assms(5) by (simp add: word_le_nat_alt)
  with SchedTick_step [of ?s c] before [OF b [OF le_refl]] assms(3)
  have "PreemptPending (SchedTick True ?s) \<and> TimeUsed (task (SchedTick True ?s) c) = 0" by simp
  with before b show ?thesis by simp
qed

theorem time_slice_preempts_witness:
  "\<not> PreemptPending ((SchedTick True ^^ 9) demo) \<and> PreemptPending ((SchedTick True ^^ Suc 9) demo)"
  using time_slice_preempts [of demo 1 9] by (auto simp del: funpow.simps)

subsection \<open>Statistics\<close>

lemma fold_count_state:
  fixes f :: "nat \<Rightarrow> Task" and "is" :: "nat list"
  assumes "length is + n < 2 ^ 32"
    and "unat (RunningTasks st) \<le> n" "unat (ReadyTasks st) \<le> n" "unat (BlockedTasks st) \<le> n"
      "unat (DeadTasks st) \<le> n"
  defines "st' \<equiv> fold (\<lambda>i. count_state (f i)) is st"
  shows "unat (RunningTasks st') = unat (RunningTasks st) + length (filter (\<lambda>i. State (f i) = TaskRunning) is) \<and>
    unat (ReadyTasks st') = unat (ReadyTasks st) + length (filter (\<lambda>i. State (f i) = TaskReady) is) \<and>
    unat (BlockedTasks st') = unat (BlockedTasks st) + length (filter (\<lambda>i. State (f i) = TaskBlocked) is) \<and>
    unat (DeadTasks st') = unat (DeadTasks st) + length (filter (\<lambda>i. State (f i) = TaskDead) is) \<and>
    TotalTasks st' = TotalTasks st \<and> StatTicks st' = StatTicks st \<and> StatSwitches st' = StatSwitches st"
  unfolding st'_def using assms(1-5)
proof (induction "is" arbitrary: st n)
  case (Cons i "is")
  have pre: "length is + Suc n < 2 ^ 32" using Cons.prems(1) by simp
  have up: "unat (x + 1) = Suc (unat x)" if "unat x \<le> n" for x :: u32
    using that Cons.prems(1) by (simp add: unat_succ_bound)
  have b: "unat (RunningTasks (count_state (f i) st)) \<le> Suc n" "unat (ReadyTasks (count_state (f i) st)) \<le> Suc n"
    "unat (BlockedTasks (count_state (f i) st)) \<le> Suc n" "unat (DeadTasks (count_state (f i) st)) \<le> Suc n"
    using Cons.prems(2-5) up by (auto simp: count_state_def split: TaskState.splits)
  from Cons.IH [OF pre b] show ?case
    using up Cons.prems by (cases "State (f i)") (simp_all add: count_state_def)
qed simp

lemma length_filter_upt: "length (filter P [0..<n]) = card {i. i < n \<and> P i}"
proof -
  have "{i. i < n \<and> P i} = set (filter P [0..<n])" by auto
  moreover have "distinct (filter P [0..<n])" by simp
  ultimately show ?thesis using distinct_card by metis
qed

text \<open>
  \<^verbatim>\<open>SchedGetStats\<close> counts the slots in each state exactly; the four counts add up to the
  size of the table, and the total is the number of slots that are not dead.
\<close>

theorem SchedGetStats_counts:
  assumes "sched_inv s"
  shows "\<exists>st. fst (SchedGetStats True s) = Some st \<and>
    unat (RunningTasks st) = card {i. i < SchedMaxTasks \<and> State (task s i) = TaskRunning} \<and>
    unat (ReadyTasks st) = card {i. i < SchedMaxTasks \<and> State (task s i) = TaskReady} \<and>
    unat (BlockedTasks st) = card {i. i < SchedMaxTasks \<and> State (task s i) = TaskBlocked} \<and>
    unat (DeadTasks st) = card {i. i < SchedMaxTasks \<and> State (task s i) = TaskDead} \<and>
    unat (TotalTasks st) + unat (DeadTasks st) = SchedMaxTasks \<and>
    StatTicks st = SchedulerTicks s \<and> StatSwitches st = ContextSwitches s"
proof -
  define st0 where "st0 = \<lparr>TotalTasks = TaskCountValue s, RunningTasks = 0, ReadyTasks = 0,
                BlockedTasks = 0, DeadTasks = 0, StatTicks = SchedulerTicks s,
                StatSwitches = ContextSwitches s\<rparr>"
  define st where "st = fold (\<lambda>i. count_state (task s i)) [0..<SchedMaxTasks] st0"
  have g: "fst (SchedGetStats True s) = Some st"
    by (simp add: SchedGetStats_def SchedLockIrq_def Let_def st_def st0_def)
  have "length [0..<SchedMaxTasks] + 0 < 2 ^ 32" by (simp add: SchedMaxTasks_def)
  note c = fold_count_state [OF this, of st0 "task s"]
  have cnt: "unat (TotalTasks st) = card {i. i < SchedMaxTasks \<and> State (task s i) \<noteq> TaskDead}"
  proof -
    obtain a where a: "refines s a" "ainv a" using assms by (auto simp: sched_inv_def)
    have "{i. live a i} = {i. i < SchedMaxTasks \<and> State (task s i) \<noteq> TaskDead}"
      using refines_nth [OF a(1)] refines_current(1) [OF a] by (auto simp: live_def)
    moreover have "unat (cnt a) = card {i. live a i}" using ainvD(4) [OF a(2)] by (simp add: count_ok_def)
    moreover have "cnt a = TaskCountValue s" using refinesD(4) [OF a(1)] .
    ultimately show ?thesis using c by (simp add: st_def st0_def)
  qed
  have "card {i. i < SchedMaxTasks \<and> State (task s i) \<noteq> TaskDead} +
      card {i. i < SchedMaxTasks \<and> State (task s i) = TaskDead} = card {..<SchedMaxTasks}"
  proof (subst card_Un_disjoint [symmetric])
    have "{i. i < SchedMaxTasks \<and> State (task s i) \<noteq> TaskDead} \<union>
        {i. i < SchedMaxTasks \<and> State (task s i) = TaskDead} = {..<SchedMaxTasks}" by auto
    then show "card ({i. i < SchedMaxTasks \<and> State (task s i) \<noteq> TaskDead} \<union>
        {i. i < SchedMaxTasks \<and> State (task s i) = TaskDead}) = card {..<SchedMaxTasks}" by simp
  qed auto
  with cnt g c show ?thesis
    by (simp add: st_def [symmetric] length_filter_upt) (simp add: st0_def)
qed

theorem SchedGetStats_counts_witness:
  "\<exists>st. fst (SchedGetStats True demo) = Some st \<and> unat (TotalTasks st) + unat (DeadTasks st) = 32"
  using SchedGetStats_counts [OF demo_inv] by (auto simp: SchedMaxTasks_def)

end
