(* ===== verification/Timer_Laws.thy ===== *)
theory Timer_Laws
  imports Timer Sched_Props2
begin

text \<open>
  The arithmetic of the timer, and what a timer interrupt does to a sleeping task: nothing until
  its deadline, and then it is woken.
\<close>

subsection \<open>Rate and time\<close>

lemma pit_divisor_law:
  assumes "0 < hz" and "hz < 2 ^ 31"
  shows "unat (pit_divisor hz) = max 1 (min 65535 (1193182 div nat hz))"
proof -
  have "uint (word_of_int hz :: u32) = hz" using assms by (simp add: uint_word_of_int)
  then have "unat (word_of_int hz :: u32) = nat hz" by (metis nat_uint_eq)
  then have "unat (PIT_OSC_FREQ div word_of_int hz) = 1193182 div nat hz" by (simp add: unat_div PIT_OSC_FREQ_def)
  then show ?thesis
    by (auto simp: pit_divisor_def Let_def PIT_MAX_DIVISOR_def word_less_nat_alt unat_eq_0 [symmetric] max_def min_def)
qed

lemma uptime_law:
  assumes "ticks_per_second k \<noteq> 0" and "unat (ticks_per_second k) \<le> 1193182"
  shows "unat (timer_uptime_ms k) = unat (tick_count k) * 1000 div unat (ticks_per_second k)"
proof -
  define t r where "t = unat (tick_count k)" and "r = unat (ticks_per_second k)"
  have r: "0 < r" "r \<le> 1193182" using assms by (simp_all add: r_def unat_gt_0)
  have t: "t < 2 ^ 32" using u32_less [of "tick_count k"] by (simp add: t_def)
  let ?rem = "tick_count k mod ticks_per_second k"
  have rem: "unat ?rem = t mod r" by (simp add: t_def r_def unat_mod)
  have "t mod r < r" using r(1) by simp
  then have "unat (?rem * 1000) = t mod r * 1000" using rem r(2) by (simp add: unat_word_ariths)
  then have frac: "unat (?rem * 1000 div ticks_per_second k) = t mod r * 1000 div r" by (simp add: unat_div r_def)
  have secs: "unat (tick_count k div ticks_per_second k) = t div r" by (simp add: unat_div t_def r_def)
  have "t div r < 2 ^ 32" "t mod r * 1000 div r < 1000"
    using t r(1) by (simp_all add: div_less_iff_less_mult le_less_trans [OF div_le_dividend])
  then have "unat (timer_uptime_ms k) = t div r * 1000 + t mod r * 1000 div r"
    using assms(1) frac secs by (simp add: timer_uptime_ms_def Let_def unat_word_ariths unat_ucast_u64)
  also have "\<dots> = (t div r * 1000 * r + t mod r * 1000) div r" using r(1) by simp
  also have "t div r * 1000 * r + t mod r * 1000 = t * 1000"
    by (metis distrib_right div_mult_mod_eq mult.assoc mult.commute)
  finally show ?thesis by (simp add: t_def r_def)
qed

definition sleep_ticks :: "u32 \<Rightarrow> kernel \<Rightarrow> nat" where
  "sleep_ticks ms k = (unat ms * unat (ticks_per_second k) + 999) div 1000"

lemma sleep_deadline_law:
  assumes "unat (ticks_per_second k) \<le> 1193182"
  shows "sleep_deadline ms k = tick_count k + of_nat (sleep_ticks ms k)"
proof -
  define r where "r = unat (ticks_per_second k)"
  let ?q = "unat ms div 1000" and ?m = "unat ms mod 1000"
  have m: "?m < 1000" by simp
  have "unat ((ms mod 1000) * ticks_per_second k + 999) = ?m * r + 999"
  proof -
    have "?m * r \<le> 1000 * 1193182" using assms m by (intro mult_le_mono) (simp_all add: r_def)
    then show ?thesis by (simp add: unat_word_ariths unat_mod r_def)
  qed
  then have "unat (((ms mod 1000) * ticks_per_second k + 999) div 1000) = (?m * r + 999) div 1000" by (simp add: unat_div)
  then have a: "((ms mod 1000) * ticks_per_second k + 999) div 1000 = of_nat ((?m * r + 999) div 1000)" by (metis of_nat_unat ucast_id)
  have "unat (ms div 1000) = ?q" by (simp add: unat_div)
  then have "ms div 1000 = of_nat ?q" by (metis of_nat_unat ucast_id)
  then have b: "ms div 1000 * ticks_per_second k = of_nat (?q * r)" by (simp add: r_def)
  have ms: "unat ms = ?q * 1000 + ?m" by simp
  have "(unat ms * r + 999) div 1000 = ((?m * r + 999) + (?q * r) * 1000) div 1000"
    by (subst ms) (simp only: distrib_right mult.assoc mult.commute [of 1000] add.assoc add.commute add.left_commute)
  also have "\<dots> = ?q * r + (?m * r + 999) div 1000" by simp
  finally have "sleep_ticks ms k = ?q * r + (?m * r + 999) div 1000" by (simp add: sleep_ticks_def r_def)
  then show ?thesis unfolding sleep_deadline_def Let_def a b by simp
qed

subsection \<open>A sleeping task under timer interrupts\<close>

definition sleeping :: "aspec \<Rightarrow> nat \<Rightarrow> u32 \<Rightarrow> bool" where
  "sleeping a i w \<longleftrightarrow> i < SchedMaxTasks \<and> State (tab a ! i) = TaskBlocked \<and> WakeTick (tab a ! i) = w"

definition awake :: "aspec \<Rightarrow> nat \<Rightarrow> bool" where
  "awake a i \<longleftrightarrow> i < SchedMaxTasks \<and> State (tab a ! i) \<in> {TaskReady, TaskRunning}"

lemma atick_task:
  assumes "ainv a"
  shows "sleeping (atick a) i w \<longleftrightarrow> sleeping a i w" "awake (atick a) i \<longleftrightarrow> awake a i"
  using queues_okD(1) [OF ainvD(1) [OF assms]]
  by (auto simp: sleeping_def awake_def atick_def Let_def split: option.split if_splits)

lemma awake_expired_task:
  assumes "ainv a"
  shows "sleeping a i w \<Longrightarrow> if w \<noteq> 0 \<and> 0 \<le> sint (now - w) then awake (awake_expired now a) i else sleeping (awake_expired now a) i w"
    and "awake a i \<Longrightarrow> awake (awake_expired now a) i"
proof -
  note q = queues_okD [OF ainvD(1) [OF assms]]
  have d: "distinct (filter (\<lambda>i. expired now (tab a ! i)) (bq a))" using q(3) by simp
  show "awake a i \<Longrightarrow> awake (awake_expired now a) i"
    using fold_awake_fields(3) [OF d q(1), of i] by (auto simp: awake_def awake_expired_def)
  assume s: "sleeping a i w"
  then have i: "i < SchedMaxTasks" "i \<in> set (bq a)" using q(6) by (auto simp: sleeping_def)
  from fold_awake_fields(3) [OF d q(1) i(1)] i s
  show "if w \<noteq> 0 \<and> 0 \<le> sint (now - w) then awake (awake_expired now a) i else sleeping (awake_expired now a) i w"
    by (auto simp: awake_expired_def sleeping_def awake_def expired_def)
qed

lemma apreempt_task:
  assumes "ainv a"
  shows "sleeping (fst (apreempt a)) i w \<longleftrightarrow> sleeping a i w" "awake (fst (apreempt a)) i \<longleftrightarrow> awake a i"
proof -
  let ?a = "a\<lparr>pend := False\<rparr>"
  have inv: "ainv ?a" using assms by simp
  have "(sleeping (fst (ayield ?a)) i w \<longleftrightarrow> sleeping a i w) \<and> (awake (fst (ayield ?a)) i \<longleftrightarrow> awake a i)"
  proof (cases "snd (ayield ?a)")
    case False
    then have "fst (ayield ?a) = ?a" using ayield_not_switched by metis
    then show ?thesis by (simp add: sleeping_def awake_def)
  next
    case True
    then obtain n where n: "lck ?a = 0" "apick ?a = Some n" "cur ?a \<noteq> Some n" by (auto simp: ayield_def split: if_splits option.splits)
    have "State (tab a ! n) = TaskReady" using apick_member [OF n(2)] queues_okD(5) [OF ainvD(1) [OF inv], of n] by simp
    then show ?thesis using ayield_tab(2) [OF inv n, of i] by (auto simp: sleeping_def awake_def split: if_splits)
  qed
  then show "sleeping (fst (apreempt a)) i w \<longleftrightarrow> sleeping a i w" "awake (fst (apreempt a)) i \<longleftrightarrow> awake a i"
    by (simp_all add: apreempt_def)
qed

subsection \<open>One interrupt\<close>

text \<open>The timer is served on its line and on no other.\<close>

definition timer_line :: "kernel \<Rightarrow> bool" where
  "timer_line k \<longleftrightarrow> handlers k ! 32 = Some timer_handler \<and> (\<forall>v. 32 < v \<and> v < 48 \<longrightarrow> handlers k ! v \<noteq> Some timer_handler)"

text \<open>The keyboard controller has at least \<open>n\<close> scancodes to deliver.\<close>

primrec feeds :: "nat \<Rightarrow> u8 list \<Rightarrow> bool" where
  "feeds 0 tape \<longleftrightarrow> True"
| "feeds (Suc n) tape \<longleftrightarrow> (\<exists>polls st sc rest. tape = polls @ st # sc # rest \<and> (\<forall>p \<in> set polls. p AND 1 = 0) \<and> st AND 1 \<noteq> 0 \<and> feeds n rest)"

lemma feeds_mono: "feeds (Suc n) tape \<Longrightarrow> feeds n tape"
proof (induction n arbitrary: tape)
  case (Suc n)
  from Suc.prems obtain polls st sc rest where "tape = polls @ st # sc # rest" "\<forall>p \<in> set polls. p AND 1 = 0" "st AND 1 \<noteq> 0" "feeds (Suc n) rest"
    unfolding feeds.simps(2) [of "Suc n"] by blast
  with Suc.IH [of rest] show ?case unfolding feeds.simps(2) [of n] by blast
qed simp

text \<open>What the handler of vector \<open>vec\<close> does to the abstract scheduler.\<close>

definition ahandled :: "nat \<Rightarrow> u32 \<Rightarrow> aspec \<Rightarrow> aspec" where
  "ahandled vec now a = (if vec = 32 then awake_expired now (atick a) else a)"

lemma ahandled_ainv: "ainv a \<Longrightarrow> ainv (ahandled vec now a)"
  by (simp add: ahandled_def awake_expired_ainv atick_ainv)

lemma handler_step:
  assumes r: "refines (sch k) a" "ainv a" and line: "timer_line k" and vec: "32 \<le> vec" "vec < 48" and f: "feeds (Suc n) (ps2 k)"
    and ok: "kernel_ok m0 k"
  shows "returns (case handlers k ! vec of None \<Rightarrow> Some k | Some h \<Rightarrow> call_handler h k)
    (\<lambda>k'. kernel_ok m0 k' \<and> refines (sch k') (ahandled vec (tick_count k + 1) a) \<and> handlers k' = handlers k \<and> feeds n (ps2 k') \<and>
      tick_count k' = tick_count k + (if vec = 32 then 1 else 0))"
proof (cases "vec = 32")
  case True
  have t: "refines (SchedTick True (sch k)) (atick a)" by (rule SchedTick_sim [OF r])
  from SchedWakeExpired_sim [OF t atick_ainv [OF r(2)], of "tick_count k + 1"] obtain m s where
    s: "SchedWakeExpired (tick_count k + 1) (SchedTick True (sch k)) = Some (m, s)"
      "refines s (awake_expired (tick_count k + 1) (atick a))" by (auto simp: returns_def)
  with True line feeds_mono [OF f] timer_callback_ok [OF ok] show ?thesis
    by (simp add: timer_line_def call_handler_def timer_callback_def ahandled_def)
next
  case False
  show ?thesis
  proof (cases "handlers k ! vec")
    case None
    with False r(1) ok feeds_mono [OF f] show ?thesis by (simp add: ahandled_def)
  next
    case (Some h)
    with False line vec have h: "h = keyboard_handler" by (cases h) (auto simp: timer_line_def)
    from f obtain polls st sc rest where t: "ps2 k = polls @ st # sc # rest" "\<forall>p \<in> set polls. p AND 1 = 0" "st AND 1 \<noteq> 0" "feeds n rest"
      by auto
    then have rd: "ps2_read_scancode (ps2 k) = Some (sc, rest)" using ps2_polls by simp
    have "delivers (ps2 k)" using t(1-3) unfolding delivers_def by blast
    then have "kernel_ok m0 (the (call_handler keyboard_handler k))"
      using returns_the [OF keyboard_handler_ok [OF ok]] by blast
    with Some h False r(1) rd t(4) show ?thesis by (simp add: ahandled_def call_handler_def keyboard_callback_def)
  qed
qed

text \<open>The whole interrupt: lines 7 and 15 may turn out to be spurious, and then nothing happens.\<close>

definition aserved :: "nat \<Rightarrow> u32 \<Rightarrow> aspec \<Rightarrow> aspec \<Rightarrow> bool" where
  "aserved vec now a a' \<longleftrightarrow> a' = fst (apreempt (ahandled vec now a)) \<or> vec \<in> {39, 47} \<and> a' = a"

definition kernel_step :: "bytes \<Rightarrow> nat \<Rightarrow> nat \<Rightarrow> kernel \<Rightarrow> aspec \<Rightarrow> kernel \<Rightarrow> bool" where
  "kernel_step m0 n vec k a k' \<longleftrightarrow> kernel_ok m0 k' \<and> (\<exists>a'. refines (sch k') a' \<and> aserved vec (tick_count k + 1) a a') \<and>
    handlers k' = handlers k \<and> feeds n (ps2 k') \<and> tick_count k' = tick_count k + (if vec = 32 then 1 else 0)"

lemma isr_serve_step:
  assumes "refines (sch k) a" "ainv a" "timer_line k" "32 \<le> vec" "vec < 48" "feeds (Suc n) (ps2 k)" "kernel_ok m0 k"
  shows "returns (isr_serve vec line k) (\<lambda>(k', sw). kernel_step m0 n vec k a k')"
  unfolding isr_serve_def
proof (rule returns_bind [OF handler_step [OF assms]])
  fix k1
  assume k1: "kernel_ok m0 k1 \<and> refines (sch k1) (ahandled vec (tick_count k + 1) a) \<and> handlers k1 = handlers k \<and> feeds n (ps2 k1) \<and>
      tick_count k1 = tick_count k + (if vec = 32 then 1 else 0)"
  define k2 where "k2 = kout PIC1_CMD PIC_EOI (if line \<ge> 8 then kout PIC2_CMD PIC_EOI k1 else k1)"
  have k2: "kernel_ok m0 k2" "sch k2 = sch k1" "handlers k2 = handlers k1" "ps2 k2 = ps2 k1" "tick_count k2 = tick_count k1"
    using k1 by (simp_all add: k2_def kout_ok)
  have "refines (sch k1) (ahandled vec (tick_count k + 1) a)" using k1 by blast
  from SchedPreempt_sim [OF this ahandled_ainv [OF assms(2)]] obtain s sw where
    s: "SchedPreempt (sch k1) = Some (s, sw)" "refines s (fst (apreempt (ahandled vec (tick_count k + 1) a)))"
    by (auto simp: returns_def)
  then have "sched_inv s" using apreempt_ainv [OF ahandled_ainv [OF assms(2)]] sched_invI by blast
  then have "kernel_step m0 n vec k a (k2\<lparr>sch := s\<rparr>)"
    using k1 k2 s(2) by (auto simp: kernel_step_def kernel_ok_def aserved_def)
  then show "returns (let k = if 8 \<le> line then kout PIC2_CMD PIC_EOI k1 else k1; k = kout PIC1_CMD PIC_EOI k
      in SchedPreempt (sch k) \<bind> (\<lambda>(s, switched). Some (k\<lparr>sch := s\<rparr>, switched))) (\<lambda>(k', sw). kernel_step m0 n vec k a k')"
    using s(1) unfolding Let_def k2_def [symmetric] k2(2) by simp
qed

lemma isr_spurious_frame:
  "isr_spurious line v k = Some k' \<Longrightarrow> handlers k' = handlers k \<and> ps2 k' = ps2 k"
  by (auto simp: isr_spurious_def Let_def bind_eq_Some_conv split: if_splits)

lemma irq_step:
  assumes r: "refines (sch k) a" "ainv a" and line: "timer_line k" and f: "feeds (Suc n) (ps2 k)" and ok: "kernel_ok m0 k"
    and vec: "32 \<le> unat (int_no rg)" "unat (int_no rg) < 48"
  shows "returns (isr_dispatch dev rg k) (\<lambda>res. \<exists>k' sw. res = Inr (k', sw) \<and> kernel_step m0 n (unat (int_no rg)) k a k')"
proof -
  define vec line where "vec = unat (int_no rg)" and "line = vec - 32"
  have v: "32 \<le> vec" "vec < 48" using vec by (simp_all add: vec_def)
  obtain v2 k2 where sv: "isr_in_service dev line k = (v2, k2)" by fastforce
  then have k2: "sch k2 = sch k" "handlers k2 = handlers k" "ps2 k2 = ps2 k" "tick_count k2 = tick_count k" "kernel_ok m0 k2"
    using ok by (auto simp: isr_in_service_def Let_def intro!: kout_ok split: if_splits)
  have serve: "returns (map_option Inr (isr_serve vec line k')) (\<lambda>res. \<exists>k' sw. res = Inr (k', sw) \<and> kernel_step m0 n vec k a k')"
    if "k' \<in> {k, k2}" for k'
  proof -
    have eq: "kernel_step m0 n vec k' a = kernel_step m0 n vec k a" using that k2 by (auto simp: kernel_step_def fun_eq_iff)
    have "refines (sch k') a" "timer_line k'" "feeds (Suc n) (ps2 k')" "kernel_ok m0 k'"
      using that k2 r f ok line by (auto simp: timer_line_def simp del: feeds.simps)
    then have "returns (isr_serve vec line k') (\<lambda>(k'', sw). kernel_step m0 n vec k' a k'')"
      using r(2) v by (intro isr_serve_step)
    then show ?thesis unfolding eq by (auto simp: returns_def)
  qed
  have spur: "returns (map_option (\<lambda>k. Inr (k, False)) (isr_spurious line v2 k2)) (\<lambda>res. \<exists>k' sw. res = Inr (k', sw) \<and> kernel_step m0 n vec k a k')"
    if "line \<in> {7, 15}"
  proof -
    have "line < 16" using that by auto
    from isr_spurious_ok [OF k2(5) this, of v2] obtain k' where k': "isr_spurious line v2 k2 = Some k'" "kernel_ok m0 k'" "sch k' = sch k2" "tick_count k' = tick_count k2"
      by (auto simp: returns_def)
    moreover have "vec \<in> {39, 47}" using that v by (auto simp: line_def)
    ultimately show ?thesis using isr_spurious_frame [OF k'(1)] k2 r feeds_mono [OF f] by (auto simp: kernel_step_def aserved_def)
  qed
  show ?thesis unfolding isr_dispatch_def Let_def IRQ_BASE_def vec_def [symmetric] line_def [symmetric] sv
    using serve [of k] serve [of k2] spur v by auto
qed

subsection \<open>A sequence of interrupts\<close>

fun interrupts :: "device \<Rightarrow> registers list \<Rightarrow> kernel \<Rightarrow> kernel option" where
  "interrupts dev [] k = Some k"
| "interrupts dev (r # rs) k = (case isr_dispatch dev r k of Some (Inr (k, _)) \<Rightarrow> interrupts dev rs k | _ \<Rightarrow> None)"

definition hardware_irq :: "registers \<Rightarrow> bool" where
  "hardware_irq r \<longleftrightarrow> 32 \<le> unat (int_no r) \<and> unat (int_no r) < 48"

definition timer_irq :: "registers \<Rightarrow> bool" where
  "timer_irq r \<longleftrightarrow> unat (int_no r) = 32"

text \<open>Task \<open>i\<close> sleeps for another \<open>n\<close> ticks, or is awake when \<open>n\<close> is 0.\<close>

definition dozes :: "kernel \<Rightarrow> aspec \<Rightarrow> nat \<Rightarrow> nat \<Rightarrow> bool" where
  "dozes k a i n \<longleftrightarrow> (if n = 0 then awake a i
     else sleeping a i (tick_count k + of_nat n) \<and> tick_count k + of_nat n \<noteq> 0 \<and> n < 2 ^ 31)"

lemma sint_after:
  assumes "0 < n" and "n < 2 ^ 31"
  shows "0 \<le> sint (t + 1 - (t + of_nat n) :: u32) \<longleftrightarrow> n = 1"
proof -
  have un: "unat (of_nat n :: u32) = n" using assms(2) by (simp add: unat_of_nat_u32)
  have "unat (1 - of_nat n :: u32) = (if n = 1 then 0 else 2 ^ 32 + 1 - n)"
    using assms unat_sub_if_size [of "1 :: u32" "of_nat n"] un by (simp add: word_size)
  moreover have "t + 1 - (t + of_nat n) = 1 - of_nat n" by simp
  ultimately show ?thesis using assms by (auto simp: sint_nonneg_iff)
qed

lemma dozes_step:
  assumes "ainv a" and "aserved vec (tick_count k + 1) a a'" and "tick_count k' = tick_count k + (if vec = 32 then 1 else 0)"
    and "dozes k a i n"
  shows "ainv a'" "dozes k' a' i (if vec = 32 then n - 1 else n)"
proof -
  let ?h = "ahandled vec (tick_count k + 1) a"
  show inv: "ainv a'" using assms(1,2) apreempt_ainv [OF ahandled_ainv] by (auto simp: aserved_def)
  have h: "dozes k' ?h i (if vec = 32 then n - 1 else n)"
  proof (cases "vec = 32 \<and> 0 < n")
    case True
    then have s: "sleeping (atick a) i (tick_count k + of_nat n)" "tick_count k + of_nat n \<noteq> 0" "n < 2 ^ 31"
      using assms(4) atick_task [OF assms(1)] by (auto simp: dozes_def)
    have t: "tick_count k' + of_nat (n - 1) = tick_count k + of_nat n" 
      using True assms(3) by (cases n) simp_all
    from awake_expired_task(1) [OF atick_ainv [OF assms(1)] s(1), of "tick_count k + 1"] True s(2,3) sint_after [of n "tick_count k"]
    show ?thesis by (cases "n = 1") (simp_all add: dozes_def ahandled_def t [simplified] del: of_nat_diff)
  next
    case False
    then show ?thesis
      using assms(3,4) atick_task [OF assms(1)] awake_expired_task(2) [OF atick_ainv [OF assms(1)]]
      by (auto simp: dozes_def ahandled_def)
  qed
  from assms(2) consider "a' = fst (apreempt ?h)" | "vec \<in> {39, 47}" "a' = a" by (auto simp: aserved_def)
  then show "dozes k' a' i (if vec = 32 then n - 1 else n)"
  proof cases
    case 1
    then show ?thesis using h by (simp only: dozes_def apreempt_task [OF ahandled_ainv [OF assms(1)]])
  next
    case 2
    with assms(3,4) show ?thesis by (auto simp: dozes_def)
  qed
qed

lemma interrupts_doze:
  assumes "refines (sch k) a" "ainv a" "timer_line k" "feeds (length irqs) (ps2 k)" "kernel_ok m0 k"
    and "\<forall>r \<in> set irqs. hardware_irq r" and "dozes k a i n"
  shows "returns (interrupts dev irqs k) (\<lambda>k'. kernel_ok m0 k' \<and> tick_count k' = tick_count k + of_nat (length (filter timer_irq irqs)) \<and>
    (\<exists>a'. refines (sch k') a' \<and> ainv a' \<and> dozes k' a' i (n - length (filter timer_irq irqs))))"
  using assms
proof (induction irqs arbitrary: k a n)
  case (Cons r rs)
  let ?v = "unat (int_no r)"
  have hw: "32 \<le> ?v" "?v < 48" using Cons.prems(6) by (simp_all add: hardware_irq_def)
  have fd: "feeds (Suc (length rs)) (ps2 k)" using Cons.prems(4) by simp
  from irq_step [OF Cons.prems(1,2,3) fd Cons.prems(5) hw, of dev] obtain k1 sw where
    k1: "isr_dispatch dev r k = Some (Inr (k1, sw))" "kernel_step m0 (length rs) ?v k a k1" by (auto simp: returns_def)
  then obtain a1 where a1: "refines (sch k1) a1" "aserved ?v (tick_count k + 1) a a1" by (auto simp: kernel_step_def)
  have t1: "tick_count k1 = tick_count k + (if ?v = 32 then 1 else 0)" "timer_line k1" "feeds (length rs) (ps2 k1)" "kernel_ok m0 k1"
    using k1(2) Cons.prems(3) by (simp_all add: kernel_step_def timer_line_def)
  note d = dozes_step [OF Cons.prems(2) a1(2) t1(1) Cons.prems(7)]
  have "\<forall>r \<in> set rs. hardware_irq r" using Cons.prems(6) by simp
  from Cons.IH [OF a1(1) d(1) t1(2-4) this d(2)] k1(1) t1(1) show ?case
    by (auto simp: timer_irq_def add.assoc elim!: returns_weaken)
qed auto

subsection \<open>Going to sleep\<close>

lemma asleep_until_task:
  assumes "ainv a" and "lck a = 0" and "cur a = Some i" and "i \<noteq> 0" and "State (tab a ! i) = TaskRunning"
  shows "snd (asleep_until w a)" "sleeping (fst (asleep_until w a)) i w" "cur (fst (asleep_until w a)) \<noteq> Some i"
proof -
  let ?a = "aset i (\<lambda>t. t\<lparr>WakeTick := w\<rparr>) a"
  let ?b = "ablock i ?a"
  have lv: "live a i" using ainvD(2) [OF assms(1)] assms(3) by (simp add: current_ok_def)
  have i: "i < SchedMaxTasks" using lv by (simp add: live_def)
  have len: "length (tab a) = SchedMaxTasks" by (rule queues_okD(1) [OF ainvD(1) [OF assms(1)]])
  have ti: "TaskId (tab a ! i) \<noteq> 0" using zero_id_idle [OF ainvD(3) [OF assms(1)] lv] assms(4) by simp
  have inv: "ainv ?a" using assms(1) by (simp add: aset_ainv)
  have fa: "live ?a i" "State (tab ?a ! i) = TaskRunning" "TaskId (tab ?a ! i) = TaskId (tab a ! i)" "cur ?a = Some i"
    using lv i len assms(3,5) by (simp_all add: live_def)
  have invb: "ainv ?b" using ablock_ainv [OF inv fa(1) assms(4)] fa(2) by simp
  have st: "State (tab ?b ! i) = TaskBlocked" "WakeTick (tab ?b ! i) = w" "cur ?b = Some i" "lck ?b = 0"
    using i len assms(2,3) by (simp_all add: ablock_def)
  then have nr: "i \<notin> set (rq ?b)" using queues_okD(5) [OF ainvD(1) [OF invb]] by simp
  have sw: "snd (ayield ?b)" using ayield_switches [OF invb] assms(4) st nr by auto
  then obtain n where n: "apick ?b = Some n" "n \<noteq> i" using st(3) by (auto simp: ayield_def split: if_splits option.splits)
  have "ablock_task (TaskId (tab a ! i)) ?a = (fst (ayield ?b), True)"
    using ablock_task_self [OF afind_unique [OF inv fa(1)]] fa ti sw by (auto split: prod.splits)
  then have eq: "asleep_until w a = (fst (ayield ?b), True)" using assms(3) ti by (simp add: asleep_until_def)
  show "snd (asleep_until w a)" by (simp add: eq)
  show "cur (fst (asleep_until w a)) \<noteq> Some i" using ayield_tab(1) [OF invb st(4) n(1)] st(3) n(2) by (simp add: eq)
  show "sleeping (fst (asleep_until w a)) i w"
    using ayield_tab(2) [OF invb st(4) n(1), of i] i st n(2) by (simp add: eq sleeping_def)
qed

end
