(* ===== verification/Irq_Props.thy ===== *)
theory Irq_Props
  imports Timer_Laws
begin

text \<open>
  What interrupts and the timer guarantee.
\<close>

subsection \<open>A concrete kernel\<close>

definition demo_kernel :: kernel where
  "demo_kernel =
     \<lparr>con = console_clear blank_console, kbd = \<lparr>kbuf = replicate 32 0, head = 0, tail = 0, shift_held = 0\<rparr>,
      ps2 = concat (replicate 8 [1, 30]), sch = demo,
      idt = replicate 256 \<lparr>offset_low = 0, selector = 0, zero = 0, type_attr = 0, offset_high = 0\<rparr>,
      idtp = \<lparr>limit = 0, base = 0\<rparr>, loaded_idtr = None,
      handlers = (replicate 256 None)[32 := Some timer_handler, 33 := Some keyboard_handler],
      spurious_count = replicate 16 0, spurious_reported = 0, cr2 = 0, tick_count = 0xFFFFFFFE, ticks_per_second = 100\<rparr>"

definition demo_irq :: "u32 \<Rightarrow> registers" where
  "demo_irq v =
     \<lparr>r_gs = 0, r_fs = 0, r_es = 0, r_ds = 0x18, r_edi = 0, r_esi = 0, r_ebp = 0, r_esp = 0, r_ebx = 0, r_edx = 0, r_ecx = 0,
      r_eax = 0, int_no = v, err_code = 0, r_eip = 0x100000, r_cs = 0x10, r_eflags = 0x202, r_user_esp = 0, r_ss = 0\<rparr>"

lemma demo_kernel_fields [simp]:
  "sch demo_kernel = demo" "handlers demo_kernel ! 32 = Some timer_handler" "handlers demo_kernel ! 33 = Some keyboard_handler"
  "tick_count demo_kernel = 0xFFFFFFFE" "ticks_per_second demo_kernel = 100" "int_no (demo_irq v) = v"
  by (simp_all add: demo_kernel_def demo_irq_def)

lemma demo_kernel_ok: "kernel_ok (memory blank_console) demo_kernel"
  using clear_displays [of blank_console] demo_inv
  by (auto simp: kernel_ok_def demo_kernel_def kbd_ok_def)

lemma demo_timer_line: "timer_line demo_kernel"
  by (auto simp: timer_line_def demo_kernel_def nth_list_update)

lemma demo_feeds: "feeds 8 (ps2 demo_kernel)"
proof -
  have "feeds n (concat (replicate n [1, 30]))" for n
  proof (induction n)
    case (Suc n)
    then show ?case by (simp, intro exI [of _ "[]"]) simp
  qed simp
  then show ?thesis by (simp add: demo_kernel_def del: feeds.simps)
qed

subsection \<open>Dispatch\<close>





subsection \<open>Sleeping\<close>

text \<open>
  C29: \<^verbatim>\<open>timer_sleep_ms\<close> puts a running task to sleep for exactly the number of timer interrupts that its
  time needs, rounded up: it switches away, and through any sequence of hardware interrupts (timer, keyboard,
  spurious or unhandled ones, with every preemption they cause) the task stays blocked while fewer timer interrupts
  than that have come, and is ready or running from then on. The tick may wrap meanwhile; the deadline may not be
  tick 0, which means no deadline.
\<close>

theorem timer_sleep_exact:
  assumes ok: "kernel_ok m0 k" and line: "timer_line k"
    and on: "cpu_irqs_enabled (fst (Machine (sch k)))" "SchedulerLocked (sch k) = 0"
    and i: "CurrentTask (sch k) = Some i" "i \<noteq> 0" "State (task (sch k) i) = TaskRunning"
    and rate: "ticks_per_second k \<noteq> 0" "unat (ticks_per_second k) \<le> 1193182"
    and ms: "ms \<noteq> 0" "sleep_ticks ms k < 2 ^ 31" "tick_count k + of_nat (sleep_ticks ms k) \<noteq> 0"
    and irqs: "\<forall>r \<in> set irqs. hardware_irq r" "feeds (length irqs) (ps2 k)"
  shows "\<exists>k1 k2. timer_sleep_ms dev ms pending k = Some (k1, pending, True) \<and> CurrentTask (sch k1) \<noteq> Some i \<and>
    interrupts dev irqs k1 = Some k2 \<and> kernel_ok m0 k2 \<and>
    (if length (filter timer_irq irqs) < sleep_ticks ms k then State (task (sch k2) i) = TaskBlocked
     else State (task (sch k2) i) \<in> {TaskReady, TaskRunning})"
proof -
  let ?n = "sleep_ticks ms k" and ?w = "sleep_deadline ms k"
  obtain a where a: "refines (sch k) a" "ainv a" using ok by (auto simp: kernel_ok_def sched_inv_def)
  have c: "cur a = Some i" "lck a = 0" using refinesD(2,6) [OF a(1)] i(1) on(2) by simp_all
  have lv: "live a i" using ainvD(2) [OF a(2)] c(1) by (simp add: current_ok_def)
  have len: "length (Tasks (sch k)) = SchedMaxTasks" by (rule refines_current(1) [OF a])
  have ti: "tab a ! i = erase (task (sch k) i)" using refines_nth [OF a(1), of i] lv len by (simp add: live_def)
  have st: "State (tab a ! i) = TaskRunning" "TaskId (task (sch k) i) \<noteq> 0"
    using ti i(3) zero_id_idle [OF ainvD(3) [OF a(2)] lv] i(2) by auto
  have w: "?w = tick_count k + of_nat ?n" by (rule sleep_deadline_law [OF rate(2)])
  have "0 < unat ms * unat (ticks_per_second k)" using ms(1) rate(1) by (simp add: unat_gt_0)
  then have n: "0 < ?n" by (simp add: sleep_ticks_def div_greater_zero_iff)
  have "\<exists>j \<in> set (rq a). cur a \<noteq> Some j" using idle_ready [OF a(2)] c(1) i(2) by auto
  then obtain s0 where s0: "SchedHasRunnable (sch k) = Some (True, s0)" "refines s0 a"
    using SchedHasRunnable_sim [OF a(1)] by (auto simp: returns_def simp del: bex_simps)
  note sl = asleep_until_task [OF a(2) c(2,1) i(2) st(1), of ?w]
  define b where "b = fst (asleep_until ?w a)"
  have binv: "ainv b" unfolding b_def by (rule asleep_until_ainv [OF a(2)])
  from SchedSleepUntil_sim [OF s0(2) a(2), of ?w] sl obtain s1 where s1: "SchedSleepUntil ?w s0 = Some (s1, True)" "refines s1 b"
    by (auto simp: returns_def b_def)
  define k1 where "k1 = k\<lparr>sch := s1\<rparr>"
  have sleep: "timer_sleep_ms dev ms pending k = Some (k1, pending, True)"
    using rate(1) ms(1) on(1) i(1) st(2) s0(1) s1(1) by (simp add: timer_sleep_ms_def Let_def SchedCurrent_def k1_def)
  have k1: "kernel_ok m0 k1" "timer_line k1" "feeds (length irqs) (ps2 k1)" "refines (sch k1) b"
    using ok line irqs(2) s1(2) sched_invI [OF s1(2) binv] by (simp_all add: k1_def kernel_ok_def timer_line_def)
  have "dozes k1 b i ?n" using sl(2) w n ms(2,3) by (simp add: dozes_def k1_def b_def)
  from interrupts_doze [OF k1(4) binv k1(2,3,1) irqs(1) this, of dev] obtain k2 a2 where
    k2: "interrupts dev irqs k1 = Some k2" "kernel_ok m0 k2" "refines (sch k2) a2" "ainv a2" "dozes k2 a2 i (?n - length (filter timer_irq irqs))"
    by (auto simp: returns_def)
  have t2: "State (tab a2 ! i) = State (task (sch k2) i)"
    using refines_nth [OF k2(3), of i] refines_current(1) [OF k2(3,4)] lv by (simp add: live_def)
  have "CurrentTask (sch k1) \<noteq> Some i" using sl(3) refinesD(2) [OF k1(4)] by (simp add: b_def)
  with sleep k2 t2 show ?thesis
    by (intro exI [of _ k1] exI [of _ k2]) (auto simp: dozes_def sleeping_def awake_def split: if_splits)
qed

theorem timer_sleep_exact_witness:
  "(\<exists>k1 k2. timer_sleep_ms (\<lambda>_ _. 0) 25 [] demo_kernel = Some (k1, [], True) \<and>
      interrupts (\<lambda>_ _. 0) (map demo_irq [32, 33, 32, 39]) k1 = Some k2 \<and> State (task (sch k2) 1) = TaskBlocked) \<and>
   (\<exists>k1 k2. timer_sleep_ms (\<lambda>_ _. 0) 25 [] demo_kernel = Some (k1, [], True) \<and>
      interrupts (\<lambda>_ _. 0) (map demo_irq [32, 33, 32, 39, 32]) k1 = Some k2 \<and> State (task (sch k2) 1) \<in> {TaskReady, TaskRunning})"
proof -
  have n: "sleep_ticks 25 demo_kernel = 3" by (simp add: sleep_ticks_def)
  have f: "feeds (Suc (Suc (Suc (Suc 0)))) (ps2 demo_kernel)" "feeds (Suc (Suc (Suc (Suc (Suc 0))))) (ps2 demo_kernel)"
    using demo_feeds feeds_mono [of 7] feeds_mono [of 6] feeds_mono [of 5] feeds_mono [of 4]
    by (simp_all add: numeral_eq_Suc del: feeds.simps)
  have on: "cpu_irqs_enabled demo_cpu" by (simp add: demo_cpu_def cpu_irqs_enabled_def EflagsInterruptEnable_def)
  note sleep = timer_sleep_exact [OF demo_kernel_ok demo_timer_line, where i = 1 and ms = 25 and dev = "\<lambda>_ _. 0" and pending = "[]"]
  show ?thesis
    using sleep [of "map demo_irq [32, 33, 32, 39]"] sleep [of "map demo_irq [32, 33, 32, 39, 32]"] f on
    by (auto simp: n hardware_irq_def timer_irq_def simp del: feeds.simps interrupts.simps)
qed

subsection \<open>Rate and time\<close>

lemma pit_rate_fits:
  assumes "19 \<le> h" and "h \<le> (1193182 :: nat)"
  shows "h \<le> 1193182 div max 1 (min 65535 (1193182 div h))" "1193182 div max 1 (min 65535 (1193182 div h)) < 2 * h"
proof -
  let ?q = "1193182 div h"
  have "1193182 div h \<le> 1193182 div 19" using assms(1) by (intro div_le_mono2) simp_all
  moreover have "1 \<le> ?q" using assms by (simp add: Suc_le_eq div_greater_zero_iff)
  ultimately have q: "max 1 (min 65535 ?q) = ?q" "1 \<le> ?q" by auto
  have "?q * h \<le> 1193182" by simp
  then show "h \<le> 1193182 div max 1 (min 65535 (1193182 div h))"
    unfolding q(1) using q(2) by (simp add: less_eq_div_iff_mult_less_eq mult.commute)
  have "1193182 < Suc ?q * h" using assms(1) dividend_less_div_times [of h 1193182] by (simp add: add.commute)
  also have "\<dots> \<le> 2 * h * ?q" using q(2) by (simp add: mult.commute)
  finally show "1193182 div max 1 (min 65535 (1193182 div h)) < 2 * h"
    unfolding q(1) using q(2) by (simp add: div_less_iff_less_mult)
qed

lemma pit_rate_clamped:
  "0 < h \<Longrightarrow> h < 19 \<Longrightarrow> max 1 (min 65535 (1193182 div h)) = (65535 :: nat)"
  "1193182 < h \<Longrightarrow> max 1 (min 65535 (1193182 div h)) = (1 :: nat)"
proof -
  assume h: "0 < h" "h < 19"
  then have "1193182 div 18 \<le> 1193182 div h" by (intro div_le_mono2) simp_all
  then show "max 1 (min 65535 (1193182 div h)) = 65535" by simp
next
  assume "1193182 < h"
  then show "max 1 (min 65535 (1193182 div h)) = 1" by simp
qed

text \<open>
  C30: \<^verbatim>\<open>timer_init\<close> writes a 16-bit divisor that is never 0, low byte first, and records the rate that this
  divisor gives: at least the requested rate, and less than twice it, whenever the request is between 19 and 1193182 per second.
  Other requests are clamped to the slowest and the fastest rate, and a request that is not positive changes nothing.
\<close>

theorem timer_init_rate:
  fixes hz :: int
  assumes "hz < 2 ^ 31"
  shows "if hz \<le> 0 then timer_init dev hz k = k
    else (\<exists>lo hi d. 0 < d \<and> d = unat (lo :: u8) + 256 * unat (hi :: u8) \<and> unat (ticks_per_second (timer_init dev hz k)) = 1193182 div d \<and>
      take (length (ports (con k)) + 5) (ports (con (timer_init dev hz k))) =
        ports (con k) @ [(0x43, 0x36), (0x80, 0), (0x40, lo), (0x80, 0), (0x40, hi)] \<and>
      handlers (timer_init dev hz k) = (handlers k)[32 := Some timer_handler] \<and>
      (19 \<le> hz \<and> hz \<le> 1193182 \<longrightarrow> hz \<le> 1193182 div int d \<and> 1193182 div int d < 2 * hz) \<and> (hz < 19 \<longrightarrow> d = 65535) \<and> (1193182 < hz \<longrightarrow> d = 1))"
proof (cases "hz \<le> 0")
  case False
  then have hz: "0 < hz" by simp
  define d where "d = pit_divisor hz"
  define lo hi where "lo = (ucast (d AND 0xFF) :: u8)" and "hi = (ucast (drop_bit 8 d AND 0xFF) :: u8)"
  have d: "unat d = max 1 (min 65535 (1193182 div nat hz))" unfolding d_def by (rule pit_divisor_law [OF hz assms])
  then have db: "0 < unat d" "unat d < 65536" by auto
  have m: "(0xFF :: u32) = mask 8" by (simp add: mask_eq_exp_minus_1)
  have "unat lo = unat d mod 256"
    by (simp add: lo_def m take_bit_eq_mask [symmetric] unsigned_ucast_eq take_bit_eq_mod unat_mod)
  moreover have "unat hi = unat d div 256"
    using db(2) by (simp add: hi_def m take_bit_eq_mask [symmetric] unsigned_ucast_eq take_bit_eq_mod unat_mod unat_div drop_bit_eq_div)
  ultimately have bytes: "unat d = unat lo + 256 * unat hi" by simp
  have rate: "unat (PIT_OSC_FREQ div d) = 1193182 div unat d" by (simp add: unat_div PIT_OSC_FREQ_def)
  have fit: "hz \<le> 1193182 div int (unat d) \<and> 1193182 div int (unat d) < 2 * hz" if b: "19 \<le> hz" "hz \<le> 1193182"
  proof -
    have "nat hz \<le> 1193182 div unat d" "1193182 div unat d < 2 * nat hz" unfolding d using pit_rate_fits [of "nat hz"] b by simp_all
    moreover have "1193182 div int (unat d) = int (1193182 div unat d)" by (simp add: zdiv_int)
    ultimately show ?thesis by linarith
  qed
  have small: "hz < 19 \<longrightarrow> unat d = 65535" "1193182 < hz \<longrightarrow> unat d = 1"
    using d hz pit_rate_clamped [of "nat hz"] by auto
  have "timer_init dev hz k = irq_register dev 0 (Some timer_handler) ((kout 0x40 hi (kout 0x80 0 (kout 0x40 lo (kout 0x80 0 (kout 0x43 0x36 k)))))
      \<lparr>ticks_per_second := PIT_OSC_FREQ div d\<rparr>)"
    using False by (simp add: timer_init_def Let_def d_def lo_def hi_def io_wait_def PIT_CMD_REG_def PIT_CMD_SQUARE_def PIT_CH0_DATA_def)
  then show ?thesis using False db(1) bytes rate fit small
    by (simp, intro exI [of _ lo] exI [of _ hi]) (simp add: irq_register_def IRQ_COUNT_def IRQ_BASE_def Let_def)
qed (simp add: timer_init_def)

theorem timer_init_rate_witness:
  "(\<exists>lo hi d. d = unat (lo :: u8) + 256 * unat (hi :: u8) \<and> unat (ticks_per_second (timer_init (\<lambda>_ _. 0xFF) 100 demo_kernel)) = 1193182 div d \<and>
     100 \<le> 1193182 div int d \<and> 1193182 div int d < 200) \<and> timer_init (\<lambda>_ _. 0xFF) (- 1) demo_kernel = demo_kernel"
  using timer_init_rate [of 100 "\<lambda>_ _. 0xFF" demo_kernel] timer_init_rate [of "- 1" "\<lambda>_ _. 0xFF" demo_kernel] by auto

text \<open>
  \<^verbatim>\<open>timer_uptime_ms\<close>, computed in 32-bit pieces, is the exact number of whole milliseconds for every
  value of the tick and every rate that \<^verbatim>\<open>timer_init\<close> can set: no step of the computation overflows.
\<close>

theorem timer_uptime_exact:
  fixes k :: kernel and dev :: device and t :: u32
  assumes "0 < hz" and "hz < 2 ^ 31"
  defines "k' \<equiv> (timer_init dev hz k)\<lparr>tick_count := t\<rparr>"
  shows "unat (timer_uptime_ms k') = unat t * 1000 div unat (ticks_per_second k')"
proof -
  have d: "unat (pit_divisor hz) = max 1 (min 65535 (1193182 div nat hz))" by (rule pit_divisor_law [OF assms(1,2)])
  have tps: "ticks_per_second k' = PIT_OSC_FREQ div pit_divisor hz"
    using assms(1) by (simp add: k'_def timer_init_def Let_def irq_register_def IRQ_COUNT_def)
  then have r: "unat (ticks_per_second k') = 1193182 div unat (pit_divisor hz)" by (simp add: unat_div PIT_OSC_FREQ_def)
  have "1193182 div 65535 \<le> 1193182 div unat (pit_divisor hz)" using d by (intro div_le_mono2) auto
  then have "ticks_per_second k' \<noteq> 0" "unat (ticks_per_second k') \<le> 1193182" using r by (auto simp: unat_eq_0 [symmetric])
  from uptime_law [OF this] show ?thesis by (simp add: k'_def)
qed

theorem timer_uptime_exact_witness:
  "unat (timer_uptime_ms ((timer_init (\<lambda>_ _. 0xFF) 100 demo_kernel)\<lparr>tick_count := 0xFFFFFFFF\<rparr>)) =
     4294967295 * 1000 div unat (ticks_per_second ((timer_init (\<lambda>_ _. 0xFF) 100 demo_kernel)\<lparr>tick_count := 0xFFFFFFFF\<rparr>))"
  using timer_uptime_exact [where hz = 100 and dev = "\<lambda>_ _. 0xFF" and k = demo_kernel and t = "0xFFFFFFFF"] by simp

subsection \<open>The descriptor table\<close>

text \<open>The address of a gate, as the processor puts it together.\<close>

definition gate_address :: "idt_entry \<Rightarrow> u32" where
  "gate_address e = push_bit 16 (ucast (offset_high e)) OR ucast (offset_low e)"

lemma gate_address_set: "gate_address \<lparr>offset_low = ucast (fn AND 0xFFFF), selector = s, zero = z, type_attr = t, offset_high = ucast (drop_bit 16 fn AND 0xFFFF)\<rparr> = fn"
proof -
  have m: "(0xFFFF :: u32) = mask 16" by (simp add: mask_eq_exp_minus_1)
  show ?thesis
    by (rule bit_word_eqI) (auto simp: gate_address_def m bit_simps)
qed

lemma fold_gates:
  assumes "n \<le> length (idt k)"
  shows "length (idt (fold (\<lambda>i. idt_set_gate i (f i)) [m..<n] k)) = length (idt k)"
    and "v < length (idt k) \<Longrightarrow> idt (fold (\<lambda>i. idt_set_gate i (f i)) [m..<n] k) ! v =
      (if m \<le> v \<and> v < n then idt (idt_set_gate v (f v) k) ! v else idt k ! v)"
  using assms
  by (induction n) (auto simp: idt_set_gate_def nth_list_update less_Suc_eq)

lemma idt_gates:
  fixes stubs :: "u32 list" and placeholder address :: u32
  assumes "length (idt k) = 256" and "v < 256"
  defines "k' \<equiv> idt_init stubs placeholder address k"
  shows "gate_address (idt k' ! v) = (if v < 48 then stubs ! v else placeholder) \<and>
    selector (idt k' ! v) = 0x10 \<and> type_attr (idt k' ! v) = 0x8E \<and> zero (idt k' ! v) = 0 \<and>
    loaded_idtr k' = Some \<lparr>limit = 2047, base = address\<rparr>"
proof -
  let ?k1 = "fold (\<lambda>i. idt_set_gate i (stubs ! i)) [0..<48] k"
  have l1: "length (idt ?k1) = 256" using fold_gates(1) [of 48 k] assms(1) by simp
  have "idt k' ! v = idt (idt_set_gate v (if v < 48 then stubs ! v else placeholder) k) ! v"
    using fold_gates(2) [of 256 ?k1 v "\<lambda>_. placeholder" 48] fold_gates(2) [of 48 k v "\<lambda>i. stubs ! i" 0] l1 assms(1,2)
    by (simp add: k'_def idt_init_def Let_def INT_VECTORS_def) (simp add: idt_set_gate_def)
  then have e: "idt k' ! v = \<lparr>offset_low = ucast ((if v < 48 then stubs ! v else placeholder) AND 0xFFFF), selector = 0x10, zero = 0, type_attr = 0x8E,
      offset_high = ucast (drop_bit 16 (if v < 48 then stubs ! v else placeholder) AND 0xFFFF)\<rparr>"
    using assms(1,2) by (simp add: idt_set_gate_def)
  have "gate_address (idt k' ! v) = (if v < 48 then stubs ! v else placeholder)" unfolding e by (rule gate_address_set)
  moreover have "selector (idt k' ! v) = 0x10 \<and> type_attr (idt k' ! v) = 0x8E \<and> zero (idt k' ! v) = 0" by (simp add: e)
  moreover have "loaded_idtr k' = Some \<lparr>limit = 2047, base = address\<rparr>" by (simp add: k'_def idt_init_def Let_def INT_VECTORS_def)
  ultimately show ?thesis by blast
qed

text \<open>
  After \<^verbatim>\<open>idt_init\<close> every vector leads where it should: the address that the processor assembles from
  the two halves of a gate is the stub of that vector for vectors 0 to 47 and the placeholder for all others, each
  gate is a present 32-bit interrupt gate in the kernel's code segment, and the loaded register covers exactly the table.
\<close>

theorem idt_init_gates:
  fixes stubs :: "u32 list" and placeholder address :: u32
  assumes "length (idt k) = 256" and "v < 256"
  defines "k' \<equiv> idt_init stubs placeholder address k"
  shows "gate_address (idt k' ! v) = (if v < 48 then stubs ! v else placeholder) \<and>
    selector (idt k' ! v) = 0x10 \<and> type_attr (idt k' ! v) = 0x8E \<and> zero (idt k' ! v) = 0 \<and>
    loaded_idtr k' = Some \<lparr>limit = 2047, base = address\<rparr>"
  unfolding k'_def by (rule idt_gates [OF assms(1,2)])

theorem idt_init_gates_witness:
  "gate_address (idt (idt_init (map of_nat [0x100000..<0x100030]) 0x200000 0x300000 demo_kernel) ! 33) = 0x100021"
proof -
  have "length (idt demo_kernel) = 256" by (simp add: demo_kernel_def)
  from idt_init_gates [OF this, where v = 33 and stubs = "map of_nat [0x100000..<0x100030]" and placeholder = "0x200000" and address = "0x300000"]
  show ?thesis by simp
qed

subsection \<open>Interrupt lines\<close>

datatype line_call = Register int "irq_handler_t option" | Unregister int

fun run_line :: "device \<Rightarrow> line_call \<Rightarrow> kernel \<Rightarrow> kernel" where
  "run_line dev (Register irq h) k = irq_register dev irq h k"
| "run_line dev (Unregister irq) k = irq_unregister dev irq k"

fun call_line :: "line_call \<Rightarrow> int" where
  "call_line (Register irq h) = irq"
| "call_line (Unregister irq) = irq"

definition last_write :: "u16 \<Rightarrow> port_write list \<Rightarrow> u8 option" where
  "last_write port ws = fold (\<lambda>(p, v) r. if p = port then Some v else r) ws None"

text \<open>Documented behaviour of the interrupt controller: its data port reads back the mask last written.\<close>

definition reads_mask :: "device \<Rightarrow> bool" where
  "reads_mask dev \<longleftrightarrow> (\<forall>ws port v. port \<in> {PIC1_DATA, PIC2_DATA} \<and> last_write port ws = Some v \<longrightarrow> dev ws port = v)"

text \<open>The two masks against the handler table: line 2 of the first controller carries the second one.\<close>

definition masks_agree :: "irq_handler_t option list \<Rightarrow> u8 \<Rightarrow> u8 \<Rightarrow> bool" where
  "masks_agree hs m1 m2 \<longleftrightarrow> length hs = 256 \<and> (\<forall>l < 8. l \<noteq> 2 \<longrightarrow> (bit m1 l \<longleftrightarrow> hs ! (32 + l) = None)) \<and>
     (\<forall>l < 8. bit m2 l \<longleftrightarrow> hs ! (40 + l) = None) \<and> ((\<exists>l < 8. hs ! (40 + l) \<noteq> None) \<longrightarrow> \<not> bit m1 2)"

definition lines_agree :: "kernel \<Rightarrow> bool" where
  "lines_agree k \<longleftrightarrow> (\<exists>m1 m2. last_write PIC1_DATA (ports (con k)) = Some m1 \<and> last_write PIC2_DATA (ports (con k)) = Some m2 \<and>
     masks_agree (handlers k) m1 m2)"

lemma mask_bits:
  fixes m :: u8
  shows "bit (m AND NOT (push_bit n 1)) j \<longleftrightarrow> bit m j \<and> j \<noteq> n" "n < 8 \<Longrightarrow> bit (m OR push_bit n 1) j \<longleftrightarrow> bit m j \<or> j = n"
  using bit_imp_le_length [of m j] by (auto simp: bit_simps)

lemma masks_agree_step:
  assumes "masks_agree hs m1 m2" and "l < 8"
  shows "l \<noteq> 2 \<Longrightarrow> masks_agree (hs[32 + l := Some y]) (m1 AND NOT (push_bit l 1)) m2"
    and "masks_agree (hs[40 + l := Some y]) (m1 AND NOT (push_bit 2 1)) (m2 AND NOT (push_bit l 1))"
    and "l \<noteq> 2 \<Longrightarrow> masks_agree (hs[32 + l := None]) (m1 OR push_bit l 1) m2"
    and "masks_agree (hs[40 + l := None]) m1 (m2 OR push_bit l 1)"
  using assms by (auto simp: masks_agree_def mask_bits nth_list_update simp del: push_bit_of_1)

lemma last_write_append [simp]:
  "last_write port (ws @ [(p, v)]) = (if p = port then Some v else last_write port ws)"
  "last_write port (ws @ [(p, v), (q, w)]) = (if q = port then Some w else if p = port then Some v else last_write port ws)"
  by (simp_all add: last_write_def)

lemma kin_mask:
  "reads_mask dev \<Longrightarrow> port \<in> {PIC1_DATA, PIC2_DATA} \<Longrightarrow> last_write port (ports (con k)) = Some v \<Longrightarrow> kin dev port k = v"
  by (simp add: reads_mask_def kin_def)

lemma irq_and_7: "0 \<le> irq \<Longrightarrow> nat (irq AND 7) = nat irq mod 8"
proof -
  have "irq AND 7 = take_bit 3 irq" by (simp add: take_bit_eq_mask mask_eq_exp_minus_1)
  then show "0 \<le> irq \<Longrightarrow> nat (irq AND 7) = nat irq mod 8" by (simp add: take_bit_eq_mod nat_mod_distrib)
qed

lemma data_ports: "PIC1_DATA \<noteq> PIC2_DATA" "PIC2_DATA \<noteq> PIC1_DATA"
  by (simp_all add: irq_consts)

lemma line_update:
  assumes dev: "reads_mask dev" and m: "last_write PIC1_DATA (ports (con k)) = Some m1" "last_write PIC2_DATA (ports (con k)) = Some m2"
    and l: "l < 8"
  shows "irq_register dev (int l) (Some y) k = kout PIC1_DATA (m1 AND NOT (push_bit l 1)) (k\<lparr>handlers := (handlers k)[32 + l := Some y]\<rparr>)"
    and "irq_register dev (int (8 + l)) (Some y) k = kout PIC1_DATA (m1 AND NOT (push_bit 2 1))
      (kout PIC2_DATA (m2 AND NOT (push_bit l 1)) (k\<lparr>handlers := (handlers k)[40 + l := Some y]\<rparr>))"
    and "irq_unregister dev (int l) k = kout PIC1_DATA (m1 OR push_bit l 1) (k\<lparr>handlers := (handlers k)[32 + l := None]\<rparr>)"
    and "irq_unregister dev (int (8 + l)) k = kout PIC2_DATA (m2 OR push_bit l 1) (k\<lparr>handlers := (handlers k)[40 + l := None]\<rparr>)"
proof -
  have in12: "kin dev PIC1_DATA (k\<lparr>handlers := hs\<rparr>) = m1" "kin dev PIC2_DATA (k\<lparr>handlers := hs\<rparr>) = m2"
    "kin dev PIC1_DATA (kout PIC2_DATA v (k\<lparr>handlers := hs\<rparr>)) = m1" for hs v
    using m by (auto intro!: kin_mask [OF dev] simp: data_ports)
  have b: "nat (int l AND 7) = l" "nat (int (8 + l) AND 7) = l" "nat (8 + int l) = 8 + l"
    using l irq_and_7 [of "int l"] irq_and_7 [of "int (8 + l)"] by (simp_all add: nat_add_distrib)
  note d = irq_register_def irq_unregister_def IRQ_COUNT_def IRQ_BASE_def Let_def line_port_def
  show "irq_register dev (int l) (Some y) k = kout PIC1_DATA (m1 AND NOT (push_bit l 1)) (k\<lparr>handlers := (handlers k)[32 + l := Some y]\<rparr>)"
    "irq_unregister dev (int l) k = kout PIC1_DATA (m1 OR push_bit l 1) (k\<lparr>handlers := (handlers k)[32 + l := None]\<rparr>)"
    using l b(1) by (simp_all add: d in12)
  show "irq_register dev (int (8 + l)) (Some y) k = kout PIC1_DATA (m1 AND NOT (push_bit 2 1))
      (kout PIC2_DATA (m2 AND NOT (push_bit l 1)) (k\<lparr>handlers := (handlers k)[40 + l := Some y]\<rparr>))"
    "irq_unregister dev (int (8 + l)) k = kout PIC2_DATA (m2 OR push_bit l 1) (k\<lparr>handlers := (handlers k)[40 + l := None]\<rparr>)"
    using l b(2,3) by (simp_all add: d in12)
qed

lemma run_line_agrees:
  assumes dev: "reads_mask dev" and k: "lines_agree k" and c: "call_line c \<noteq> 2"
  shows "lines_agree (run_line dev c k)"
proof -
  obtain m1 m2 where m: "last_write PIC1_DATA (ports (con k)) = Some m1" "last_write PIC2_DATA (ports (con k)) = Some m2"
    and a: "masks_agree (handlers k) m1 m2" using k by (auto simp: lines_agree_def)
  define irq where "irq = call_line c"
  consider "irq < 0 \<or> 16 \<le> irq" | l where "irq = int l" "l < 8" "l \<noteq> 2" | l where "irq = int (8 + l)" "l < 8"
  proof (cases "irq < 0 \<or> 16 \<le> irq")
    case False
    then show ?thesis using that(2) [of "nat irq"] that(3) [of "nat irq - 8"] c by (cases "irq < 8") (auto simp: irq_def)
  qed
  then show ?thesis
  proof cases
    case 1
    then show ?thesis using k by (cases c) (auto simp: irq_def irq_register_def irq_unregister_def IRQ_COUNT_def)
  next
    case (2 l)
    then show ?thesis
      using k line_update(1,3) [OF dev m] masks_agree_step(1,3) [OF a] m data_ports
      by (cases c; cases "case c of Register _ h \<Rightarrow> h | _ \<Rightarrow> None")
        (auto simp: irq_def lines_agree_def irq_register_def [of _ _ None] simp del: push_bit_of_1)
  next
    case (3 l)
    then show ?thesis
      using k line_update(2,4) [OF dev m] masks_agree_step(2,4) [OF a] m data_ports
      by (cases c; cases "case c of Register _ h \<Rightarrow> h | _ \<Rightarrow> None")
        (auto simp: irq_def lines_agree_def irq_register_def [of _ _ None] simp del: push_bit_of_1 of_nat_add)
  qed
qed

lemma pic_init_agrees:
  assumes "length (handlers k) = 256" and "\<forall>v. 32 \<le> v \<and> v < 48 \<longrightarrow> handlers k ! v = None"
  shows "lines_agree (pic_init k)"
proof -
  have "last_write PIC1_DATA (ports (con (pic_init k))) = Some 0xFF" "last_write PIC2_DATA (ports (con (pic_init k))) = Some 0xFF"
    "handlers (pic_init k) = handlers k"
    by (simp_all add: pic_init_def Let_def last_write_def irq_consts)
  moreover have m: "(0xFF :: u8) = mask 8" by (simp add: mask_eq_exp_minus_1)
  have "bit (0xFF :: u8) l" if "l < 8" for l unfolding m using that by (simp only: bit_mask_iff) simp
  then have "masks_agree (handlers k) 0xFF 0xFF" using assms by (auto simp: masks_agree_def)
  ultimately show ?thesis by (auto simp: lines_agree_def)
qed

text \<open>
  C31: from \<^verbatim>\<open>pic_init\<close> on, through any sequence of \<^verbatim>\<open>irq_register\<close> and \<^verbatim>\<open>irq_unregister\<close> calls, valid or not, that leave
  line 2 alone, the interrupt controllers let through exactly the lines that have a handler: the last mask written to the
  controller of a line has the line's bit set just when the handler table is empty there, and while a line of the second
  controller has a handler the line that carries that controller is open.
\<close>

theorem irq_lines_agree:
  assumes "reads_mask dev" and "length (handlers k) = 256" and "\<forall>v. 32 \<le> v \<and> v < 48 \<longrightarrow> handlers k ! v = None"
    and "\<forall>c \<in> set calls. call_line c \<noteq> 2"
  shows "lines_agree (fold (run_line dev) calls (pic_init k))"
proof -
  have "lines_agree k' \<Longrightarrow> lines_agree (fold (run_line dev) calls k')" for k'
    using assms(4) by (induction calls arbitrary: k') (simp_all add: run_line_agrees [OF assms(1)])
  then show ?thesis using pic_init_agrees [OF assms(2,3)] .
qed

text \<open>A controller that keeps the last mask.\<close>

definition demo_pic :: device where
  "demo_pic ws port = (case last_write port ws of None \<Rightarrow> 0 | Some v \<Rightarrow> v)"

theorem irq_lines_agree_witness:
  "lines_agree (fold (run_line demo_pic) [Register 0 (Some timer_handler), Register 1 (Some keyboard_handler), Register 12 (Some keyboard_handler),
     Register 99 (Some timer_handler), Register 4 None, Unregister 1] (pic_init (demo_kernel\<lparr>handlers := replicate 256 None\<rparr>)))"
  by (rule irq_lines_agree) (auto simp: reads_mask_def demo_pic_def)

end
