(* ===== verification/Page_Laws.thy ===== *)
theory Page_Laws
  imports Page_Alloc
begin

text \<open>
  What the page allocator promises. The locale \<open>page_provider\<close> is the interface the kernel
  heap relies on: a set of free pages, an allocation of a run at or after a hint, and the
  release of a run. Its interpretation on \<^const>\<open>PageAllocPagesAt\<close> and \<^const>\<open>PageFreePages\<close>
  discharges the laws for the code. The second part computes the set of free pages that
  \<^const>\<open>PageAllocInit\<close> leaves behind from the entries of the boot loader's memory map.
\<close>

subsection \<open>Page numbers and addresses\<close>

lemma page_addr:
  assumes "p < PAGE_COUNT"
  shows "unat (of_nat p * PAGE_SIZE) = p * 4096"
proof -
  have "of_nat p * PAGE_SIZE = of_nat (p * 4096)" by (simp add: PAGE_SIZE_def)
  moreover have "p * 4096 < 4294967296" using assms by (simp add: PAGE_COUNT_def)
  ultimately show ?thesis by (simp only: unat_of_nat_u32)
qed

lemma page_of_addr:
  assumes "p < PAGE_COUNT"
  shows "unat (of_nat p * PAGE_SIZE div PAGE_SIZE) = p"
  using page_addr [OF assms] by (simp add: unat_div) (simp add: PAGE_SIZE_def)

lemma aligned_iff: "(a :: u32) AND (PAGE_SIZE - 1) = 0 \<longleftrightarrow> 4096 dvd unat a"
proof -
  have "PAGE_SIZE - 1 = mask 12" by (simp add: PAGE_SIZE_def mask_eq_exp_minus_1)
  then have "a AND (PAGE_SIZE - 1) = take_bit 12 a" by (simp add: take_bit_eq_mask)
  then have "a AND (PAGE_SIZE - 1) = 0 \<longleftrightarrow> unat (take_bit 12 a) = 0" by (simp add: unat_eq_0)
  also have "unat (take_bit 12 a) = unat a mod 4096" by (simp add: take_bit_eq_mod unat_mod)
  finally show ?thesis by (simp add: dvd_eq_mod_eq_0)
qed

lemma page_addr_eq:
  assumes "4096 dvd unat a"
  shows "a = of_nat (unat (a div PAGE_SIZE)) * PAGE_SIZE" and "unat (a div PAGE_SIZE) = unat a div 4096"
    and "unat a div 4096 < PAGE_COUNT"
proof -
  show d: "unat (a div PAGE_SIZE) = unat a div 4096" by (simp add: unat_div PAGE_SIZE_def)
  show "unat a div 4096 < PAGE_COUNT" using u32_less [of a] by (simp add: PAGE_COUNT_def)
  then have "unat (of_nat (unat a div 4096) * PAGE_SIZE) = unat a"
    using assms by (simp only: page_addr) simp
  then show "a = of_nat (unat (a div PAGE_SIZE)) * PAGE_SIZE" by (metis d unsigned_word_eqI)
qed

lemma page_pos: "a \<noteq> 0 \<Longrightarrow> 4096 dvd unat a \<Longrightarrow> 0 < unat (a :: u32) div 4096"
  using dvd_imp_le [of 4096 "unat a"] by (auto simp: unat_gt_0)

subsection \<open>Allocation and release\<close>

lemma PageAlloc_law:
  "PageAlloc ps = (if avail ps = {} then (0, ps)
     else (of_nat (Min (avail ps)) * PAGE_SIZE, PageSet (Min (avail ps)) PageStateUsed ps))"
proof -
  have "avail ps = {x. 0 * 32 \<le> x \<and> x < PAGE_COUNT \<and> page_is_free ps x}" by (simp add: avail_def)
  then show ?thesis by (simp only: PageAlloc_def alloc_words_find find_upt_Min Let_def) auto
qed

lemma avail_Min: "avail ps \<noteq> {} \<Longrightarrow> Min (avail ps) \<in> avail ps" "p \<in> avail ps \<Longrightarrow> p < PAGE_COUNT"
  by (simp, simp add: avail_def)

text \<open>The pages at which a run of \<open>n\<close> free pages starts, at or after \<open>hint\<close>.\<close>

definition free_runs :: "pages \<Rightarrow> nat \<Rightarrow> nat \<Rightarrow> nat set" where
  "free_runs ps hint n = {s. hint \<le> s \<and> s + n \<le> PAGE_COUNT \<and> {s..<s + n} \<subseteq> avail ps}"

lemma free_runs_finite [simp]: "finite (free_runs ps hint n)"
  by (rule finite_subset [of _ "{..PAGE_COUNT}"]) (auto simp: free_runs_def)

lemma free_runs_Min: "free_runs ps hint n \<noteq> {} \<Longrightarrow> Min (free_runs ps hint n) \<in> free_runs ps hint n"
  by simp

lemma free_runs_count: "s \<in> free_runs ps hint n \<Longrightarrow> n \<le> card (avail ps)"
  using card_mono [of "avail ps" "{s..<s + n}"] by (simp add: free_runs_def)

lemma find_run_Min:
  assumes "0 < n" and "n \<le> PAGE_COUNT"
  shows "find_run n hint ps = (if free_runs ps hint n = {} then None else Some (Min (free_runs ps hint n)))"
proof -
  have "(\<forall>k<n. page_is_free ps (s + k)) \<longleftrightarrow> {s..<s + n} \<subseteq> avail ps" if "s + n \<le> PAGE_COUNT" for s
  proof
    assume all: "\<forall>k<n. page_is_free ps (s + k)"
    show "{s..<s + n} \<subseteq> avail ps"
    proof
      fix p
      assume "p \<in> {s..<s + n}"
      then show "p \<in> avail ps" using all [rule_format, of "p - s"] that by (auto simp: avail_def)
    qed
  qed (auto simp: avail_def subset_iff)
  moreover have "s \<le> PAGE_COUNT - n \<longleftrightarrow> s + n \<le> PAGE_COUNT" for s using assms(2) by auto
  ultimately have "{x. hint \<le> x \<and> x < Suc (PAGE_COUNT - n) \<and> (\<forall>k<n. page_is_free ps (x + k))} = free_runs ps hint n"
    by (auto simp: free_runs_def less_Suc_eq_le)
  then show ?thesis using assms(1) by (simp only: find_run_find find_upt_Min Let_def)
qed

lemma PageAllocPages_At: "PageAllocPages n ps = PageAllocPagesAt 0 n ps"
  by (simp add: PageAllocPages_def PageAllocPagesAt_def)

text \<open>The count of free pages is only a shortcut: it never rejects a request that has a run.\<close>

lemma PageAllocPagesAt_law:
  fixes hint n :: u32
  assumes "pages_ok ps" and "n \<noteq> 0"
  defines "R \<equiv> free_runs ps (unat (hint div PAGE_SIZE)) (unat n)"
  shows "PageAllocPagesAt hint n ps = (if R = {} then (0, ps)
     else (of_nat (Min R) * PAGE_SIZE, set_run (Min R) (unat n) PageStateUsed ps))"
proof -
  have hint: "(if hint = 0 then 0 else unat (hint div PAGE_SIZE)) = unat (hint div PAGE_SIZE)" by simp
  have fits: "\<not> n > FreePages ps" "\<not> n > of_nat PAGE_COUNT" if "R \<noteq> {}"
  proof -
    from that obtain s where "s \<in> R" by auto
    then have "unat n \<le> card (avail ps)" and "unat n \<le> PAGE_COUNT"
      unfolding R_def by (rule free_runs_count, simp add: free_runs_def)
    then show "\<not> n > FreePages ps" "\<not> n > of_nat PAGE_COUNT"
      using assms(1) by (simp_all add: pages_ok_def word_less_nat_alt not_less PAGE_COUNT_def)
  qed
  show ?thesis
  proof (cases "n > FreePages ps \<or> n > of_nat PAGE_COUNT")
    case True
    then show ?thesis using fits by (auto simp: PageAllocPagesAt_def)
  next
    case False
    then have "unat n \<le> PAGE_COUNT" by (simp add: word_less_nat_alt not_less PAGE_COUNT_def)
    moreover have "0 < unat n" using assms(2) by (simp add: unat_gt_0)
    ultimately show ?thesis
      using False assms(2) unfolding PageAllocPagesAt_def hint R_def by (simp add: find_run_Min Let_def)
  qed
qed

lemma PageFree_law:
  "PageFree a ps = (if a = 0 \<or> \<not> 4096 dvd unat a then ps else PageSet (unat a div 4096) PageStateAvailable ps)"
proof -
  have "\<not> a div PAGE_SIZE \<ge> of_nat PAGE_COUNT"
    using u32_less [of a] by (simp add: word_le_nat_alt unat_div PAGE_SIZE_def PAGE_COUNT_def)
  then show ?thesis by (simp add: PageFree_def aligned_iff unat_div) (simp add: PAGE_SIZE_def)
qed

lemma PageFreePages_law:
  "PageFreePages a n ps =
     (if a = 0 \<or> \<not> 4096 dvd unat a \<or> n = 0 \<or> unat a div 4096 + unat n > PAGE_COUNT then ps
      else set_run (unat a div 4096) (unat n) PageStateAvailable ps)"
proof -
  have lt: "a div PAGE_SIZE < of_nat PAGE_COUNT"
    using u32_less [of a] by (simp add: word_less_nat_alt unat_div PAGE_SIZE_def PAGE_COUNT_def)
  have u: "unat (a div PAGE_SIZE) = unat a div 4096" by (simp add: unat_div PAGE_SIZE_def)
  have "unat (of_nat PAGE_COUNT - a div PAGE_SIZE) = PAGE_COUNT - unat a div 4096"
    using lt by (simp add: unat_sub u less_imp_le) (simp add: PAGE_COUNT_def)
  moreover have "unat a div 4096 < PAGE_COUNT" using u32_less [of a] by (simp add: PAGE_COUNT_def)
  ultimately have "n > of_nat PAGE_COUNT - a div PAGE_SIZE \<longleftrightarrow> unat a div 4096 + unat n > PAGE_COUNT"
    unfolding word_less_nat_alt by auto
  then show ?thesis using lt by (auto simp: PageFreePages_def aligned_iff u Let_def)
qed

subsection \<open>The interface the heap relies on\<close>

text \<open>
  \<open>alloc hint n\<close> returns the address of a run of \<open>n\<close> pages that were free, or 0, and \<open>release\<close>
  gives a run back. \<open>0\<close> is never a page of the provider, so 0 means failure.
\<close>

locale page_provider =
  fixes ok :: "'p \<Rightarrow> bool" and frees :: "'p \<Rightarrow> nat set"
    and alloc :: "u32 \<Rightarrow> u32 \<Rightarrow> 'p \<Rightarrow> u32 \<times> 'p" and release :: "u32 \<Rightarrow> u32 \<Rightarrow> 'p \<Rightarrow> 'p"
  assumes frees_bound: "ok p \<Longrightarrow> q \<in> frees p \<Longrightarrow> 0 < q \<and> q < PAGE_COUNT"
    and alloc_law: "ok p \<Longrightarrow> alloc hint n p = (a, p') \<Longrightarrow> ok p' \<and>
      (if a = 0 then p' = p
       else n \<noteq> 0 \<and> 4096 dvd unat a \<and> unat a + unat n * 4096 \<le> 2 ^ 32 \<and>
         {unat a div 4096..<unat a div 4096 + unat n} \<subseteq> frees p \<and>
         frees p' = frees p - {unat a div 4096..<unat a div 4096 + unat n})"
    and release_law: "ok p \<Longrightarrow> a \<noteq> 0 \<Longrightarrow> 4096 dvd unat a \<Longrightarrow> n \<noteq> 0 \<Longrightarrow> unat a + unat n * 4096 \<le> 2 ^ 32 \<Longrightarrow>
      ok (release a n p) \<and> frees (release a n p) = frees p \<union> {unat a div 4096..<unat a div 4096 + unat n}"
begin

text \<open>A run that was allocated and released is free again, and nothing else has changed.\<close>

lemma alloc_release:
  assumes "ok p" and "alloc hint n p = (a, p')" and "a \<noteq> 0"
  shows "ok (release a n p') \<and> frees (release a n p') = frees p"
  using alloc_law [OF assms(1,2)] release_law [of p' a n] assms(3) by auto

text \<open>Two runs handed out one after the other do not overlap.\<close>

lemma alloc_disjoint:
  assumes "ok p" and "alloc h n p = (a, p')" and "alloc h' n' p' = (a', p'')" and "a \<noteq> 0" and "a' \<noteq> 0"
  shows "unat a + unat n * 4096 \<le> unat a' \<or> unat a' + unat n' * 4096 \<le> unat a"
proof -
  define s s' where "s = unat a div 4096" and "s' = unat a' div 4096"
  note l = alloc_law [OF assms(1,2)] and l' = alloc_law [of p' h' n', OF _ assms(3)]
  then have a: "unat a = s * 4096" "unat a' = s' * 4096" "n \<noteq> 0" "n' \<noteq> 0"
    using assms by (auto simp: s_def s'_def)
  have "{s'..<s' + unat n'} \<subseteq> frees p - {s..<s + unat n}"
    using l l' assms unfolding s_def s'_def by simp
  then have "{s..<s + unat n} \<inter> {s'..<s' + unat n'} = {}" by blast
  moreover have "0 < unat n" "0 < unat n'" using a by (simp_all add: unat_gt_0)
  ultimately have "s + unat n \<le> s' \<or> s' + unat n' \<le> s"
    by (rule interval_disjoint)
  then show ?thesis unfolding a by linarith
qed

end

definition page_inv :: "pages \<Rightarrow> bool" where
  "page_inv ps \<longleftrightarrow> pages_ok ps \<and> 0 \<notin> avail ps"

lemma run_page_inv:
  assumes "page_inv ps" and "start + n \<le> PAGE_COUNT" and "st = PageStateAvailable \<Longrightarrow> 0 < start"
  shows "page_inv (set_run start n st ps)"
  using assms set_run_law [OF assms(2), where st = st and ps = ps] by (auto simp: page_inv_def)

interpretation pg: page_provider page_inv avail PageAllocPagesAt PageFreePages
proof
  fix p q
  show "page_inv p \<Longrightarrow> q \<in> avail p \<Longrightarrow> 0 < q \<and> q < PAGE_COUNT"
    by (auto simp: page_inv_def avail_def intro: gr0I)
next
  fix p p' :: pages and hint n a :: u32
  assume p: "page_inv p" and al: "PageAllocPagesAt hint n p = (a, p')"
  let ?R = "free_runs p (unat (hint div PAGE_SIZE)) (unat n)"
  let ?run = "{unat a div 4096..<unat a div 4096 + unat n}"
  show "page_inv p' \<and> (if a = 0 then p' = p
      else n \<noteq> 0 \<and> 4096 dvd unat a \<and> unat a + unat n * 4096 \<le> 2 ^ 32 \<and> ?run \<subseteq> avail p \<and> avail p' = avail p - ?run)"
  proof (cases "n = 0 \<or> ?R = {}")
    case True
    then have "a = 0" "p' = p"
      using al PageAllocPagesAt_law [of p n hint] p
      by (auto simp: page_inv_def PageAllocPagesAt_def split: if_splits)
    with p show ?thesis by simp
  next
    case False
    define s where "s = Min ?R"
    have s: "s + unat n \<le> PAGE_COUNT" "{s..<s + unat n} \<subseteq> avail p" "0 < unat n"
      using False free_runs_Min [of p "unat (hint div PAGE_SIZE)" "unat n"]
      by (auto simp: s_def free_runs_def unat_gt_0)
    then have "s \<in> avail p" and sb: "s < PAGE_COUNT" by auto
    then have s0: "0 < s" using p by (auto simp: page_inv_def intro: gr0I)
    have a: "a = of_nat s * PAGE_SIZE" and p': "p' = set_run s (unat n) PageStateUsed p"
      using al PageAllocPagesAt_law [of p n hint] p False by (auto simp: page_inv_def s_def)
    have ua: "unat a = s * 4096" using page_addr [OF sb] a by simp
    then have "a \<noteq> 0" using s0 by auto
    moreover have "unat a + unat n * 4096 \<le> 2 ^ 32" using s(1) ua by (simp add: PAGE_COUNT_def)
    ultimately show ?thesis
      using ua s False run_page_inv [OF p s(1), of PageStateUsed] set_run_law(1) [OF s(1), of PageStateUsed p]
      by (simp add: p')
  qed
next
  fix p :: pages and a n :: u32
  assume *: "page_inv p" "a \<noteq> 0" "4096 dvd unat a" "n \<noteq> 0" "unat a + unat n * 4096 \<le> 2 ^ 32"
  define s where "s = unat a div 4096"
  have ua: "unat a = s * 4096" using *(3) by (simp add: s_def)
  then have "s + unat n \<le> PAGE_COUNT" "0 < s"
    using *(5) page_pos [OF *(2,3)] by (auto simp: PAGE_COUNT_def s_def)
  then show "page_inv (PageFreePages a n p) \<and>
      avail (PageFreePages a n p) = avail p \<union> {unat a div 4096..<unat a div 4096 + unat n}"
    using * run_page_inv [of p s "unat n" PageStateAvailable] set_run_law(1) [of s "unat n" PageStateAvailable p]
    unfolding PageFreePages_law s_def [symmetric] by simp
qed

subsection \<open>The memory map\<close>

text \<open>
  The entries the boot loader's map lists: from offset \<open>off\<close> on, as long as an entry fits into
  the \<open>len\<close> bytes of the map.
\<close>

inductive listed :: "bytes \<Rightarrow> u32 \<Rightarrow> u32 \<Rightarrow> u32 \<Rightarrow> multiboot_mmap \<Rightarrow> bool" for m addr len where
  here: "off + 4 \<le> len \<Longrightarrow> 20 \<le> msize (mmap_entry m (addr + off)) \<Longrightarrow>
    msize (mmap_entry m (addr + off)) \<le> len - off - 4 \<Longrightarrow> listed m addr len off (mmap_entry m (addr + off))"
| later: "off + 4 \<le> len \<Longrightarrow> 20 \<le> msize (mmap_entry m (addr + off)) \<Longrightarrow>
    msize (mmap_entry m (addr + off)) \<le> len - off - 4 \<Longrightarrow>
    listed m addr len (off + (4 + msize (mmap_entry m (addr + off)))) e \<Longrightarrow> listed m addr len off e"

inductive_simps listed_iff: "listed m addr len off e"

text \<open>The pages an entry offers: those that lie completely inside an available region.\<close>

definition offers :: "multiboot_mmap \<Rightarrow> nat set" where
  "offers e = (if mtype e = MultibootMemoryAvailable \<and> \<not> base_addr e + mlength e < base_addr e
     then inner_pages (unat (base_addr e)) (unat (mlength e)) else {})"

definition offered :: "bytes \<Rightarrow> u32 \<Rightarrow> u32 \<Rightarrow> u32 \<Rightarrow> nat set" where
  "offered m addr len off = {p. \<exists>e. listed m addr len off e \<and> p \<in> offers e}"

lemma offered_step:
  "offered m addr len off =
    (let e = mmap_entry m (addr + off) in
     if off + 4 \<le> len \<and> 20 \<le> msize e \<and> msize e \<le> len - off - 4
     then offers e \<union> offered m addr len (off + (4 + msize e)) else {})"
proof -
  let ?e = "mmap_entry m (addr + off)"
  have "listed m addr len off e \<longleftrightarrow> (off + 4 \<le> len \<and> 20 \<le> msize ?e \<and> msize ?e \<le> len - off - 4) \<and>
      (e = ?e \<or> listed m addr len (off + (4 + msize ?e)) e)" for e
    by (subst listed_iff) auto
  then show ?thesis by (auto simp: offered_def Let_def)
qed

lemma mmap_step:
  fixes off len sz :: u32
  assumes "unat off \<le> unat len" and "unat len \<le> 0xFFFFFFFB" and "off + 4 \<le> len" and "sz \<le> len - off - 4"
  shows "unat (off + (4 + sz)) = unat off + (4 + unat sz)" and "unat off + (4 + unat sz) \<le> unat len"
proof -
  have o: "unat (off + 4) = unat off + 4" using assms(1,2) by (simp add: unat_plus_if_size word_size)
  then have le: "unat off + 4 \<le> unat len" using assms(3) by (simp add: word_le_nat_alt)
  have "unat (len - (off + 4)) = unat len - (unat off + 4)" using assms(3) o by (simp add: unat_sub)
  then have sz: "unat sz \<le> unat len - (unat off + 4)"
    using assms(4) by (simp add: word_le_nat_alt diff_diff_add)
  then show le2: "unat off + (4 + unat sz) \<le> unat len" using le by simp
  have "unat (4 + sz) = 4 + unat sz" using le2 assms(2) by (simp add: unat_plus_if_size word_size)
  then show "unat (off + (4 + sz)) = unat off + (4 + unat sz)"
    using le2 assms(2) by (simp add: unat_plus_if_size [of off] word_size)
qed

lemma entry_law:
  "\<exists>ps1. (if mtype e = MultibootMemoryAvailable
     then PageSetRange (base_addr e) (mlength e) PageStateAvailable ps else Some ps) = Some ps1 \<and>
   (pages_ok ps \<longrightarrow> pages_ok ps1) \<and> avail ps1 = avail ps \<union> offers e"
  using PageSetRange_law [of "base_addr e" "mlength e" PageStateAvailable ps]
  by (cases "base_addr e + mlength e < base_addr e"; cases "mtype e = MultibootMemoryAvailable")
    (simp_all add: offers_def)

text \<open>The parser returns, for every map that ends at least four bytes below \<open>2 ^ 32\<close>, and offers what is listed.\<close>

lemma mmap_loop_law:
  assumes "unat off \<le> unat len" and "unat len \<le> 0xFFFFFFFB"
  shows "\<exists>ps'. mmap_loop m addr len off ps = Some ps' \<and> (pages_ok ps \<longrightarrow> pages_ok ps') \<and>
    avail ps' = avail ps \<union> offered m addr len off"
  using assms(1)
proof (induction "unat len - unat off" arbitrary: off ps rule: less_induct)
  case less
  let ?e = "mmap_entry m (addr + off)"
  show ?case
  proof (cases "off + 4 \<le> len \<and> 20 \<le> msize ?e \<and> msize ?e \<le> len - off - 4")
    case False
    then show ?thesis
      by (subst mmap_loop.simps, subst offered_step) (auto simp: Let_def not_le not_less)
  next
    case True
    let ?off = "off + (4 + msize ?e)"
    obtain ps1 where ps1: "(if mtype ?e = MultibootMemoryAvailable
        then PageSetRange (base_addr ?e) (mlength ?e) PageStateAvailable ps else Some ps) = Some ps1"
      "pages_ok ps \<longrightarrow> pages_ok ps1" "avail ps1 = avail ps \<union> offers ?e"
      using entry_law [of ?e ps] by blast
    note st = mmap_step [OF less.prems assms(2), of "msize ?e"]
    have "\<exists>ps'. mmap_loop m addr len ?off ps1 = Some ps' \<and> (pages_ok ps1 \<longrightarrow> pages_ok ps') \<and>
        avail ps' = avail ps1 \<union> offered m addr len ?off"
      using st True by (intro less.hyps) auto
    moreover have "mmap_loop m addr len off ps = mmap_loop m addr len ?off ps1"
      using True ps1(1) by (subst mmap_loop.simps) (auto simp: Let_def not_less)
    moreover have "offered m addr len off = offers ?e \<union> offered m addr len ?off"
      using True by (subst offered_step) (simp add: Let_def)
    ultimately show ?thesis using ps1(2,3) by auto
  qed
qed

lemma bitmap_clear: "avail (ps\<lparr>PageBitmap := (\<lambda>i. if i < BITMAP_WORDS then 0 else B i), FreePages := 0\<rparr>) = {}"
  by (auto simp: avail_def page_is_free_def BITMAP_WORDS_def PAGE_COUNT_def)

lemma low_megabyte: "touched_pages 0 0x100000 = {..<256}"
  by (auto simp: touched_pages_def PAGE_COUNT_def)

lemma PageAllocInit_law:
  assumes "memory_map_addr b \<noteq> 0" and "memory_map_length b \<noteq> 0" and "unat (memory_map_length b) \<le> 0xFFFFFFFB"
    and "kernel_start \<le> kernel_end"
  shows "\<exists>ps'. PageAllocInit m kernel_start kernel_end (Some b) ps = Some ps' \<and> pages_ok ps' \<and>
    avail ps' = offered m (memory_map_addr b) (memory_map_length b) 0 - {..<256} -
      touched_pages (unat kernel_start) (unat kernel_end - unat kernel_start)"
proof -
  let ?z = "ps\<lparr>PageBitmap := (\<lambda>i. if i < BITMAP_WORDS then 0 else PageBitmap ps i), FreePages := 0\<rparr>"
  have z: "pages_ok ?z" unfolding pages_ok_def bitmap_clear by simp
  obtain p1 where p1: "mmap_loop m (memory_map_addr b) (memory_map_length b) 0 ?z = Some p1"
      "pages_ok p1" "avail p1 = offered m (memory_map_addr b) (memory_map_length b) 0"
    using mmap_loop_law [of 0 "memory_map_length b" m "memory_map_addr b" ?z] assms(3) z
    unfolding bitmap_clear by auto
  obtain p2 where p2: "PageSetRange 0 0x100000 PageStateUsed p1 = Some p2" "pages_ok p2" "avail p2 = avail p1 - {..<256}"
    using PageSetRange_law [of 0 "0x100000" PageStateUsed p1] p1(2) by (auto simp: low_megabyte)
  have u: "unat (ucast kernel_start :: u64) = unat kernel_start"
      "unat (ucast (kernel_end - kernel_start) :: u64) = unat kernel_end - unat kernel_start"
    using assms(4) by (simp_all add: unat_ucast_u64 unat_sub)
  have "\<not> (ucast kernel_start :: u64) + ucast (kernel_end - kernel_start) < ucast kernel_start"
    using u32_less [of kernel_end] assms(4)
    by (simp add: word_less_nat_alt unat_plus_if_size word_size u word_le_nat_alt)
  then obtain p3 where "PageSetRange (ucast kernel_start) (ucast (kernel_end - kernel_start)) PageStateUsed p2 = Some p3"
      "pages_ok p3" "avail p3 = avail p2 - touched_pages (unat kernel_start) (unat kernel_end - unat kernel_start)"
    using PageSetRange_law [of "ucast kernel_start" "ucast (kernel_end - kernel_start)" PageStateUsed p2] p2(2) u by auto
  with p1 p2 assms(1,2) show ?thesis by (simp add: PageAllocInit_def)
qed

end
