(* ===== verification/Page_Props.thy ===== *)
theory Page_Props
  imports Page_Laws
begin

text \<open>
  The properties of the page allocator, over the laws of theory \<open>Page_Laws\<close>. Witnesses use the
  memory map \<open>demo_map\<close>, which lists one available region of one megabyte at \<open>0x100000\<close>, and a
  kernel that occupies \<open>0x100000\<close> to \<open>0x104321\<close>.
\<close>

subsection \<open>Sequences of calls\<close>

datatype page_call =
    CallAlloc | CallAllocPages u32 | CallAllocPagesAt u32 u32 | CallFree u32 | CallFreePages u32 u32

fun page_step :: "page_call \<Rightarrow> pages \<Rightarrow> pages" where
  "page_step CallAlloc ps = snd (PageAlloc ps)"
| "page_step (CallAllocPages n) ps = snd (PageAllocPages n ps)"
| "page_step (CallAllocPagesAt h n) ps = snd (PageAllocPagesAt h n ps)"
| "page_step (CallFree a) ps = PageFree a ps"
| "page_step (CallFreePages a n) ps = PageFreePages a n ps"

lemma PageSet_page_inv:
  assumes "page_inv ps" and "p < PAGE_COUNT" and "st = PageStateAvailable \<Longrightarrow> 0 < p"
  shows "page_inv (PageSet p st ps)"
  using assms by (auto simp: page_inv_def PageSet_ok avail_PageSet)

lemma page_step_inv:
  assumes "page_inv ps"
  shows "page_inv (page_step c ps)"
proof (cases c)
  case CallAlloc
  have "page_inv (PageSet (Min (avail ps)) PageStateUsed ps)" if "avail ps \<noteq> {}"
    by (rule PageSet_page_inv [OF assms avail_Min(2) [OF avail_Min(1) [OF that]]]) simp
  with CallAlloc assms show ?thesis by (simp add: PageAlloc_law)
next
  case (CallFree a)
  then show ?thesis
    using page_pos [of a] assms CallFree page_addr_eq(3) [of a] by (auto simp: PageFree_law intro!: PageSet_page_inv)
next
  case (CallFreePages a n)
  then show ?thesis
    using page_pos [of a] assms CallFreePages by (auto simp: PageFreePages_law intro!: run_page_inv)
qed (use assms pg.alloc_law [OF assms] in \<open>auto simp: PageAllocPages_At prod_eq_iff\<close>)

lemma page_steps_inv: "page_inv ps \<Longrightarrow> page_inv (fold page_step cs ps)"
  by (induction cs arbitrary: ps) (simp_all add: page_step_inv)

definition boot_ok :: "boot_info option \<Rightarrow> bool" where
  "boot_ok boot = (case boot of None \<Rightarrow> True | Some b \<Rightarrow> memory_map_length b \<le> 0xFFFFFFFB)"

lemma PageAllocInit_inv:
  assumes "boot_ok boot" and "kernel_start \<le> kernel_end"
  shows "\<exists>ps'. PageAllocInit m kernel_start kernel_end boot ps = Some ps' \<and> page_inv ps'"
proof (cases "\<exists>b. boot = Some b \<and> memory_map_addr b \<noteq> 0 \<and> memory_map_length b \<noteq> 0")
  case True
  then obtain b where b: "boot = Some b" "memory_map_addr b \<noteq> 0" "memory_map_length b \<noteq> 0" by auto
  have "unat (memory_map_length b) \<le> 0xFFFFFFFB" using assms(1) b(1) by (simp add: boot_ok_def word_le_nat_alt)
  from PageAllocInit_law [OF b(2,3) this assms(2), of m ps] show ?thesis by (auto simp: b(1) page_inv_def)
next
  case False
  then show ?thesis
    by (cases boot) (auto simp: PageAllocInit_def page_inv_def pages_ok_def bitmap_clear)
qed

subsection \<open>A concrete memory map\<close>

definition demo_map :: bytes where
  "demo_map = (\<lambda>a. if a = 0x9000 then 20 else if a = 0x9006 then 0x10 else if a = 0x900E then 0x10
     else if a = 0x9014 then 1 else 0)"

definition demo_boot :: boot_info where
  "demo_boot = \<lparr>multiboot_magic = 0x2BADB002, multiboot_info_addr = 0x8000, memory_map_addr = 0x9000, memory_map_length = 24\<rparr>"

definition no_pages :: pages where
  "no_pages = \<lparr>PageBitmap = (\<lambda>_. 0), FreePages = 0\<rparr>"

lemma demo_entry: "mmap_entry demo_map 0x9000 = \<lparr>msize = 20, base_addr = 0x100000, mlength = 0x100000, mtype = 1\<rparr>"
  by (simp add: mmap_entry_def load32_def load64_def demo_map_def)

lemma demo_offered: "offered demo_map 0x9000 24 0 = {256..<512}"
proof -
  have "offered demo_map 0x9000 24 24 = {}" by (subst offered_step) (simp add: Let_def)
  moreover have "inner_pages 0x100000 0x100000 = {256..<512}" by (auto simp: inner_pages_def PAGE_COUNT_def)
  ultimately show ?thesis
    by (subst offered_step) (simp add: Let_def demo_entry offers_def MultibootMemoryAvailable_def)
qed

lemma demo_kernel: "touched_pages 0x100000 0x4321 = {256..<261}"
  by (auto simp: touched_pages_def PAGE_COUNT_def)

text \<open>A small state of the allocator: pages 257, 259, 260 and 261 are free.\<close>

definition demo_pages :: pages where
  "demo_pages = set_run 259 3 PageStateAvailable (PageSet 257 PageStateAvailable no_pages)"

lemma demo_avail: "avail demo_pages = {257, 259, 260, 261}"
proof -
  have "avail no_pages = {}" by (simp add: avail_def page_is_free_def no_pages_def)
  then show ?thesis
    by (auto simp: demo_pages_def set_run_law(1) avail_PageSet PAGE_COUNT_def)
qed

lemma demo_pages_inv: "page_inv demo_pages"
proof -
  have "pages_ok no_pages" by (simp add: pages_ok_def avail_def page_is_free_def no_pages_def)
  then have "pages_ok demo_pages"
    by (simp add: demo_pages_def set_run_law(2) PageSet_ok PAGE_COUNT_def)
  then show ?thesis by (simp add: page_inv_def demo_avail)
qed

lemma demo_pages_count: "PageAllocFreeCount demo_pages = 4"
proof -
  have "unat (FreePages demo_pages) = unat (4 :: u32)"
    using demo_pages_inv by (simp add: page_inv_def pages_ok_def demo_avail)
  then show ?thesis unfolding PageAllocFreeCount_def by (rule unsigned_word_eqI)
qed

subsection \<open>Properties\<close>

text \<open>
  C18: Initialising the page allocator from a memory map returns and makes available exactly
  the pages that lie completely inside an available region of the map, except the first
  megabyte and every page that the kernel image touches; the free count is the number of
  these pages.
\<close>
theorem PageAllocInit_exact:
  assumes "memory_map_addr b \<noteq> 0" and "memory_map_length b \<noteq> 0" and "memory_map_length b \<le> 0xFFFFFFFB"
    and "kernel_start \<le> kernel_end"
  shows "\<exists>ps'. PageAllocInit m kernel_start kernel_end (Some b) ps = Some ps' \<and>
    avail ps' = offered m (memory_map_addr b) (memory_map_length b) 0 - {..<256} -
      touched_pages (unat kernel_start) (unat kernel_end - unat kernel_start) \<and>
    unat (PageAllocFreeCount ps') = card (avail ps')"
proof -
  have "unat (memory_map_length b) \<le> 0xFFFFFFFB" using assms(3) by (simp add: word_le_nat_alt)
  from PageAllocInit_law [OF assms(1,2) this assms(4), of m ps]
  show ?thesis by (auto simp: pages_ok_def PageAllocFreeCount_def)
qed

theorem PageAllocInit_exact_witness:
  "\<exists>ps'. PageAllocInit demo_map 0x100000 0x104321 (Some demo_boot) no_pages = Some ps' \<and>
     avail ps' = {261..<512} \<and> PageAllocFreeCount ps' = 251"
proof -
  obtain ps' where ps': "PageAllocInit demo_map 0x100000 0x104321 (Some demo_boot) no_pages = Some ps'"
      "avail ps' = {256..<512} - {..<256} - {256..<261}" "unat (PageAllocFreeCount ps') = card (avail ps')"
    using PageAllocInit_exact [of demo_boot "0x100000" "0x104321" demo_map no_pages]
    by (auto simp: demo_boot_def demo_offered demo_kernel)
  have "avail ps' = {261..<512}" unfolding ps'(2) by auto
  moreover from this have "unat (PageAllocFreeCount ps') = unat (251 :: u32)" using ps'(3) by simp
  then have "PageAllocFreeCount ps' = 251" by (rule unsigned_word_eqI)
  ultimately show ?thesis using ps'(1) by blast
qed

text \<open>
  C19: After initialisation, whatever sequence of allocations and releases is made (releases of
  pages that were never allocated, of unaligned or of out-of-range addresses included), the
  free count is the number of free pages and page 0 is never free, so that the address 0
  always means that an allocation failed.
\<close>
theorem page_count_invariant:
  assumes "boot_ok boot" and "kernel_start \<le> kernel_end"
  shows "\<exists>ps0. PageAllocInit m kernel_start kernel_end boot ps = Some ps0 \<and>
    (\<forall>cs. let ps' = fold page_step cs ps0 in
       unat (PageAllocFreeCount ps') = card (avail ps') \<and> 0 \<notin> avail ps')"
proof -
  obtain ps0 where "PageAllocInit m kernel_start kernel_end boot ps = Some ps0" and inv: "page_inv ps0"
    using PageAllocInit_inv [OF assms, of m ps] by blast
  moreover have "page_inv (fold page_step cs ps0)" for cs by (rule page_steps_inv [OF inv])
  ultimately show ?thesis by (auto simp: page_inv_def pages_ok_def PageAllocFreeCount_def Let_def)
qed

theorem page_count_invariant_witness:
  "boot_ok (Some demo_boot) \<and>
   (\<exists>ps0. PageAllocInit demo_map 0x100000 0x104321 (Some demo_boot) no_pages = Some ps0 \<and>
    (\<forall>cs. let ps' = fold page_step cs ps0 in
       unat (PageAllocFreeCount ps') = card (avail ps') \<and> 0 \<notin> avail ps'))"
proof -
  have b: "boot_ok (Some demo_boot)" by (simp add: boot_ok_def demo_boot_def)
  then show ?thesis using page_count_invariant [OF b, of "0x100000" "0x104321" demo_map no_pages] by simp
qed

text \<open>
  \<^verbatim>\<open>PageAlloc\<close> fails, without a change, exactly when no page is free; otherwise it returns
  the address of the lowest free page and takes that page and no other.
\<close>
theorem PageAlloc_lowest:
  assumes "page_inv ps"
  shows "if avail ps = {} then PageAlloc ps = (0, ps)
    else \<exists>a ps'. PageAlloc ps = (a, ps') \<and> a \<noteq> 0 \<and> unat a = 4096 * Min (avail ps) \<and>
      avail ps' = avail ps - {Min (avail ps)} \<and> PageAllocFreeCount ps' = PageAllocFreeCount ps - 1"
proof (cases "avail ps = {}")
  case False
  define p where "p = Min (avail ps)"
  have p: "p \<in> avail ps" unfolding p_def by (rule avail_Min(1) [OF False])
  have lt: "p < PAGE_COUNT" by (rule avail_Min(2) [OF p])
  have "p \<noteq> 0" "page_is_free ps p" using p assms by (auto simp: page_inv_def avail_def intro: ccontr)
  moreover have "unat (of_nat p * PAGE_SIZE) = 4096 * p" using page_addr [OF lt] by simp
  moreover from calculation have "of_nat p * PAGE_SIZE \<noteq> 0" by (metis mult_eq_0_iff unat_0 zero_neq_numeral)
  ultimately show ?thesis
    using False by (simp add: PageAlloc_law p_def [symmetric] avail_PageSet [OF lt] PageSet_count PageAllocFreeCount_def)
qed (simp add: PageAlloc_law)

theorem PageAlloc_lowest_witness:
  "page_inv demo_pages \<and> avail demo_pages = {257, 259, 260, 261} \<and>
   (\<exists>a ps'. PageAlloc demo_pages = (a, ps') \<and> unat a = 4096 * 257 \<and> avail ps' = {259, 260, 261})"
  using PageAlloc_lowest [OF demo_pages_inv] demo_pages_inv by (auto simp: demo_avail)

text \<open>
  C20: The search for a run of pages, with its skip over the first used page and its test of the
  free count, is equivalent to the plain definition: \<^verbatim>\<open>PageAllocPagesAt\<close> returns the lowest
  address, at or after the hint, at which that many free pages lie next to each other, takes
  them, and fails without a change exactly when there is no such run.
\<close>
theorem PageAllocPagesAt_lowest_run:
  assumes "page_inv ps" and "n \<noteq> 0"
  shows "let R = {s. unat hint div 4096 \<le> s \<and> s + unat n \<le> PAGE_COUNT \<and> {s..<s + unat n} \<subseteq> avail ps} in
    if R = {} then PageAllocPagesAt hint n ps = (0, ps)
    else \<exists>a ps'. PageAllocPagesAt hint n ps = (a, ps') \<and> a \<noteq> 0 \<and> unat a = 4096 * Min R \<and>
      avail ps' = avail ps - {Min R..<Min R + unat n}"
proof -
  define R where "R = free_runs ps (unat hint div 4096) (unat n)"
  have h: "unat (hint div PAGE_SIZE) = unat hint div 4096" by (simp add: unat_div PAGE_SIZE_def)
  have "pages_ok ps" using assms(1) by (simp add: page_inv_def)
  note law = PageAllocPagesAt_law [OF this assms(2), of hint, unfolded h R_def [symmetric]]
  have "\<exists>a ps'. PageAllocPagesAt hint n ps = (a, ps') \<and> a \<noteq> 0 \<and> unat a = 4096 * Min R \<and>
      avail ps' = avail ps - {Min R..<Min R + unat n}" if "R \<noteq> {}"
  proof -
    have m: "Min R + unat n \<le> PAGE_COUNT" "{Min R..<Min R + unat n} \<subseteq> avail ps" "0 < unat n"
      using that free_runs_Min [of ps "unat hint div 4096" "unat n"] assms(2)
      by (auto simp: R_def free_runs_def unat_gt_0)
    then have "Min R \<in> avail ps" and lt: "Min R < PAGE_COUNT" by auto
    then have "Min R \<noteq> 0" using assms(1) by (auto simp: page_inv_def intro: ccontr)
    moreover have u: "unat (of_nat (Min R) * PAGE_SIZE) = 4096 * Min R" using page_addr [OF lt] by simp
    ultimately have "of_nat (Min R) * PAGE_SIZE \<noteq> 0" by (metis mult_eq_0_iff unat_0 zero_neq_numeral)
    then show ?thesis using law that u set_run_law(1) [OF m(1), of PageStateUsed ps] by simp
  qed
  moreover have "R = {s. unat hint div 4096 \<le> s \<and> s + unat n \<le> PAGE_COUNT \<and> {s..<s + unat n} \<subseteq> avail ps}"
    by (simp add: R_def free_runs_def)
  ultimately show ?thesis using law by (simp add: Let_def)
qed

theorem PageAllocPagesAt_lowest_run_witness:
  "\<exists>a ps'. PageAllocPagesAt 0x101000 2 demo_pages = (a, ps') \<and> unat a = 4096 * 259 \<and> avail ps' = {257, 261}"
proof -
  let ?R = "{s. 257 \<le> s \<and> s + 2 \<le> PAGE_COUNT \<and> {s..<s + 2} \<subseteq> {257, 259, 260, 261 :: nat}}"
  have up: "{s..<s + 2} = {s, Suc s}" for s :: nat by auto
  have R: "?R = {259, 260}" unfolding up by (auto simp: PAGE_COUNT_def)
  show ?thesis
    using PageAllocPagesAt_lowest_run [OF demo_pages_inv, of 2 "0x101000"]
    by (simp add: demo_avail Let_def R [simplified]) (auto simp: up)
qed

text \<open>
  Releasing a run of pages undoes its allocation: the set of free pages and the free count
  are what they were before.
\<close>
theorem page_alloc_free_roundtrip:
  assumes "page_inv ps" and "PageAllocPagesAt hint n ps = (a, ps')" and "a \<noteq> 0"
  shows "avail (PageFreePages a n ps') = avail ps \<and>
    PageAllocFreeCount (PageFreePages a n ps') = PageAllocFreeCount ps"
proof -
  have *: "page_inv (PageFreePages a n ps')" "avail (PageFreePages a n ps') = avail ps"
    using pg.alloc_release [OF assms] by simp_all
  then have "unat (FreePages (PageFreePages a n ps')) = unat (FreePages ps)"
    using assms(1) by (simp add: page_inv_def pages_ok_def)
  with *(2) show ?thesis by (auto simp: PageAllocFreeCount_def intro: unsigned_word_eqI)
qed

theorem page_alloc_free_roundtrip_witness:
  "\<exists>a ps'. PageAllocPagesAt 0 1 demo_pages = (a, ps') \<and> a \<noteq> 0 \<and>
     avail (PageFreePages a 1 ps') = {257, 259, 260, 261} \<and> PageAllocFreeCount (PageFreePages a 1 ps') = 4"
proof -
  obtain a ps' where r: "PageAllocPagesAt 0 1 demo_pages = (a, ps')" by (cases "PageAllocPagesAt 0 1 demo_pages") auto
  have "257 \<in> free_runs demo_pages 0 1" by (auto simp: free_runs_def demo_avail PAGE_COUNT_def)
  then have ne: "free_runs demo_pages 0 1 \<noteq> {}" by blast
  define s where "s = Min (free_runs demo_pages 0 1)"
  have "s \<in> free_runs demo_pages 0 1" using ne by (simp add: s_def)
  then have "s \<in> {257, 259, 260, 261}" by (auto simp: free_runs_def demo_avail)
  then have "of_nat s * PAGE_SIZE \<noteq> 0" by (auto simp: PAGE_SIZE_def)
  then have "a \<noteq> 0"
    using r PageAllocPagesAt_law [of demo_pages 1 0] demo_pages_inv ne by (auto simp: page_inv_def s_def)
  with page_alloc_free_roundtrip [OF demo_pages_inv r] r show ?thesis
    by (auto simp: demo_avail demo_pages_count)
qed

end
