(* ===== verification/Ipc_Wait.thy ===== *)
theory Ipc_Wait
  imports Sched_Machine
begin

text \<open>
  The wait queue of \<^verbatim>\<open>src/ipc/ipc.c\<close>: an array of task identifiers with a count. The
  \<^verbatim>\<open>for\<close> loops over the entries are searches over the index range, except the loop that
  drops stale entries, which is a recursion with its 32-bit index (the decrement at index 0
  wraps and the loop's increment wraps it back).

  The abstraction \<open>waiters\<close> is the set of the identifiers in use. The lemmas: the invariant
  \<open>wait_ok\<close> (bounded count, no zero and no duplicate entry) is kept by every operation; add
  and remove act on \<open>waiters\<close> as set insertion and deletion; taking a live entry returns a
  live waiter whenever there is one and removes only it, and otherwise empties the queue.
\<close>

definition IpcMaxWaiters :: nat where
  "IpcMaxWaiters = 16"

record IpcWait =
  Ids :: "u32 list"
  WCount :: u32

datatype IpcStatus = IpcOk | IpcErrInvalid | IpcErrFull | IpcErrEmpty | IpcErrBusy | IpcErrOwner | IpcErrNoTask

subsection \<open>Operations\<close>

definition IpcSelfId :: "'a sched_core_scheme \<Rightarrow> u32" where
  "IpcSelfId s = (case SchedCurrent s of None \<Rightarrow> 0 | Some c \<Rightarrow> TaskId (task s c))"

text \<open>The index the search loops stop at: the first entry in use that satisfies the test.\<close>

definition wait_index :: "(u32 \<Rightarrow> bool) \<Rightarrow> IpcWait \<Rightarrow> nat option" where
  "wait_index P w = find (\<lambda>k. P (Ids w ! k)) [0..<unat (WCount w)]"

definition IpcWaitAdd :: "u32 \<Rightarrow> IpcWait \<Rightarrow> bool \<times> IpcWait" where
  "IpcWaitAdd ident w =
     (if WCount w \<ge> of_nat IpcMaxWaiters then (False, w)
      else
        (case wait_index (\<lambda>x. x = ident) w of
           Some _ \<Rightarrow> (True, w)
         | None \<Rightarrow> (True, w\<lparr>Ids := (Ids w)[unat (WCount w) := ident], WCount := WCount w + 1\<rparr>)))"

definition IpcWaitRemove :: "u32 \<Rightarrow> IpcWait \<Rightarrow> IpcWait" where
  "IpcWaitRemove ident w =
     (case wait_index (\<lambda>x. x = ident) w of
        None \<Rightarrow> w
      | Some k \<Rightarrow>
          (let last = unat (WCount w - 1)
           in w\<lparr>Ids := (Ids w)[k := Ids w ! last, last := 0], WCount := WCount w - 1\<rparr>))"

definition IpcWaitIsLive :: "'a sched_core_scheme \<Rightarrow> u32 \<Rightarrow> bool" where
  "IpcWaitIsLive s ident \<longleftrightarrow> ident \<noteq> 0 \<and> SchedFind ident s \<noteq> None"

lemma wait_index_Some:
  "wait_index P w = Some k \<Longrightarrow> k < unat (WCount w) \<and> P (Ids w ! k)"
  by (auto simp: wait_index_def find_Some_iff)

lemma wait_index_None:
  "wait_index P w = None \<longleftrightarrow> (\<forall>k < unat (WCount w). \<not> P (Ids w ! k))"
  by (auto simp: wait_index_def find_None_iff)

lemma IpcWaitRemove_count:
  assumes "k < unat (WCount w)"
  shows "unat (WCount (IpcWaitRemove (Ids w ! k) w)) = unat (WCount w) - 1"
proof -
  have "wait_index (\<lambda>x. x = Ids w ! k) w \<noteq> None" using assms by (auto simp: wait_index_None)
  moreover have "unat (WCount w - 1) = unat (WCount w) - 1" using assms by (intro unat_minus_one') auto
  ultimately show ?thesis by (auto simp: IpcWaitRemove_def Let_def)
qed

text \<open>Emptying a wait queue, as the initialisation of ports, semaphores and mutexes does.\<close>

definition wait_reset :: "IpcWait \<Rightarrow> IpcWait" where
  "wait_reset w = w\<lparr>Ids := map (\<lambda>_. 0) (Ids w), WCount := 0\<rparr>"

text \<open>The second loop of \<^verbatim>\<open>IpcWaitTakeLive\<close>.\<close>

function drop_stale :: "'a sched_core_scheme \<Rightarrow> u32 \<Rightarrow> IpcWait \<Rightarrow> IpcWait" where
  "drop_stale s index w =
     (if index < WCount w then
        (let ident = Ids w ! unat index in
         if ident \<noteq> 0 \<and> \<not> IpcWaitIsLive s ident
         then drop_stale s ((index - 1) + 1) (IpcWaitRemove ident w)
         else drop_stale s (index + 1) w)
      else w)"
  by pat_completeness auto
termination
proof (relation "measure (\<lambda>(s, index, w). unat (WCount w) - unat index)")
  fix s :: "'a sched_core_scheme" and w :: IpcWait and index x :: u32
  assume *: "index < WCount w" "x = Ids w ! unat index"
  then have lt: "unat index < unat (WCount w)" by (simp add: word_less_nat_alt)
  show "((s, (index - 1) + 1, IpcWaitRemove x w), (s, index, w))
      \<in> measure (\<lambda>(s, index, w). unat (WCount w) - unat index)"
    using lt * IpcWaitRemove_count [OF lt] by simp
  have "unat (index + 1) = Suc (unat index)"
    using lt u32_less [of "WCount w"] by (simp add: unat_succ_bound)
  then show "((s, index + 1, w), (s, index, w)) \<in> measure (\<lambda>(s, index, w). unat (WCount w) - unat index)"
    using lt by simp
qed simp

declare drop_stale.simps [simp del]

definition IpcWaitTakeLive :: "'a sched_core_scheme \<Rightarrow> IpcWait \<Rightarrow> u32 \<times> IpcWait" where
  "IpcWaitTakeLive s w =
     (case wait_index (\<lambda>x. x \<noteq> 0 \<and> IpcWaitIsLive s x) w of
        Some k \<Rightarrow> (Ids w ! k, IpcWaitRemove (Ids w ! k) w)
      | None \<Rightarrow> (0, drop_stale s 0 w))"

definition IpcWakeOne :: "IpcWait \<Rightarrow> sched \<Rightarrow> (IpcWait \<times> sched) option" where
  "IpcWakeOne w s =
     (let (was_enabled, s) = SchedLockIrq s;
          (ident, w) = IpcWaitTakeLive s w;
          s = SchedUnlockIrq was_enabled s
      in if ident \<noteq> 0 then do { s \<leftarrow> SchedWakeTask ident s; Some (w, s) } else Some (w, s))"

subsection \<open>Invariant and abstraction\<close>

definition entries :: "IpcWait \<Rightarrow> u32 list" where
  "entries w = take (unat (WCount w)) (Ids w)"

abbreviation waiters :: "IpcWait \<Rightarrow> u32 set" where
  "waiters w \<equiv> set (entries w)"

definition wait_ok :: "IpcWait \<Rightarrow> bool" where
  "wait_ok w \<longleftrightarrow> length (Ids w) = IpcMaxWaiters \<and> unat (WCount w) \<le> IpcMaxWaiters \<and>
     distinct (entries w) \<and> 0 \<notin> waiters w"

lemma wait_okD:
  assumes "wait_ok w"
  shows "length (Ids w) = 16" "unat (WCount w) \<le> 16" "distinct (entries w)" "0 \<notin> waiters w"
    "length (entries w) = unat (WCount w)"
  using assms by (simp_all add: wait_ok_def IpcMaxWaiters_def entries_def)

lemma entries_nth: "k < unat (WCount w) \<Longrightarrow> wait_ok w \<Longrightarrow> entries w ! k = Ids w ! k"
  by (simp add: entries_def)

lemma wait_index_entries:
  "wait_ok w \<Longrightarrow> wait_index P w = None \<longleftrightarrow> (\<forall>x \<in> waiters w. \<not> P x)"
  by (force simp: wait_index_None in_set_conv_nth wait_okD(5) entries_nth)

lemma wait_index_in: "wait_index P w = Some k \<Longrightarrow> wait_ok w \<Longrightarrow> Ids w ! k \<in> waiters w"
  by (metis entries_nth nth_mem wait_index_Some wait_okD(5))

lemma IpcWaitAdd_cases:
  assumes "wait_ok w" and "ident \<noteq> 0"
  obtains (full) "unat (WCount w) = 16" "IpcWaitAdd ident w = (False, w)"
  | (present) "ident \<in> waiters w" "unat (WCount w) < 16" "IpcWaitAdd ident w = (True, w)"
  | (new) w' where "ident \<notin> waiters w" "unat (WCount w) < 16" "IpcWaitAdd ident w = (True, w')"
      "entries w' = entries w @ [ident]" "wait_ok w'"
proof (cases "WCount w \<ge> of_nat IpcMaxWaiters")
  case True
  then have "unat (WCount w) = 16"
    using wait_okD(2) [OF assms(1)] by (simp add: word_le_nat_alt IpcMaxWaiters_def)
  with True show thesis by (intro full) (simp_all add: IpcWaitAdd_def)
next
  case False
  then have lt: "unat (WCount w) < 16" by (simp add: word_le_nat_alt IpcMaxWaiters_def)
  show thesis
  proof (cases "ident \<in> waiters w")
    case True
    then have "wait_index (\<lambda>x. x = ident) w \<noteq> None" using assms(1) by (auto simp: wait_index_entries)
    with False lt True show thesis by (intro present) (auto simp: IpcWaitAdd_def)
  next
    case n: False
    let ?w = "w\<lparr>Ids := (Ids w)[unat (WCount w) := ident], WCount := WCount w + 1\<rparr>"
    have "wait_index (\<lambda>x. x = ident) w = None" using n assms(1) by (auto simp: wait_index_entries)
    with False have eq: "IpcWaitAdd ident w = (True, ?w)" by (simp add: IpcWaitAdd_def)
    have e: "entries ?w = entries w @ [ident]"
      using lt wait_okD(1) [OF assms(1)] by (simp add: entries_def unat_succ_bound take_Suc_conv_app_nth)
    moreover have "wait_ok ?w"
      using e n assms lt wait_okD [OF assms(1)]
      by (simp add: wait_ok_def unat_succ_bound IpcMaxWaiters_def)
    ultimately show thesis using n lt eq by (intro new)
  qed
qed

lemma IpcWaitRemove_law:
  assumes "wait_ok w"
  shows "waiters (IpcWaitRemove ident w) = waiters w - {ident}" and "wait_ok (IpcWaitRemove ident w)"
proof -
  note ok = wait_okD [OF assms]
  have "waiters (IpcWaitRemove ident w) = waiters w - {ident} \<and> wait_ok (IpcWaitRemove ident w)"
  proof (cases "wait_index (\<lambda>x. x = ident) w")
    case None
    then have "ident \<notin> waiters w" using assms by (auto simp: wait_index_entries)
    with None assms show ?thesis by (simp add: IpcWaitRemove_def)
  next
    case (Some k)
    then have k: "k < unat (WCount w)" "Ids w ! k = ident" using wait_index_Some by auto
    then have c: "unat (WCount w - 1) = unat (WCount w) - 1" by (intro unat_minus_one') auto
    define w' where "w' = IpcWaitRemove ident w"
    have w': "w' = w\<lparr>Ids := (Ids w)[k := Ids w ! (unat (WCount w) - 1), unat (WCount w) - 1 := 0],
        WCount := WCount w - 1\<rparr>"
      using Some by (simp add: w'_def IpcWaitRemove_def Let_def c)
    have "last (entries w) = Ids w ! (unat (WCount w) - 1)"
      using k(1) ok(1,2,5) by (subst last_conv_nth) (auto simp: entries_def)
    then have e: "entries w' = butlast ((entries w)[k := last (entries w)])"
      using k(1) ok(1,2) by (simp add: w' entries_def c butlast_conv_take min_def take_update_swap list_update_beyond)
    have ke: "k < length (entries w)" "entries w ! k = ident" using k ok(5) entries_nth [OF k(1) assms] by simp_all
    note sd = swap_delete [OF ok(3) ke(1)]
    have s: "waiters w' = waiters w - {ident}" using sd(1) ke(2) by (simp add: e)
    have "length (Ids w') = 16" "unat (WCount w') \<le> 16" using ok(1,2) by (simp_all add: w' c)
    moreover have "distinct (entries w')" "0 \<notin> waiters w'" using sd(2) s ok(4) e by auto
    ultimately have "wait_ok w'" by (simp add: wait_ok_def IpcMaxWaiters_def)
    with s show ?thesis by (simp add: w'_def)
  qed
  then show "waiters (IpcWaitRemove ident w) = waiters w - {ident}" and "wait_ok (IpcWaitRemove ident w)"
    by simp_all
qed

lemma drop_stale_law:
  assumes "wait_ok w" and "\<forall>x \<in> waiters w. \<not> IpcWaitIsLive s x"
  shows "wait_ok (drop_stale s 0 w) \<and> waiters (drop_stale s 0 w) = {}"
  using assms
proof (induction "unat (WCount w)" arbitrary: w)
  case 0
  then have "WCount w = 0" by (simp add: unat_eq_0)
  with 0 show ?case by (simp add: drop_stale.simps entries_def)
next
  case (Suc n)
  let ?x = "Ids w ! 0"
  have pos: "0 < WCount w" "0 < unat (WCount w)" using Suc.hyps(2) by (auto simp: word_gt_0 unat_gt_0)
  have "?x \<in> waiters w" using pos(2) entries_nth [of 0 w] Suc.prems(1) wait_okD(5) [of w]
    by (metis nth_mem)
  then have st: "?x \<noteq> 0" "\<not> IpcWaitIsLive s ?x" using Suc.prems wait_okD(4) by (metis, blast)
  note r = IpcWaitRemove_law [OF Suc.prems(1), of ?x]
  have "drop_stale s 0 w = drop_stale s 0 (IpcWaitRemove ?x w)"
    using pos(1) st by (subst drop_stale.simps) simp
  moreover have "n = unat (WCount (IpcWaitRemove ?x w))"
    using Suc.hyps(2) IpcWaitRemove_count [OF pos(2)] by simp
  ultimately show ?case using Suc.hyps(1) [of "IpcWaitRemove ?x w"] r Suc.prems(2) by simp
qed

text \<open>Taking a live entry: a live waiter if there is one, otherwise the queue is emptied.\<close>

lemma IpcWaitTakeLive_cases:
  assumes "wait_ok w"
  obtains (live) x w' where "IpcWaitTakeLive s w = (x, w')" "x \<in> waiters w" "x \<noteq> 0" "IpcWaitIsLive s x"
      "waiters w' = waiters w - {x}" "wait_ok w'"
  | (none) w' where "IpcWaitTakeLive s w = (0, w')" "\<forall>x \<in> waiters w. \<not> IpcWaitIsLive s x"
      "waiters w' = {}" "wait_ok w'"
proof (cases "wait_index (\<lambda>x. x \<noteq> 0 \<and> IpcWaitIsLive s x) w")
  case None
  then have stale: "\<forall>x \<in> waiters w. \<not> IpcWaitIsLive s x"
    using assms wait_okD(4) [OF assms] by (auto simp: wait_index_entries)
  have "IpcWaitTakeLive s w = (0, drop_stale s 0 w)" using None by (simp add: IpcWaitTakeLive_def)
  from none [OF this stale] drop_stale_law [OF assms stale] show thesis by blast
next
  case (Some k)
  with wait_index_Some [OF Some] wait_index_in [OF Some assms] IpcWaitRemove_law [OF assms, of "Ids w ! k"]
  show thesis by (intro live) (auto simp: IpcWaitTakeLive_def)
qed

lemma wait_reset_law: "length (Ids w) = IpcMaxWaiters \<Longrightarrow> wait_ok (wait_reset w) \<and> waiters (wait_reset w) = {}"
  by (simp add: wait_ok_def wait_reset_def entries_def)

end
