(* ===== verification/Ipc_Park.thy ===== *)
theory Ipc_Park
  imports Ipc_Wait
begin

text \<open>
  Sleeping on an object and waking a sleeper: \<^verbatim>\<open>IpcPark\<close> and \<^verbatim>\<open>IpcWakeOne\<close> of
  \<^verbatim>\<open>src/ipc/ipc.c\<close>. \<^verbatim>\<open>IpcPark\<close> gets a pointer to a wait queue inside an object and a test on
  that object; here the object is a value, \<open>get\<close> and \<open>put\<close> read and write its wait queue
  and \<open>ready\<close> is the test. The call returns \<open>Done status\<close>, or \<open>Suspended was_enabled\<close> when
  the caller was switched away from inside \<^verbatim>\<open>SchedBlock\<close>; \<open>IpcPark_resume\<close> is what the
  caller does when it runs again. The loop may run forever (for instance while the scheduler
  is locked, when every block is undone), so it is a partial function.

  The locale \<open>waitable\<close> states what \<^verbatim>\<open>IpcPark\<close> relies on: the wait queue is a field of the
  object, and the test does not read it. Ports, semaphores and mutexes are its instances.
\<close>

datatype 'a outcome = Done 'a | Suspended bool

text \<open>The end of the loop body, after \<^verbatim>\<open>SchedBlock\<close> has returned.\<close>

definition IpcPark_woken ::
  "('o \<Rightarrow> IpcWait) \<Rightarrow> (IpcWait \<Rightarrow> 'o \<Rightarrow> 'o) \<Rightarrow> u32 \<Rightarrow> bool \<Rightarrow> 'o \<Rightarrow> sched \<Rightarrow> 'o \<times> sched" where
  "IpcPark_woken get put self was_enabled ob s =
     (put (IpcWaitRemove self (get ob)) ob, SchedUnlockIrq was_enabled (snd (SchedLockIrq s)))"

partial_function (option) IpcPark_loop ::
  "('o \<Rightarrow> IpcWait) \<Rightarrow> (IpcWait \<Rightarrow> 'o \<Rightarrow> 'o) \<Rightarrow> ('o \<Rightarrow> bool) \<Rightarrow> u32 \<Rightarrow> 'o \<Rightarrow> sched \<Rightarrow>
     (IpcStatus outcome \<times> 'o \<times> sched) option" where
  "IpcPark_loop get put ready self ob s =
     (let (was_enabled, s) = SchedLockIrq s in
      if ready ob then Some (Done IpcOk, ob, SchedUnlockIrq was_enabled s)
      else
        (let (added, w) = IpcWaitAdd self (get ob) in
         if \<not> added then Some (Done IpcErrFull, ob, SchedUnlockIrq was_enabled s)
         else
           do { let ob = put w ob;
                (s, switched) \<leftarrow> SchedBlock s;
                if switched then Some (Suspended was_enabled, ob, s)
                else (let (ob, s) = IpcPark_woken get put self was_enabled ob s
                      in IpcPark_loop get put ready self ob s) }))"

declare IpcPark_loop.simps [code]

definition IpcPark ::
  "('o \<Rightarrow> IpcWait) \<Rightarrow> (IpcWait \<Rightarrow> 'o \<Rightarrow> 'o) \<Rightarrow> ('o \<Rightarrow> bool) \<Rightarrow> 'o \<Rightarrow> sched \<Rightarrow>
     (IpcStatus outcome \<times> 'o \<times> sched) option" where
  "IpcPark get put ready ob s =
     (let self = IpcSelfId s in
      if self = 0 then Some (Done IpcErrNoTask, ob, s)
      else IpcPark_loop get put ready self ob s)"

text \<open>
  The task in slot \<open>i\<close>, with identifier \<open>self\<close>, runs again after it was suspended in its
  \<^verbatim>\<open>SchedBlock\<close>. Interrupts were off when it blocked, so the restore at the end of
  \<^verbatim>\<open>SchedYield\<close> does nothing.
\<close>

definition IpcPark_resume ::
  "('o \<Rightarrow> IpcWait) \<Rightarrow> (IpcWait \<Rightarrow> 'o \<Rightarrow> 'o) \<Rightarrow> ('o \<Rightarrow> bool) \<Rightarrow> u32 \<Rightarrow> nat \<Rightarrow> bool \<Rightarrow> 'o \<Rightarrow> sched \<Rightarrow>
     (IpcStatus outcome \<times> 'o \<times> sched) option" where
  "IpcPark_resume get put ready self i was_enabled ob s =
     do { s \<leftarrow> SchedBlockTask_resume i (SchedYield_resume False s);
          let (ob, s) = IpcPark_woken get put self was_enabled ob s;
          IpcPark_loop get put ready self ob s }"

subsection \<open>The interrupt flag\<close>

lemma irq_flag_bits:
  "cpu_irqs_enabled c \<longleftrightarrow> bit (eflags c) 9"
  "cpu_disable_irqs c = c\<lparr>eflags := unset_bit 9 (eflags c)\<rparr>"
  "cpu_enable_irqs c = c\<lparr>eflags := set_bit 9 (eflags c)\<rparr>"
proof -
  have f: "EflagsInterruptEnable = 2 ^ 9" "EflagsInterruptEnable = push_bit 9 1"
    by (simp_all add: EflagsInterruptEnable_def push_bit_eq_mult)
  show "cpu_irqs_enabled c \<longleftrightarrow> bit (eflags c) 9"
    unfolding cpu_irqs_enabled_def f(1) and_exp_eq_0_iff_not_bit by simp
  show "cpu_disable_irqs c = c\<lparr>eflags := unset_bit 9 (eflags c)\<rparr>"
    unfolding cpu_disable_irqs_def f(2) unset_bit_eq_and_not ..
  show "cpu_enable_irqs c = c\<lparr>eflags := set_bit 9 (eflags c)\<rparr>"
    unfolding cpu_enable_irqs_def f(2) set_bit_eq_or ..
qed

lemma flag_restore:
  "bit x 9 \<Longrightarrow> set_bit 9 (unset_bit 9 x) = (x :: u32)" "\<not> bit x 9 \<Longrightarrow> unset_bit 9 x = x"
  by (auto intro!: bit_eqI simp: bit_set_bit_iff bit_unset_bit_iff)

lemma irq_roundtrip [simp]:
  "SchedUnlockIrq (fst (SchedLockIrq s)) (snd (SchedLockIrq s)) = (s :: sched)"
  by (cases s) (auto simp: SchedLockIrq_def SchedUnlockIrq_def irq_flag_bits flag_restore)

lemma irq_roundtripD: "SchedLockIrq s = (w, s') \<Longrightarrow> SchedUnlockIrq w s' = (s :: sched)"
  using irq_roundtrip [of s] by simp

lemma lock_irq_self: "SchedLockIrq s = (w, s') \<Longrightarrow> IpcSelfId s' = IpcSelfId s"
  by (auto simp: SchedLockIrq_def IpcSelfId_def SchedCurrent_def split: option.split)

lemma IpcSelfId_sim:
  assumes "refines s a" and "ainv a" and "cur a = Some i"
  shows "IpcSelfId s = TaskId (tab a ! i)"
proof -
  have "CurrentTask s = Some i" using refinesD(2) [OF assms(1)] assms(3) by simp
  with refines_current [OF assms(1,2)] refines_nth [OF assms(1)] show ?thesis
    by (simp add: IpcSelfId_def SchedCurrent_def)
qed

text \<open>A task that runs again and is not blocked has nothing left to do in \<^verbatim>\<open>SchedBlockTask\<close>.\<close>

lemma SchedBlockTask_resume_running:
  assumes "State (task s i) \<noteq> TaskBlocked"
  shows "SchedBlockTask_resume i s = Some s"
proof -
  obtain w s' where lk: "SchedLockIrq s = (w, s')" by fastforce
  then have "Tasks s' = Tasks s" by (auto simp: SchedLockIrq_def)
  with assms lk irq_roundtripD [OF lk] show ?thesis by (simp add: SchedBlockTask_resume_def)
qed

subsection \<open>Waking\<close>

lemma live_sim:
  assumes "refines s a" and "ainv a"
  shows "IpcWaitIsLive s x \<longleftrightarrow> x \<noteq> 0 \<and> (\<exists>i. live a i \<and> TaskId (tab a ! i) = x)"
proof -
  have "SchedFind x s \<noteq> None \<longleftrightarrow> (\<exists>i. live a i \<and> TaskId (tab a ! i) = x)"
    using SchedFind_sim [OF assms] afind_live [of x a] afind_unique [OF assms(2)] by force
  then show ?thesis by (simp add: IpcWaitIsLive_def)
qed

lemma IpcWakeOne_law:
  assumes "refines s a" and "ainv a" and "wait_ok w"
  shows "\<exists>x w' s'. IpcWakeOne w s = Some (w', s') \<and> wait_ok w' \<and> waiters w' = waiters w - {x} \<and>
      x \<in> waiters w \<and> IpcWaitIsLive s x \<and> refines s' (awake_task x a) \<or>
    IpcWakeOne w s = Some (w', s') \<and> wait_ok w' \<and> waiters w' = {} \<and>
      (\<forall>x \<in> waiters w. \<not> IpcWaitIsLive s x) \<and> s' = s"
proof -
  obtain e s1 where lk: "SchedLockIrq s = (e, s1)" by fastforce
  have r1: "refines s1 a" using assms(1) refines_lock_irq [of s a] lk by simp
  have un: "SchedUnlockIrq e s1 = s" by (rule irq_roundtripD [OF lk])
  have lv: "IpcWaitIsLive s1 x \<longleftrightarrow> IpcWaitIsLive s x" for x
    using live_sim [OF r1 assms(2)] live_sim [OF assms(1,2)] by simp
  show ?thesis
  proof (cases rule: IpcWaitTakeLive_cases [OF assms(3), of s1])
    case (1 x w')
    obtain s' where "SchedWakeTask x s = Some s'" "refines s' (awake_task x a)"
      using SchedWakeTask_sim [OF assms(1,2), of x] by (auto simp: returns_def)
    with 1 lk un lv show ?thesis by (intro exI [of _ x] exI [of _ w'] exI [of _ s']) (simp add: IpcWakeOne_def)
  next
    case (2 w')
    with lk un lv show ?thesis by (intro exI [of _ 0] exI [of _ w'] exI [of _ s]) (simp add: IpcWakeOne_def)
  qed
qed

text \<open>
  What waking one waiter of a queue does: \<open>wakes s a w s' w'\<close> relates the scheduler and the
  queue before and after \<^verbatim>\<open>IpcWakeOne\<close>.
\<close>

definition wakes :: "sched \<Rightarrow> aspec \<Rightarrow> IpcWait \<Rightarrow> sched \<Rightarrow> IpcWait \<Rightarrow> bool" where
  "wakes s a w s' w' \<longleftrightarrow> wait_ok w' \<and>
     ((\<exists>x \<in> waiters w. IpcWaitIsLive s x \<and> waiters w' = waiters w - {x} \<and> refines s' (awake_task x a)) \<or>
      (\<forall>x \<in> waiters w. \<not> IpcWaitIsLive s x) \<and> waiters w' = {} \<and> s' = s)"

lemma IpcWakeOne_wakes:
  assumes "refines s a" and "ainv a" and "wait_ok w"
  obtains w' s' where "IpcWakeOne w s = Some (w', s')" and "wakes s a w s' w'"
  using IpcWakeOne_law [OF assms] unfolding wakes_def by blast

lemma ayield_ids:
  assumes "ainv a" and "j < SchedMaxTasks"
  shows "TaskId (tab (fst (ayield a)) ! j) = TaskId (tab a ! j)"
proof (cases "lck a = 0 \<and> (\<exists>n. apick a = Some n \<and> cur a \<noteq> Some n)")
  case True
  with ayield_tab [OF assms(1)] assms(2) show ?thesis by auto
next
  case False
  then have "ayield a = (a, False)" by (auto simp: ayield_def split: option.splits)
  then show ?thesis by simp
qed

text \<open>A task that blocks itself keeps its identifier across the switch.\<close>

lemma sleeper_id:
  assumes "ainv a" and "cur a = Some i" and "i \<noteq> 0" and "State (tab a ! i) = TaskRunning"
  shows "TaskId (tab (fst (ayield (ablock i a))) ! i) = TaskId (tab a ! i)"
proof -
  have lv: "live a i" using ainvD(2) [OF assms(1)] assms(2) by (simp add: current_ok_def)
  then have i: "i < SchedMaxTasks" by (simp add: live_def)
  have "ainv (ablock i a)" using ablock_ainv [OF assms(1) lv assms(3)] assms(4) by simp
  from ayield_ids [OF this i] show ?thesis
    using i queues_okD(1) [OF ainvD(1) [OF assms(1)]] by (simp add: ablock_def)
qed

text \<open>A sleeper that is the only waiter of a queue is the one that is woken, and it is ready then.\<close>

lemma wakes_sleeper:
  assumes "wakes s b w s' w'" and "refines s b" and "ainv b" and "waiters w = {TaskId (tab b ! i)}"
    and "i < SchedMaxTasks" and "i \<noteq> 0" and "State (tab b ! i) = TaskBlocked"
  shows "refines s' (aunblock i b)" and "ainv (aunblock i b)" and "State (task s' i) = TaskReady"
    and "waiters w' = {}"
proof -
  let ?x = "TaskId (tab b ! i)"
  have lv: "live b i" using assms(5,7) by (simp add: live_def)
  have x: "?x \<noteq> 0" using zero_id_idle [OF ainvD(3) [OF assms(3)] lv] assms(6) by simp
  have "IpcWaitIsLive s ?x" using live_sim [OF assms(2,3)] lv x by blast
  with assms(1,4) have w: "refines s' (awake_task ?x b)" "waiters w' = {}" by (auto simp: wakes_def)
  have "awake_task ?x b = aunblock i b"
    using afind_unique [OF assms(3) lv] assms(7) by (simp add: awake_task_def)
  with w(1) show r: "refines s' (aunblock i b)" by simp
  have "i \<in> set (bq b)" using queues_okD(6) [OF ainvD(1) [OF assms(3)]] assms(5,7) by simp
  then show inv: "ainv (aunblock i b)" by (rule aunblock_ainv [OF assms(3)])
  show "waiters w' = {}" by (rule w(2))
  have "State (tab (aunblock i b) ! i) = TaskReady"
    using assms(5) queues_okD(1) [OF ainvD(1) [OF assms(3)]] by (simp add: aunblock_def)
  then show "State (task s' i) = TaskReady"
    using refines_nth [OF r] refines_current(1) [OF r inv] assms(5) by simp
qed

subsection \<open>Parking\<close>

lemma park_loop_frame:
  assumes "IpcPark_loop get put ready self ob s = Some y"
  shows "(\<forall>w v ob. put w (put v ob) = put w ob) \<and> (\<forall>ob. put (get ob) ob = ob) \<longrightarrow>
    (\<exists>w. fst (snd y) = put w ob) \<and> (fst y = Done IpcOk \<longrightarrow> ready (fst (snd y)))"
proof (rule IpcPark_loop.raw_induct [OF _ assms, where
      P = "\<lambda>get put ready self ob s y. (\<forall>w v ob. put w (put v ob) = put w ob) \<and> (\<forall>ob. put (get ob) ob = ob) \<longrightarrow>
    (\<exists>w. fst (snd y) = put w ob) \<and> (fst y = Done IpcOk \<longrightarrow> ready (fst (snd y)))"], goal_cases)
  case (1 loop get put ready self ob s y)
  obtain e s1 where lk: "SchedLockIrq s = (e, s1)" by fastforce
  obtain added w where add: "IpcWaitAdd self (get ob) = (added, w)" by fastforce
  show ?case
  proof (cases "ready ob \<or> \<not> added \<or> (\<exists>s2. SchedBlock s1 = Some (s2, True))")
    case True
    with 1(2) lk add consider "ready ob" "y = (Done IpcOk, ob, SchedUnlockIrq e s1)"
      | "y = (Done IpcErrFull, ob, SchedUnlockIrq e s1)"
      | s2 where "y = (Suspended e, put w ob, s2)"
      by (fastforce simp: Let_def split: if_splits)
    then show ?thesis by cases (simp_all, metis+)
  next
    case False
    with 1(2) lk add obtain s2 where s2: "SchedBlock s1 = Some (s2, False)"
      by (cases "SchedBlock s1") auto
    with False 1(2) lk add have "loop get put ready self
        (put (IpcWaitRemove self (get (put w ob))) (put w ob)) (SchedUnlockIrq e (snd (SchedLockIrq s2))) = Some y"
      by (simp add: IpcPark_woken_def Let_def)
    from 1(1) [OF this] show ?thesis by auto
  qed
qed

locale waitable =
  fixes get :: "'o \<Rightarrow> IpcWait" and put :: "IpcWait \<Rightarrow> 'o \<Rightarrow> 'o" and ready :: "'o \<Rightarrow> bool"
  assumes get_put: "get (put w ob) = w"
    and put_put: "put w (put v ob) = put w ob"
    and put_get: "put (get ob) ob = ob"
    and ready_put: "ready (put w ob) \<longleftrightarrow> ready ob"
begin

lemma park_idle: "IpcSelfId s = 0 \<Longrightarrow> IpcPark get put ready ob s = Some (Done IpcErrNoTask, ob, s)"
  by (simp add: IpcPark_def)

lemma loop_ready: "ready ob \<Longrightarrow> IpcPark_loop get put ready self ob s = Some (Done IpcOk, ob, s)"
  by (subst IpcPark_loop.simps) (auto dest: irq_roundtripD split: prod.split)

lemma park_ready:
  "IpcSelfId s \<noteq> 0 \<Longrightarrow> ready ob \<Longrightarrow> IpcPark get put ready ob s = Some (Done IpcOk, ob, s)"
  by (simp add: IpcPark_def loop_ready)

lemma loop_full:
  assumes "\<not> ready ob" and "wait_ok (get ob)" and "unat (WCount (get ob)) = 16"
  shows "IpcPark_loop get put ready self ob s = Some (Done IpcErrFull, ob, s)"
proof -
  have "IpcWaitAdd self (get ob) = (False, get ob)"
    using assms(3) by (simp add: IpcWaitAdd_def word_le_nat_alt IpcMaxWaiters_def)
  with assms(1) show ?thesis
    by (subst IpcPark_loop.simps) (auto dest: irq_roundtripD split: prod.split)
qed

text \<open>
  A caller that finds the object not ready ends up on its wait queue and blocked, in one
  step with interrupts off.
\<close>

lemma loop_sleeps:
  assumes "refines s a" and "ainv a" and "lck a = 0" and "cur a = Some i" and "i \<noteq> 0"
    and "State (tab a ! i) = TaskRunning" and "\<not> ready ob" and "wait_ok (get ob)"
    and "unat (WCount (get ob)) < 16"
  obtains w s' where "IpcPark_loop get put ready (TaskId (tab a ! i)) ob s =
      Some (Suspended (fst (SchedLockIrq s)), put w ob, s')"
    and "wait_ok w" and "waiters w = insert (TaskId (tab a ! i)) (waiters (get ob))"
    and "State (task s' i) = TaskBlocked" and "refines s' (fst (ayield (ablock i a)))"
    and "ainv (fst (ayield (ablock i a)))"
proof -
  let ?self = "TaskId (tab a ! i)"
  obtain e s1 where lk: "SchedLockIrq s = (e, s1)" by fastforce
  have r1: "refines s1 a" using assms(1) refines_lock_irq [of s a] lk by simp
  have lv: "live a i" using ainvD(2) [OF assms(2)] assms(4) by (simp add: current_ok_def)
  have self: "?self \<noteq> 0" using zero_id_idle [OF ainvD(3) [OF assms(2)] lv] assms(5) by simp
  obtain w where w: "IpcWaitAdd ?self (get ob) = (True, w)" "wait_ok w"
    "waiters w = insert ?self (waiters (get ob))"
    using assms(8,9) by (cases rule: IpcWaitAdd_cases [OF assms(8) self]) auto
  obtain s' n where s': "SchedBlock s1 = Some (s', True)" "State (task s' i) = TaskBlocked"
    "refines s' (fst (ayield (ablock i a)))" "ainv (fst (ayield (ablock i a)))"
    by (rule SchedBlock_switches [OF r1 assms(2-6)])
  have "IpcPark_loop get put ready ?self ob s = Some (Suspended e, put w ob, s')"
    using assms(7) w(1) s'(1) by (subst IpcPark_loop.simps) (simp add: lk)
  with that w s' lk show thesis by simp
qed

text \<open>
  Whatever happens, only the wait queue of the object changes while its owner is not
  scheduled in between, and a successful return means that the object is ready.
\<close>

lemma loop_frame:
  assumes "IpcPark_loop get put ready self ob s = Some (r, ob', s')"
  shows "\<exists>w. ob' = put w ob" and "r = Done IpcOk \<Longrightarrow> ready ob'"
  using park_loop_frame [OF assms] put_put put_get by simp_all

lemma resume_running:
  assumes "State (task s i) \<noteq> TaskBlocked"
  shows "IpcPark_resume get put ready self i e ob s =
    (let (ob, s) = IpcPark_woken get put self e ob s in IpcPark_loop get put ready self ob s)"
  using SchedBlockTask_resume_running [OF assms]
  by (simp add: IpcPark_resume_def SchedYield_resume_def SchedUnlockIrq_def)

text \<open>A sleeper that runs again when the object is ready returns and has left the wait queue.\<close>

lemma resume_ready:
  assumes "State (task s i) \<noteq> TaskBlocked" and "ready ob"
  shows "IpcPark_resume get put ready self i e ob s =
    Some (Done IpcOk, put (IpcWaitRemove self (get ob)) ob, SchedUnlockIrq e (snd (SchedLockIrq s)))"
  unfolding resume_running [OF assms(1)]
  by (simp add: IpcPark_woken_def loop_ready ready_put assms(2))

end

end
