(* ===== verification/Hw_Init.thy ===== *)
theory Hw_Init
  imports Irq_Props Page_Props Ipc_Park
begin

text \<open>
  The architecture's start, \<^verbatim>\<open>src/arch/x86_32/boot/hw_init.c\<close>: interrupts are wired up and the boot loader's answer is
  condensed into \<^verbatim>\<open>struct boot_info\<close>. The memory that the boot loader filled is the argument \<open>m\<close>.
\<close>

definition MULTIBOOT_BOOTLOADER_MAGIC :: u32 where "MULTIBOOT_BOOTLOADER_MAGIC = 0x2BADB002"
definition MULTIBOOT_INFO_MEMORY_MAP :: u32 where "MULTIBOOT_INFO_MEMORY_MAP = push_bit 6 1"

text \<open>The fields of the boot loader's record, at their offsets.\<close>

record multiboot_info =
  mb_flags :: u32
  mem_lower :: u32
  mem_upper :: u32
  boot_device :: u32
  cmdline :: u32
  modules_count :: u32
  modules_addr :: u32
  syms :: "u32 list"
  mmap_length :: u32
  mmap_addr :: u32

definition multiboot_info_at :: "bytes \<Rightarrow> u32 \<Rightarrow> multiboot_info" where
  "multiboot_info_at m a =
     \<lparr>mb_flags = load32 m a, mem_lower = load32 m (a + 4), mem_upper = load32 m (a + 8), boot_device = load32 m (a + 12),
      cmdline = load32 m (a + 16), modules_count = load32 m (a + 20), modules_addr = load32 m (a + 24),
      syms = map (\<lambda>i. load32 m (a + 28 + 4 * of_nat i)) [0..<4], mmap_length = load32 m (a + 44), mmap_addr = load32 m (a + 48)\<rparr>"

definition boot_info_of :: "bytes \<Rightarrow> u32 \<Rightarrow> u32 \<Rightarrow> boot_info" where
  "boot_info_of m magic info_addr =
     (let boot = \<lparr>multiboot_magic = magic, multiboot_info_addr = info_addr, memory_map_addr = 0, memory_map_length = 0\<rparr> in
      if magic = MULTIBOOT_BOOTLOADER_MAGIC \<and> info_addr \<noteq> 0 then
        (let mbi = multiboot_info_at m info_addr in
         if mb_flags mbi AND MULTIBOOT_INFO_MEMORY_MAP \<noteq> 0
         then boot\<lparr>memory_map_addr := mmap_addr mbi, memory_map_length := mmap_length mbi\<rparr>
         else boot\<lparr>memory_map_addr := 0, memory_map_length := 0\<rparr>)
      else boot\<lparr>memory_map_addr := 0, memory_map_length := 0\<rparr>)"

text \<open>Everything before the call of \<^verbatim>\<open>kernel_main\<close>, which gets the result.\<close>

definition hw_init :: "device \<Rightarrow> u32 list \<Rightarrow> u32 \<Rightarrow> u32 \<Rightarrow> bytes \<Rightarrow> u32 \<Rightarrow> u32 \<Rightarrow> kernel \<Rightarrow> boot_info \<times> kernel" where
  "hw_init dev stub_table stub_placeholder idt_address m magic info_addr k =
     (let k = irq_disable k;
          k = idt_init stub_table stub_placeholder idt_address k;
          k = pic_init k;
          k = timer_init dev 100 k;
          k = keyboard_init dev k;
          k = irq_enable k
      in (boot_info_of m magic info_addr, k))"

lemma idt_init_frame [simp]:
  "handlers (idt_init stubs ph at k) = handlers k" "con (idt_init stubs ph at k) = con k" "sch (idt_init stubs ph at k) = sch k"
  "tick_count (idt_init stubs ph at k) = tick_count k"
proof -
  have "handlers (fold (\<lambda>i. idt_set_gate i (f i)) xs k) = handlers k \<and> con (fold (\<lambda>i. idt_set_gate i (f i)) xs k) = con k \<and>
      sch (fold (\<lambda>i. idt_set_gate i (f i)) xs k) = sch k \<and> tick_count (fold (\<lambda>i. idt_set_gate i (f i)) xs k) = tick_count k" for f xs and k :: kernel
    by (induction xs arbitrary: k) (simp_all add: idt_set_gate_def)
  then show "handlers (idt_init stubs ph at k) = handlers k" "con (idt_init stubs ph at k) = con k" "sch (idt_init stubs ph at k) = sch k"
    "tick_count (idt_init stubs ph at k) = tick_count k" by (simp_all add: idt_init_def Let_def)
qed

text \<open>Wiring the controllers, the timer and the keyboard.\<close>

lemma lines_wired:
  fixes k :: kernel
  assumes dev: "reads_mask dev"
  defines "k' \<equiv> keyboard_init dev (timer_init dev 100 (pic_init k))"
  shows "last_write PIC1_DATA (ports (con k')) = Some 0xFC" "last_write PIC2_DATA (ports (con k')) = Some 0xFF"
    "handlers k' = (handlers k)[32 := Some timer_handler, 33 := Some keyboard_handler]" "ticks_per_second k' = 100"
    "sch k' = sch k" "idt k' = idt k" "tick_count k' = tick_count k"
proof -
  define k1 where "k1 = (kout PIT_CH0_DATA (ucast (drop_bit 8 (pit_divisor 100) AND 0xFF)) (io_wait (kout PIT_CH0_DATA (ucast (pit_divisor 100 AND 0xFF))
     (io_wait (kout PIT_CMD_REG PIT_CMD_SQUARE (pic_init k))))))\<lparr>ticks_per_second := PIT_OSC_FREQ div pit_divisor 100\<rparr>"
  have t: "timer_init dev 100 (pic_init k) = irq_register dev (int 0) (Some timer_handler) k1"
    by (simp add: timer_init_def Let_def k1_def)
  have w1: "last_write PIC1_DATA (ports (con k1)) = Some 0xFF" "last_write PIC2_DATA (ports (con k1)) = Some 0xFF"
    by (simp_all add: k1_def pic_init_def Let_def io_wait_def last_write_def irq_consts PIT_CH0_DATA_def PIT_CMD_REG_def)
  have f1: "handlers k1 = handlers k" "sch k1 = sch k" "idt k1 = idt k" "tick_count k1 = tick_count k"
    by (simp_all add: k1_def pic_init_def Let_def io_wait_def)
  have "unat (pit_divisor 100) = 11931" using pit_divisor_law [of 100] by simp
  then have "pit_divisor 100 = 11931" by (simp add: word_unat_eq_iff)
  then have r1: "ticks_per_second k1 = 100" by (simp add: k1_def PIT_OSC_FREQ_def)
  define k2 where "k2 = kout PIC1_DATA 0xFE (k1\<lparr>handlers := (handlers k)[32 := Some timer_handler]\<rparr>)"
  have k2: "timer_init dev 100 (pic_init k) = k2"
    using line_update(1) [OF dev w1, of 0 timer_handler] by (simp add: t k2_def f1)
  have w2: "last_write PIC1_DATA (ports (con k2)) = Some 0xFE" "last_write PIC2_DATA (ports (con k2)) = Some 0xFF"
    using w1 data_ports by (simp_all add: k2_def)
  have k': "k' = kout PIC1_DATA 0xFC (k2\<lparr>handlers := (handlers k)[32 := Some timer_handler, 33 := Some keyboard_handler]\<rparr>)"
    using line_update(1) [OF dev w2, of 1 keyboard_handler] by (simp add: k'_def keyboard_init_def k2 k2_def)
  show "last_write PIC1_DATA (ports (con k')) = Some 0xFC" "last_write PIC2_DATA (ports (con k')) = Some 0xFF"
    "handlers k' = (handlers k)[32 := Some timer_handler, 33 := Some keyboard_handler]" "ticks_per_second k' = 100"
    "sch k' = sch k" "idt k' = idt k" "tick_count k' = tick_count k"
    using w2(2) data_ports f1 r1 by (simp_all add: k' k2_def)
qed

text \<open>
  C33: after \<^verbatim>\<open>hw_init\<close> exactly the timer and the keyboard can interrupt: their two lines are open and every other line of both
  controllers is masked, their handlers and no others are installed, the timer runs at 100 ticks per second, every vector
  leads to its stub, interrupts are enabled, and the scheduler and the tick are untouched. The memory map is handed on exactly when the boot loader
  identified itself, left its record and marked the map as valid.
\<close>

theorem hw_init_ready:
  fixes stubs :: "u32 list" and ph at magic info :: u32 and m :: bytes
  assumes dev: "reads_mask dev" and k: "length (idt k) = 256" "handlers k = replicate 256 None" and v: "v < 256"
  defines "k' \<equiv> snd (hw_init dev stubs ph at m magic info k)" and "b \<equiv> fst (hw_init dev stubs ph at m magic info k)"
  shows "last_write PIC1_DATA (ports (con k')) = Some 0xFC \<and> last_write PIC2_DATA (ports (con k')) = Some 0xFF \<and>
    handlers k' ! v = (if v = 32 then Some timer_handler else if v = 33 then Some keyboard_handler else None) \<and>
    ticks_per_second k' = 100 \<and> gate_address (idt k' ! v) = (if v < 48 then stubs ! v else ph) \<and>
    cpu_irqs_enabled (fst (Machine (sch k'))) \<and> Tasks (sch k') = Tasks (sch k) \<and> tick_count k' = tick_count k \<and>
    memory_map_length b = (if magic = 0x2BADB002 \<and> info \<noteq> 0 \<and> bit (load32 m info) 6 then load32 m (info + 44) else 0) \<and>
    memory_map_addr b = (if magic = 0x2BADB002 \<and> info \<noteq> 0 \<and> bit (load32 m info) 6 then load32 m (info + 48) else 0)"
proof -
  define k1 where "k1 = idt_init stubs ph at (irq_disable k)"
  define k2 where "k2 = keyboard_init dev (timer_init dev 100 (pic_init k1))"
  have k': "k' = irq_enable k2" "b = boot_info_of m magic info" by (simp_all add: k'_def b_def hw_init_def Let_def k1_def k2_def)
  have f: "handlers k1 = replicate 256 None" "tick_count k1 = tick_count k" "Tasks (sch k1) = Tasks (sch k)" "idt (irq_disable k) = idt k"
    using k(2) by (simp_all add: k1_def irq_disable_def)
  have e: "con k' = con k2" "handlers k' = handlers k2" "ticks_per_second k' = ticks_per_second k2" "idt k' = idt k2" "tick_count k' = tick_count k2"
    "Tasks (sch k') = Tasks (sch k2)" by (simp_all add: k'(1) irq_enable_def)
  note w = lines_wired [OF dev, of k1, folded k2_def]
  have "gate_address (idt k1 ! v) = (if v < 48 then stubs ! v else ph)"
    using idt_gates [of "irq_disable k" v stubs ph at] k(1) v f(4) by (simp add: k1_def)
  moreover have "cpu_irqs_enabled (fst (Machine (sch k')))" by (simp add: k'(1) irq_enable_def irq_flag_bits bit_set_bit_iff)
  moreover have "handlers k' ! v = (if v = 32 then Some timer_handler else if v = 33 then Some keyboard_handler else None)"
    using v by (simp add: e w f nth_list_update)
  moreover have "mb AND push_bit 6 1 \<noteq> 0 \<longleftrightarrow> bit mb 6" for mb :: u32 by (simp add: bit_iff_and_push_bit_not_eq_0)
  then have "memory_map_length b = (if magic = 0x2BADB002 \<and> info \<noteq> 0 \<and> bit (load32 m info) 6 then load32 m (info + 44) else 0)"
    "memory_map_addr b = (if magic = 0x2BADB002 \<and> info \<noteq> 0 \<and> bit (load32 m info) 6 then load32 m (info + 48) else 0)"
    by (simp_all add: k'(2) boot_info_of_def Let_def multiboot_info_at_def MULTIBOOT_BOOTLOADER_MAGIC_def MULTIBOOT_INFO_MEMORY_MAP_def del: push_bit_of_1)
  ultimately show ?thesis using w f by (simp add: e)
qed

theorem hw_init_ready_witness:
  "\<exists>k b k'. hw_init demo_pic (map of_nat [0x100000..<0x100030]) 0x200000 0x300000 (\<lambda>_. 0xFF) 0x2BADB002 0x9000 k = (b, k') \<and>
     last_write PIC1_DATA (ports (con k')) = Some 0xFC \<and> gate_address (idt k' ! 33) = 0x100021 \<and> ticks_per_second k' = 100 \<and>
     memory_map_length b = load32 (\<lambda>_. 0xFF) 0x902C"
proof -
  let ?k = "demo_kernel\<lparr>handlers := replicate 256 None\<rparr>"
  have "reads_mask demo_pic" "length (idt ?k) = 256" "handlers ?k = replicate 256 None"
    by (simp_all add: reads_mask_def demo_pic_def demo_kernel_def)
  from hw_init_ready [OF this, where v = 33 and stubs = "map of_nat [0x100000..<0x100030]" and ph = "0x200000" and at = "0x300000"
      and m = "\<lambda>_. 0xFF" and magic = "0x2BADB002" and info = "0x9000"]
  have "last_write PIC1_DATA (ports (con (snd (hw_init demo_pic (map of_nat [0x100000..<0x100030]) 0x200000 0x300000 (\<lambda>_. 0xFF) 0x2BADB002 0x9000 ?k)))) = Some 0xFC \<and>
      gate_address (idt (snd (hw_init demo_pic (map of_nat [0x100000..<0x100030]) 0x200000 0x300000 (\<lambda>_. 0xFF) 0x2BADB002 0x9000 ?k)) ! 33) = 0x100021 \<and>
      ticks_per_second (snd (hw_init demo_pic (map of_nat [0x100000..<0x100030]) 0x200000 0x300000 (\<lambda>_. 0xFF) 0x2BADB002 0x9000 ?k)) = 100 \<and>
      memory_map_length (fst (hw_init demo_pic (map of_nat [0x100000..<0x100030]) 0x200000 0x300000 (\<lambda>_. 0xFF) 0x2BADB002 0x9000 ?k)) = load32 (\<lambda>_. 0xFF) 0x902C"
    by (simp add: load32_def bit_simps)
  then show ?thesis by (metis surjective_pairing)
qed

end
