(* ===== verification/Heap.thy ===== *)
theory Heap
  imports Page_Laws Cpu
begin

text \<open>
  The kernel heap, \<^verbatim>\<open>src/mm/heap.c\<close>, one definition per function, in the order of the file. The
  memory is the array of 32-bit cells of theory \<open>Cpu\<close>, at the code's own addresses: a block's
  header is the four cells from its address on (\<^verbatim>\<open>Magic\<close>, \<^verbatim>\<open>Size\<close>, \<^verbatim>\<open>PrevSize\<close>, and \<^verbatim>\<open>IsFree\<close> in the lowest
  byte of the fourth), and the two cells after it are the links of the free list while the
  block is free and the start of the payload while it is not. A \<^verbatim>\<open>Block *\<close> is an address and 0 the null pointer; a
  \<^verbatim>\<open>HeapSegment *\<close> is an index into \<^verbatim>\<open>HeapSegmentTable\<close> or \<^const>\<open>None\<close>. The walks along links are
  partial functions.
\<close>

definition HEAP_MAGIC :: u32 where
  "HEAP_MAGIC = 0x48454150"

definition HEAP_GROW_PAGES :: u32 where
  "HEAP_GROW_PAGES = 16"

definition HEAP_KEEP_PAGES :: u32 where
  "HEAP_KEEP_PAGES = HEAP_GROW_PAGES"

definition HEAP_SEGMENT_CAP :: u32 where
  "HEAP_SEGMENT_CAP = 8"

definition HEAP_ALIGN :: u32 where
  "HEAP_ALIGN = 8"

definition HEAP_ALIGN_UP :: "u32 \<Rightarrow> u32" where
  "HEAP_ALIGN_UP x = (x + (HEAP_ALIGN - 1)) AND NOT (HEAP_ALIGN - 1)"

text \<open>\<^verbatim>\<open>sizeof(BlockMeta)\<close>: three words, and a flag padded to a word.\<close>

definition META_SIZE :: u32 where
  "META_SIZE = 16"

subsection \<open>Blocks in memory\<close>

definition Magic :: "memory \<Rightarrow> u32 \<Rightarrow> u32" where
  "Magic m b = m b"

definition Size :: "memory \<Rightarrow> u32 \<Rightarrow> u32" where
  "Size m b = m (b + 4)"

definition PrevSize :: "memory \<Rightarrow> u32 \<Rightarrow> u32" where
  "PrevSize m b = m (b + 8)"

definition IsFree :: "memory \<Rightarrow> u32 \<Rightarrow> bool" where
  "IsFree m b \<longleftrightarrow> m (b + 12) AND 0xFF \<noteq> 0"

definition NodePrev :: "memory \<Rightarrow> u32 \<Rightarrow> u32" where
  "NodePrev m b = m (b + 16)"

definition NodeNext :: "memory \<Rightarrow> u32 \<Rightarrow> u32" where
  "NodeNext m b = m (b + 20)"

definition set_Magic :: "u32 \<Rightarrow> u32 \<Rightarrow> memory \<Rightarrow> memory" where
  "set_Magic b v m = m(b := v)"

definition set_Size :: "u32 \<Rightarrow> u32 \<Rightarrow> memory \<Rightarrow> memory" where
  "set_Size b v m = m(b + 4 := v)"

definition set_PrevSize :: "u32 \<Rightarrow> u32 \<Rightarrow> memory \<Rightarrow> memory" where
  "set_PrevSize b v m = m(b + 8 := v)"

definition set_IsFree :: "u32 \<Rightarrow> bool \<Rightarrow> memory \<Rightarrow> memory" where
  "set_IsFree b v m = m(b + 12 := (m (b + 12) AND NOT 0xFF) OR (if v then 1 else 0))"

definition set_NodePrev :: "u32 \<Rightarrow> u32 \<Rightarrow> memory \<Rightarrow> memory" where
  "set_NodePrev b v m = m(b + 16 := v)"

definition set_NodeNext :: "u32 \<Rightarrow> u32 \<Rightarrow> memory \<Rightarrow> memory" where
  "set_NodeNext b v m = m(b + 20 := v)"

record HeapSegment =
  Base :: u32
  End :: u32
  SegNext :: "nat option"

record heap =
  mem :: memory
  HeapSegments :: "nat option"
  HeapSegmentTable :: "HeapSegment list"
  HeapSegmentCount :: u32
  FreeListHead :: u32
  page_state :: pages

subsection \<open>Segments\<close>

partial_function (option) hint_walk :: "HeapSegment list \<Rightarrow> nat option \<Rightarrow> u32 \<Rightarrow> u32 option" where
  "hint_walk tbl seg hint =
     (case seg of
        None \<Rightarrow> Some hint
      | Some i \<Rightarrow> hint_walk tbl (SegNext (tbl ! i)) (if End (tbl ! i) > hint then End (tbl ! i) else hint))"

definition HeapGrowthHint :: "heap \<Rightarrow> u32 option" where
  "HeapGrowthHint h = hint_walk (HeapSegmentTable h) (HeapSegments h) 0"

partial_function (option) segment_walk :: "HeapSegment list \<Rightarrow> u32 \<Rightarrow> nat option \<Rightarrow> nat option option" where
  "segment_walk tbl b seg =
     (case seg of
        None \<Rightarrow> Some None
      | Some i \<Rightarrow>
          if b \<ge> Base (tbl ! i) \<and> b < End (tbl ! i) then Some (Some i)
          else segment_walk tbl b (SegNext (tbl ! i)))"

definition HeapFindSegment :: "u32 \<Rightarrow> heap \<Rightarrow> nat option option" where
  "HeapFindSegment b h =
     (if b = 0 then Some None else segment_walk (HeapSegmentTable h) b (HeapSegments h))"

subsection \<open>The free list\<close>

partial_function (option) insert_walk :: "memory \<Rightarrow> u32 \<Rightarrow> u32 \<Rightarrow> u32 \<Rightarrow> (u32 \<times> u32) option" where
  "insert_walk m b prev cur =
     (if cur \<noteq> 0 \<and> cur < b then insert_walk m b cur (NodeNext m cur) else Some (prev, cur))"

definition HeapListInsert :: "u32 \<Rightarrow> heap \<Rightarrow> heap option" where
  "HeapListInsert b h =
     do { (prev, cur) \<leftarrow> insert_walk (mem h) b 0 (FreeListHead h);
          let h = h\<lparr>mem := set_NodeNext b cur (set_NodePrev b prev (mem h))\<rparr>;
          let h = (if prev \<noteq> 0 then h\<lparr>mem := set_NodeNext prev b (mem h)\<rparr> else h\<lparr>FreeListHead := b\<rparr>);
          Some (if cur \<noteq> 0 then h\<lparr>mem := set_NodePrev cur b (mem h)\<rparr> else h) }"

definition HeapListRemove :: "u32 \<Rightarrow> heap \<Rightarrow> heap" where
  "HeapListRemove b h =
     (let h = (if NodePrev (mem h) b \<noteq> 0
               then h\<lparr>mem := set_NodeNext (NodePrev (mem h) b) (NodeNext (mem h) b) (mem h)\<rparr>
               else h\<lparr>FreeListHead := NodeNext (mem h) b\<rparr>);
          h = (if NodeNext (mem h) b \<noteq> 0
               then h\<lparr>mem := set_NodePrev (NodeNext (mem h) b) (NodePrev (mem h) b) (mem h)\<rparr>
               else h)
      in h\<lparr>mem := set_NodeNext b 0 (set_NodePrev b 0 (mem h))\<rparr>)"

partial_function (option) free_walk :: "memory \<Rightarrow> u32 \<Rightarrow> u32 \<Rightarrow> u32 option" where
  "free_walk m sz b =
     (if b \<noteq> 0 then (if Size m b \<ge> sz then Some b else free_walk m sz (NodeNext m b)) else Some 0)"

definition HeapFindFree :: "u32 \<Rightarrow> heap \<Rightarrow> (u32 \<times> heap) option" where
  "HeapFindFree sz h =
     do { b \<leftarrow> free_walk (mem h) sz (FreeListHead h);
          Some (if b \<noteq> 0 then (b, HeapListRemove b h) else (0, h)) }"

declare hint_walk.simps [code] segment_walk.simps [code] insert_walk.simps [code] free_walk.simps [code]

subsection \<open>Growing and splitting\<close>

definition HeapGrow :: "u32 \<Rightarrow> heap \<Rightarrow> (u32 \<times> heap) option" where
  "HeapGrow n h =
     (if HeapSegmentCount h \<ge> HEAP_SEGMENT_CAP then Some (0, h)
      else
        do { hint \<leftarrow> HeapGrowthHint h;
             let (b, ps) = PageAllocPagesAt hint n (page_state h);
             let h = h\<lparr>page_state := ps\<rparr>;
             if b = 0 then Some (0, h)
             else
               do { let h = h\<lparr>mem := set_IsFree b True (set_PrevSize b 0 (set_Size b (n * PAGE_SIZE)
                                (set_Magic b HEAP_MAGIC (mem h))))\<rparr>;
                    let i = unat (HeapSegmentCount h);
                    let h = h\<lparr>HeapSegmentCount := HeapSegmentCount h + 1,
                              HeapSegmentTable := (HeapSegmentTable h)
                                [i := \<lparr>Base = b, End = b + Size (mem h) b, SegNext = HeapSegments h\<rparr>]\<rparr>;
                    let h = h\<lparr>HeapSegments := Some i\<rparr>;
                    h \<leftarrow> HeapListInsert b h;
                    Some (b, h) } })"

text \<open>The store that stamps the \<^verbatim>\<open>PrevSize\<close> of \<open>next\<close> when it lies in the segment of \<open>b\<close>.\<close>

definition stamp_next :: "u32 \<Rightarrow> u32 \<Rightarrow> u32 \<Rightarrow> heap \<Rightarrow> heap option" where
  "stamp_next b next sz h =
     do { seg \<leftarrow> HeapFindSegment b h;
          Some (case seg of
                  None \<Rightarrow> h
                | Some i \<Rightarrow>
                    if next < End (HeapSegmentTable h ! i) then h\<lparr>mem := set_PrevSize next sz (mem h)\<rparr> else h) }"

definition HeapSplit :: "u32 \<Rightarrow> u32 \<Rightarrow> heap \<Rightarrow> heap option" where
  "HeapSplit b sz h =
     (let leftover = Size (mem h) b - sz in
      if leftover < HEAP_ALIGN + META_SIZE then Some h
      else
        do { let rest = b + sz;
             let h = h\<lparr>mem := set_IsFree rest True (set_PrevSize rest sz (set_Size rest leftover
                         (set_Magic rest HEAP_MAGIC (mem h))))\<rparr>;
             h \<leftarrow> stamp_next b (rest + leftover) leftover h;
             let h = h\<lparr>mem := set_Size b sz (mem h)\<rparr>;
             HeapListInsert rest h })"

definition HeapInit :: "heap \<Rightarrow> heap option" where
  "HeapInit h =
     do { (_, h) \<leftarrow> HeapGrow HEAP_GROW_PAGES (h\<lparr>FreeListHead := 0\<rparr>); Some h }"

subsection \<open>Allocation\<close>

text \<open>The part of \<^verbatim>\<open>kmalloc\<close> after a block has been taken off the free list.\<close>

definition kmalloc_take :: "u32 \<Rightarrow> u32 \<Rightarrow> heap \<Rightarrow> (u32 \<times> heap) option" where
  "kmalloc_take tsize b h =
     do { h \<leftarrow> (if Size (mem h) b > tsize then HeapSplit b tsize h
                else Some (h\<lparr>mem := set_Size b tsize (mem h)\<rparr>));
          let h = h\<lparr>mem := set_IsFree b False (set_Magic b HEAP_MAGIC (mem h))\<rparr>;
          h \<leftarrow> stamp_next b (b + Size (mem h) b) (Size (mem h) b) h;
          Some (b + META_SIZE, h) }"

definition kmalloc :: "u32 \<Rightarrow> heap \<Rightarrow> (u32 \<times> heap) option" where
  "kmalloc sz h =
     (if sz = 0 then Some (0, h)
      else if sz > (- 1) - META_SIZE - HEAP_ALIGN then Some (0, h)
      else
        do { let tsize = HEAP_ALIGN_UP (sz + META_SIZE);
             (b, h) \<leftarrow> HeapFindFree tsize h;
             if b \<noteq> 0 then kmalloc_take tsize b h
             else
               do { (b, h) \<leftarrow> HeapGrow ((tsize + PAGE_SIZE - 1) div PAGE_SIZE) h;
                    if b = 0 then Some (0, h) else kmalloc_take tsize b (HeapListRemove b h) } })"

subsection \<open>Release\<close>

definition wipe :: "u32 \<Rightarrow> memory \<Rightarrow> memory" where
  "wipe b m = set_IsFree b False (set_PrevSize b 0 (set_Size b 0 (set_Magic b 0 m)))"

text \<open>The merge with the left neighbour: the block that is now free, and whether it is on the list already.\<close>

definition merge_left :: "u32 \<Rightarrow> heap \<Rightarrow> u32 \<times> bool \<times> heap" where
  "merge_left b h =
     (if PrevSize (mem h) b \<noteq> 0 then
        (let left = b - PrevSize (mem h) b in
         if Magic (mem h) left = HEAP_MAGIC \<and> IsFree (mem h) left
         then (left, True, h\<lparr>mem := wipe b (set_Size left (Size (mem h) left + Size (mem h) b) (mem h))\<rparr>)
         else (b, False, h))
      else (b, False, h))"

definition merge_right :: "u32 \<Rightarrow> heap \<Rightarrow> heap option" where
  "merge_right b h =
     do { let next = b + Size (mem h) b;
          seg \<leftarrow> HeapFindSegment b h;
          Some (case seg of
                  None \<Rightarrow> h
                | Some i \<Rightarrow>
                    if next < End (HeapSegmentTable h ! i) \<and> IsFree (mem h) next
                    then (let next_size = Size (mem h) next;
                              h = HeapListRemove next h
                          in h\<lparr>mem := wipe next (set_Size b (Size (mem h) b + next_size) (mem h))\<rparr>)
                    else h) }"

text \<open>The end of \<^verbatim>\<open>kfree\<close>: everything past the keep threshold goes back to the page allocator.\<close>

definition give_back :: "u32 \<Rightarrow> heap \<Rightarrow> heap option" where
  "give_back b h =
     do { seg \<leftarrow> HeapFindSegment b h;
          if (case seg of None \<Rightarrow> False | Some i \<Rightarrow> b + Size (mem h) b \<ge> End (HeapSegmentTable h ! i))
          then Some h
          else if Size (mem h) b > HEAP_KEEP_PAGES * PAGE_SIZE then
            (let keep = HEAP_KEEP_PAGES * PAGE_SIZE;
                 give = Size (mem h) b - keep;
                 n = give div PAGE_SIZE
             in if n = 0 then Some h
                else
                  do { let split = b + keep;
                       let h = h\<lparr>mem := set_IsFree split True (set_PrevSize split keep (set_Size split give
                                   (set_Magic split HEAP_MAGIC (mem h))))\<rparr>;
                       h \<leftarrow> stamp_next b (split + give) keep h;
                       let h = h\<lparr>mem := set_Size b keep (mem h)\<rparr>;
                       h \<leftarrow> HeapListInsert split h;
                       Some (h\<lparr>page_state := PageFreePages split n (page_state h)\<rparr>) })
          else Some h }"

definition kfree :: "u32 \<Rightarrow> heap \<Rightarrow> heap option" where
  "kfree addr h =
     (let b = addr - META_SIZE in
      if Magic (mem h) b \<noteq> HEAP_MAGIC \<or> IsFree (mem h) b then Some h
      else
        do { let (b, merged_left, h) = merge_left b h;
             h \<leftarrow> merge_right b h;
             h \<leftarrow> stamp_next b (b + Size (mem h) b) (Size (mem h) b) h;
             let h = h\<lparr>mem := set_IsFree b True (mem h)\<rparr>;
             h \<leftarrow> (if \<not> merged_left then HeapListInsert b h else Some h);
             give_back b h })"

end
