(* ===== verification/Heap_List.thy ===== *)
theory Heap_List
  imports Heap
begin

text \<open>
  Reasoning about the heap's memory. Block addresses that lie at least 24 bytes apart
  (\<open>spaced\<close>) have separate fields: a store to one field changes that field of that block only.
  On top of this the free list: \<open>links m p xs e\<close> says that the blocks \<open>xs\<close> are doubly linked in this
  order, from a left end \<open>p\<close> to a right end \<open>e\<close>. Inserting and removing a block are shown to do to the
  list what they should, and to keep every header.
\<close>

subsection \<open>Separate fields\<close>

definition spaced :: "u32 set \<Rightarrow> bool" where
  "spaced A \<longleftrightarrow> (\<forall>b \<in> A. unat b + 24 \<le> 2 ^ 32) \<and>
     (\<forall>b \<in> A. \<forall>c \<in> A. b \<noteq> c \<longrightarrow> unat b + 24 \<le> unat c \<or> unat c + 24 \<le> unat b)"

lemma spaced_subset: "spaced A \<Longrightarrow> B \<subseteq> A \<Longrightarrow> spaced B"
  unfolding spaced_def by blast

lemma offset_ne:
  assumes "spaced A" and "b \<in> A" and "c \<in> A" and "j < 24" and "k < 24" and "j \<noteq> k"
  shows "b + of_nat j \<noteq> c + of_nat k"
proof
  assume eq: "b + of_nat j = c + of_nat k"
  have off: "unat (x + of_nat i) = unat x + i" if "x \<in> A" "i < 24" for x i
  proof -
    have "unat x + 24 \<le> 2 ^ 32" using assms(1) that(1) by (simp add: spaced_def)
    moreover have "unat (of_nat i :: u32) = i" using that(2) by (intro unat_of_nat_u32) simp
    ultimately show ?thesis using that(2) by (simp add: unat_plus_if_size word_size)
  qed
  have "unat b + j = unat c + k" using eq off assms by metis
  moreover from this have "b \<noteq> c" using assms(6) by auto
  then have "unat b + 24 \<le> unat c \<or> unat c + 24 \<le> unat b" using assms by (simp add: spaced_def)
  ultimately show False using assms(4,5) by linarith
qed

lemma offsets:
  assumes "spaced A" and "b \<in> A" and "c \<in> A"
  shows
    "b \<noteq> c + 4" "b \<noteq> c + 8" "b \<noteq> c + 12" "b \<noteq> c + 16" "b \<noteq> c + 20"
    "b + 4 \<noteq> c" "b + 4 \<noteq> c + 8" "b + 4 \<noteq> c + 12" "b + 4 \<noteq> c + 16"
    "b + 4 \<noteq> c + 20" "b + 8 \<noteq> c" "b + 8 \<noteq> c + 4" "b + 8 \<noteq> c + 12"
    "b + 8 \<noteq> c + 16" "b + 8 \<noteq> c + 20" "b + 12 \<noteq> c" "b + 12 \<noteq> c + 4"
    "b + 12 \<noteq> c + 8" "b + 12 \<noteq> c + 16" "b + 12 \<noteq> c + 20" "b + 16 \<noteq> c"
    "b + 16 \<noteq> c + 4" "b + 16 \<noteq> c + 8" "b + 16 \<noteq> c + 12" "b + 16 \<noteq> c + 20"
    "b + 20 \<noteq> c" "b + 20 \<noteq> c + 4" "b + 20 \<noteq> c + 8" "b + 20 \<noteq> c + 12"
    "b + 20 \<noteq> c + 16"
  using
    offset_ne [OF assms, of 0 4] offset_ne [OF assms, of 0 8] offset_ne [OF assms, of 0 12]
    offset_ne [OF assms, of 0 16] offset_ne [OF assms, of 0 20] offset_ne [OF assms, of 4 0]
    offset_ne [OF assms, of 4 8] offset_ne [OF assms, of 4 12] offset_ne [OF assms, of 4 16]
    offset_ne [OF assms, of 4 20] offset_ne [OF assms, of 8 0] offset_ne [OF assms, of 8 4]
    offset_ne [OF assms, of 8 12] offset_ne [OF assms, of 8 16] offset_ne [OF assms, of 8 20]
    offset_ne [OF assms, of 12 0] offset_ne [OF assms, of 12 4] offset_ne [OF assms, of 12 8]
    offset_ne [OF assms, of 12 16] offset_ne [OF assms, of 12 20] offset_ne [OF assms, of 16 0]
    offset_ne [OF assms, of 16 4] offset_ne [OF assms, of 16 8] offset_ne [OF assms, of 16 12]
    offset_ne [OF assms, of 16 20] offset_ne [OF assms, of 20 0] offset_ne [OF assms, of 20 4]
    offset_ne [OF assms, of 20 8] offset_ne [OF assms, of 20 12] offset_ne [OF assms, of 20 16]
  by simp_all

lemmas field_defs = Magic_def Size_def PrevSize_def IsFree_def NodePrev_def NodeNext_def
  set_Magic_def set_Size_def set_PrevSize_def set_IsFree_def set_NodePrev_def set_NodeNext_def

lemma flag_byte: "((x AND NOT 0xFF) OR (if v then 1 else 0)) AND 0xFF \<noteq> (0 :: u32) \<longleftrightarrow> v"
  by (simp add: bit.conj_disj_distrib2 and.assoc)

text \<open>What each store does to each field of a block.\<close>

lemma set_Magic_fields:
  assumes "spaced A" and "b \<in> A" and "c \<in> A"
  shows "Magic (set_Magic b v m) c = (if c = b then v else Magic m c)" "Size (set_Magic b v m) c = Size m c"
    "PrevSize (set_Magic b v m) c = PrevSize m c" "IsFree (set_Magic b v m) c = IsFree m c"
    "NodePrev (set_Magic b v m) c = NodePrev m c" "NodeNext (set_Magic b v m) c = NodeNext m c"
  using offsets [OF assms(1,3,2)] by (simp_all add: field_defs)

lemma set_Size_fields:
  assumes "spaced A" and "b \<in> A" and "c \<in> A"
  shows "Magic (set_Size b v m) c = Magic m c" "Size (set_Size b v m) c = (if c = b then v else Size m c)"
    "PrevSize (set_Size b v m) c = PrevSize m c" "IsFree (set_Size b v m) c = IsFree m c"
    "NodePrev (set_Size b v m) c = NodePrev m c" "NodeNext (set_Size b v m) c = NodeNext m c"
  using offsets [OF assms(1,3,2)] by (simp_all add: field_defs)

lemma set_PrevSize_fields:
  assumes "spaced A" and "b \<in> A" and "c \<in> A"
  shows "Magic (set_PrevSize b v m) c = Magic m c" "Size (set_PrevSize b v m) c = Size m c"
    "PrevSize (set_PrevSize b v m) c = (if c = b then v else PrevSize m c)" "IsFree (set_PrevSize b v m) c = IsFree m c"
    "NodePrev (set_PrevSize b v m) c = NodePrev m c" "NodeNext (set_PrevSize b v m) c = NodeNext m c"
  using offsets [OF assms(1,3,2)] by (simp_all add: field_defs)

lemma set_IsFree_fields:
  assumes "spaced A" and "b \<in> A" and "c \<in> A"
  shows "Magic (set_IsFree b v m) c = Magic m c" "Size (set_IsFree b v m) c = Size m c"
    "PrevSize (set_IsFree b v m) c = PrevSize m c" "IsFree (set_IsFree b v m) c = (if c = b then v else IsFree m c)"
    "NodePrev (set_IsFree b v m) c = NodePrev m c" "NodeNext (set_IsFree b v m) c = NodeNext m c"
  using offsets [OF assms(1,3,2)] flag_byte [of "m (b + 12)" v] by (simp_all add: field_defs)

lemma set_NodePrev_fields:
  assumes "spaced A" and "b \<in> A" and "c \<in> A"
  shows "Magic (set_NodePrev b v m) c = Magic m c" "Size (set_NodePrev b v m) c = Size m c"
    "PrevSize (set_NodePrev b v m) c = PrevSize m c" "IsFree (set_NodePrev b v m) c = IsFree m c"
    "NodePrev (set_NodePrev b v m) c = (if c = b then v else NodePrev m c)" "NodeNext (set_NodePrev b v m) c = NodeNext m c"
  using offsets [OF assms(1,3,2)] by (simp_all add: field_defs)

lemma set_NodeNext_fields:
  assumes "spaced A" and "b \<in> A" and "c \<in> A"
  shows "Magic (set_NodeNext b v m) c = Magic m c" "Size (set_NodeNext b v m) c = Size m c"
    "PrevSize (set_NodeNext b v m) c = PrevSize m c" "IsFree (set_NodeNext b v m) c = IsFree m c"
    "NodePrev (set_NodeNext b v m) c = NodePrev m c" "NodeNext (set_NodeNext b v m) c = (if c = b then v else NodeNext m c)"
  using offsets [OF assms(1,3,2)] by (simp_all add: field_defs)

lemmas store_fields = set_Magic_fields set_Size_fields set_PrevSize_fields set_IsFree_fields
  set_NodePrev_fields set_NodeNext_fields

definition same_headers :: "u32 set \<Rightarrow> memory \<Rightarrow> memory \<Rightarrow> bool" where
  "same_headers A m m' \<longleftrightarrow> (\<forall>c \<in> A. Magic m' c = Magic m c \<and> Size m' c = Size m c \<and>
     PrevSize m' c = PrevSize m c \<and> IsFree m' c = IsFree m c)"

lemma same_headers_refl [simp]: "same_headers A m m"
  by (simp add: same_headers_def)

lemma same_headers_trans: "same_headers A m m' \<Longrightarrow> same_headers A m' m'' \<Longrightarrow> same_headers A m m''"
  by (simp add: same_headers_def)

lemma same_headers_node:
  assumes "spaced A" and "b \<in> A"
  shows "same_headers A m (set_NodePrev b v m)" and "same_headers A m (set_NodeNext b v m)"
  using assms by (simp_all add: same_headers_def store_fields [OF assms])

subsection \<open>Doubly linked lists\<close>

definition hd_or :: "'a \<Rightarrow> 'a list \<Rightarrow> 'a" where
  "hd_or e xs = (case xs of [] \<Rightarrow> e | x # _ \<Rightarrow> x)"

definition last_or :: "'a \<Rightarrow> 'a list \<Rightarrow> 'a" where
  "last_or p xs = (if xs = [] then p else last xs)"

lemma ends_simps [simp]:
  "hd_or e [] = e" "hd_or e (x # xs) = x" "last_or p [] = p" "last_or p (x # xs) = last_or x xs"
  "last_or p (xs @ [x]) = x" "hd_or e (xs @ ys) = hd_or (hd_or e ys) xs" "last_or p (xs @ ys) = last_or (last_or p xs) ys"
  by (simp_all add: hd_or_def last_or_def split: list.split)

lemma ends_in: "xs \<noteq> [] \<Longrightarrow> hd_or e xs \<in> set xs" "xs \<noteq> [] \<Longrightarrow> last_or p xs \<in> set xs"
  by (auto simp: hd_or_def last_or_def split: list.split)

lemma ends_zero:
  assumes "0 \<notin> set xs"
  shows "last_or 0 xs \<noteq> 0 \<longleftrightarrow> xs \<noteq> []" and "hd_or 0 xs \<noteq> 0 \<longleftrightarrow> xs \<noteq> []"
  using assms ends_in [of xs 0] by (cases "xs = []"; metis ends_simps(1,3))+

primrec links :: "memory \<Rightarrow> u32 \<Rightarrow> u32 list \<Rightarrow> u32 \<Rightarrow> bool" where
  "links m p [] e \<longleftrightarrow> True"
| "links m p (a # as) e \<longleftrightarrow> NodePrev m a = p \<and> NodeNext m a = hd_or e as \<and> links m a as e"

lemma links_append: "links m p (xs @ ys) e \<longleftrightarrow> links m p xs (hd_or e ys) \<and> links m (last_or p xs) ys e"
  by (induction xs arbitrary: p) auto

lemma links_cong:
  assumes "\<And>a. a \<in> set xs \<Longrightarrow> NodePrev m' a = NodePrev m a \<and> NodeNext m' a = NodeNext m a"
  shows "links m' p xs e = links m p xs e"
  using assms by (induction xs arbitrary: p) auto

text \<open>Redirecting the right end, and the left end.\<close>

lemma links_end:
  assumes "spaced A" and "set xs \<subseteq> A" and "distinct xs" and "links m p xs e"
  shows "links (if xs = [] then m else set_NodeNext (last_or p xs) e' m) p xs e'"
proof (cases xs rule: rev_cases)
  case (snoc ys y)
  then have y: "y \<in> A" "y \<notin> set ys" and sub: "set ys \<subseteq> A" using assms by auto
  then have "links (set_NodeNext y e' m) p ys y = links m p ys y"
    by (intro links_cong) (auto simp: store_fields [OF assms(1) y(1)])
  with assms(4) show ?thesis by (simp add: snoc links_append store_fields [OF assms(1) y(1) y(1)])
qed simp

lemma links_start:
  assumes "spaced A" and "set xs \<subseteq> A" and "distinct xs" and "links m p xs e"
  shows "links (if xs = [] then m else set_NodePrev (hd_or e xs) p' m) p' xs e"
proof (cases xs)
  case (Cons y ys)
  then have y: "y \<in> A" "y \<notin> set ys" and sub: "set ys \<subseteq> A" using assms by auto
  then have "links (set_NodePrev y p' m) y ys e = links m y ys e"
    by (intro links_cong) (auto simp: store_fields [OF assms(1) y(1)])
  with assms(4) show ?thesis by (simp add: Cons store_fields [OF assms(1) y(1) y(1)])
qed simp

subsection \<open>The free list\<close>

definition free_list :: "heap \<Rightarrow> u32 list \<Rightarrow> bool" where
  "free_list h xs \<longleftrightarrow> FreeListHead h = hd_or 0 xs \<and> links (mem h) 0 xs 0 \<and> 0 \<notin> set xs \<and> sorted_wrt (<) xs"

lemma sorted_less_distinct: "sorted_wrt (<) (xs :: u32 list) \<Longrightarrow> distinct xs"
  by (induction xs) auto

definition below :: "u32 \<Rightarrow> u32 list \<Rightarrow> u32 list" where
  "below b xs = takeWhile (\<lambda>x. x < b) xs"

definition beyond :: "u32 \<Rightarrow> u32 list \<Rightarrow> u32 list" where
  "beyond b xs = dropWhile (\<lambda>x. x < b) xs"

lemma below_beyond: "below b xs @ beyond b xs = xs"
  by (simp add: below_def beyond_def)

lemma insert_walk_split:
  "links m p xs 0 \<Longrightarrow> 0 \<notin> set xs \<Longrightarrow> insert_walk m b p (hd_or 0 xs) = Some (last_or p (below b xs), hd_or 0 (beyond b xs))"
proof (induction xs arbitrary: p)
  case Nil
  then show ?case by (subst insert_walk.simps) (simp add: below_def beyond_def)
next
  case (Cons a as)
  then show ?case by (subst insert_walk.simps) (simp add: below_def beyond_def)
qed

lemma free_walk_find:
  "links m p xs 0 \<Longrightarrow> 0 \<notin> set xs \<Longrightarrow>
   free_walk m sz (hd_or 0 xs) = Some (case find (\<lambda>x. sz \<le> Size m x) xs of None \<Rightarrow> 0 | Some x \<Rightarrow> x)"
proof (induction xs arbitrary: p)
  case Nil
  then show ?case by (subst free_walk.simps) simp
next
  case (Cons a as)
  then have "links m a as 0" by simp
  from Cons.IH [OF this] Cons.prems show ?case by (subst free_walk.simps) simp
qed

lemma beyond_greater: "sorted_wrt (<) xs \<Longrightarrow> b \<notin> set xs \<Longrightarrow> x \<in> set (beyond b xs) \<Longrightarrow> b < x"
proof (induction xs)
  case (Cons a as)
  show ?case
  proof (cases "a < b")
    case True
    with Cons show ?thesis by (simp add: beyond_def)
  next
    case False
    then have "b < a" using Cons.prems(2) by (simp add: not_less order.order_iff_strict)
    with False Cons.prems show ?thesis by (auto simp: beyond_def)
  qed
qed (simp add: beyond_def)

lemma insert_sorted:
  assumes "sorted_wrt (<) xs" and "b \<notin> set xs"
  shows "sorted_wrt (<) (below b xs @ b # beyond b xs)"
proof -
  have "sorted_wrt (<) (below b xs @ beyond b xs)" using assms(1) by (simp add: below_beyond)
  moreover have "x \<in> set (below b xs) \<Longrightarrow> x < b" for x by (auto simp: below_def dest: set_takeWhileD)
  ultimately show ?thesis using beyond_greater [OF assms] by (auto simp: sorted_wrt_append)
qed

text \<open>What a list operation leaves alone: all headers of the blocks, the segments and the pages.\<close>

definition list_only :: "u32 set \<Rightarrow> heap \<Rightarrow> heap \<Rightarrow> bool" where
  "list_only A h h' \<longleftrightarrow> same_headers A (mem h) (mem h') \<and>
     h' = h\<lparr>mem := mem h', FreeListHead := FreeListHead h'\<rparr>"

lemma HeapListInsert_law:
  assumes A: "spaced A" "b \<in> A" "set xs \<subseteq> A" and b: "b \<noteq> 0" "b \<notin> set xs" and fl: "free_list h xs"
  shows "returns (HeapListInsert b h) (\<lambda>h'. free_list h' (below b xs @ b # beyond b xs) \<and> list_only A h h')"
proof -
  let ?l = "below b xs" and ?r = "beyond b xs"
  define prev cur where "prev = last_or 0 ?l" and "cur = hd_or 0 ?r"
  have xs: "links (mem h) 0 xs 0" "0 \<notin> set xs" "FreeListHead h = hd_or 0 xs" "sorted_wrt (<) xs"
    using fl by (simp_all add: free_list_def)
  have sets: "set ?l \<subseteq> set xs" "set ?r \<subseteq> set xs" by (metis Un_upper1 Un_upper2 below_beyond set_append)+
  have dist: "distinct (?l @ b # ?r)" by (rule sorted_less_distinct [OF insert_sorted [OF xs(4) b(2)]])
  have lr: "links (mem h) 0 ?l cur" "links (mem h) prev ?r 0"
    using xs(1) links_append [of "mem h" 0 ?l ?r 0] by (simp_all add: below_beyond prev_def cur_def)
  have prev0: "prev \<noteq> 0 \<longleftrightarrow> ?l \<noteq> []" and cur0: "cur \<noteq> 0 \<longleftrightarrow> ?r \<noteq> []"
    using sets xs(2) unfolding prev_def cur_def by (intro ends_zero; blast)+
  define m1 where "m1 = set_NodeNext b cur (set_NodePrev b prev (mem h))"
  define m2 where "m2 = (if ?l = [] then m1 else set_NodeNext prev b m1)"
  define m3 where "m3 = (if ?r = [] then m2 else set_NodePrev cur b m2)"
  define h' where "h' = h\<lparr>mem := m3, FreeListHead := (if ?l = [] then b else FreeListHead h)\<rparr>"
  have run: "HeapListInsert b h = Some h'"
    unfolding HeapListInsert_def xs(3) insert_walk_split [OF xs(1,2)] prev_def [symmetric] cur_def [symmetric]
    by (simp add: prev0 cur0 h'_def m1_def m2_def m3_def xs(3))
  have pA: "?l \<noteq> [] \<Longrightarrow> prev \<in> A" and cA: "?r \<noteq> [] \<Longrightarrow> cur \<in> A"
    using ends_in [of ?l 0] ends_in [of ?r 0] sets A(3) unfolding prev_def cur_def by blast+
  note f = store_fields [OF A(1)]
  have pb: "?l \<noteq> [] \<Longrightarrow> prev \<noteq> b \<and> prev \<notin> set ?r" and cb: "?r \<noteq> [] \<Longrightarrow> cur \<noteq> b \<and> cur \<notin> set ?l"
    using dist ends_in [of ?l 0] ends_in [of ?r 0] unfolding prev_def cur_def by auto
  have m1: "links m1 0 ?l cur" "links m1 prev ?r 0"
  proof -
    have "links m1 p ys e = links (mem h) p ys e" if "set ys \<subseteq> A" "b \<notin> set ys" for p ys e
      using that A(2) by (intro links_cong) (auto simp: m1_def f)
    then show "links m1 0 ?l cur" "links m1 prev ?r 0" using lr sets A(3) dist by auto
  qed
  have m2: "links m2 0 ?l b" "links m2 prev ?r 0"
  proof -
    show "links m2 0 ?l b"
      using links_end [OF A(1) _ _ m1(1), of b] sets A(3) dist by (auto simp: m2_def prev_def)
    have "links (set_NodeNext prev b m1) prev ?r 0 = links m1 prev ?r 0" if "?l \<noteq> []"
      using sets A(3) pA [OF that] pb [OF that] by (intro links_cong) (auto simp: f)
    then show "links m2 prev ?r 0" using m1(2) by (simp add: m2_def)
  qed
  have m3: "links m3 b ?r 0" "links m3 0 ?l b"
  proof -
    show "links m3 b ?r 0"
      using links_start [OF A(1) _ _ m2(2), of b] sets A(3) dist by (auto simp: m3_def cur_def)
    have "links (set_NodePrev cur b m2) 0 ?l b = links m2 0 ?l b" if "?r \<noteq> []"
      using sets A(3) cA [OF that] cb [OF that] by (intro links_cong) (auto simp: f)
    then show "links m3 0 ?l b" using m2(1) by (simp add: m3_def)
  qed
  have node: "NodePrev m3 b = prev" "NodeNext m3 b = cur"
    using A(2) pA cA pb cb by (auto simp: m1_def m2_def m3_def f)
  have "links m3 0 (?l @ b # ?r) 0" using m3 node by (simp add: links_append prev_def cur_def)
  moreover have "FreeListHead h' = hd_or 0 (?l @ b # ?r)"
  proof -
    have "hd_or 0 xs = hd_or (hd_or 0 ?r) ?l" by (metis below_beyond ends_simps(6))
    then show ?thesis using xs(3) by (cases ?l) (simp_all add: h'_def)
  qed
  moreover have "0 \<notin> set (?l @ b # ?r)" using xs(2) b(1) sets by auto
  ultimately have "free_list h' (?l @ b # ?r)"
    using insert_sorted [OF xs(4) b(2)] by (simp add: free_list_def h'_def)
  moreover have "same_headers A (mem h) m3"
    unfolding m1_def m2_def m3_def using A(2) pA cA
    by (auto simp: same_headers_def f)
  ultimately show ?thesis by (simp add: run list_only_def h'_def)
qed

lemma HeapListRemove_law:
  assumes A: "spaced A" "set (xs @ b # ys) \<subseteq> A" and fl: "free_list h (xs @ b # ys)"
  shows "free_list (HeapListRemove b h) (xs @ ys)" and "list_only A h (HeapListRemove b h)"
proof -
  define prev cur where "prev = last_or 0 xs" and "cur = hd_or 0 ys"
  have l: "links (mem h) 0 xs b" "NodePrev (mem h) b = prev" "NodeNext (mem h) b = cur" "links (mem h) b ys 0"
    and z: "0 \<notin> set (xs @ b # ys)" and so: "sorted_wrt (<) (xs @ b # ys)" and hd: "FreeListHead h = hd_or 0 (xs @ b # ys)"
    using fl by (auto simp: free_list_def links_append prev_def cur_def)
  have dist: "distinct (xs @ b # ys)" by (rule sorted_less_distinct [OF so])
  have sub: "set xs \<subseteq> A" "set ys \<subseteq> A" "b \<in> A" using A(2) by auto
  have prev0: "prev \<noteq> 0 \<longleftrightarrow> xs \<noteq> []" and cur0: "cur \<noteq> 0 \<longleftrightarrow> ys \<noteq> []"
    using z unfolding prev_def cur_def by (intro ends_zero; simp)+
  note f = store_fields [OF A(1)]
  have pA: "xs \<noteq> [] \<Longrightarrow> prev \<in> A \<and> prev \<noteq> b \<and> prev \<notin> set ys" and cA: "ys \<noteq> [] \<Longrightarrow> cur \<in> A \<and> cur \<noteq> b \<and> cur \<notin> set xs"
    using dist sub ends_in [of xs 0] ends_in [of ys 0] unfolding prev_def cur_def by auto
  define m1 where "m1 = (if xs = [] then mem h else set_NodeNext prev cur (mem h))"
  define m2 where "m2 = (if ys = [] then m1 else set_NodePrev cur prev m1)"
  define m3 where "m3 = set_NodeNext b 0 (set_NodePrev b 0 m2)"
  define h' where "h' = h\<lparr>mem := m3, FreeListHead := (if xs = [] then cur else FreeListHead h)\<rparr>"
  have m1b: "NodePrev m1 b = prev" "NodeNext m1 b = cur"
    using pA sub(3) l(2,3) by (auto simp: m1_def f)
  have run: "HeapListRemove b h = h'"
    unfolding HeapListRemove_def h'_def m3_def m2_def
    using m1b prev0 cur0 by (auto simp: Let_def l(2,3) m1_def)
  have m1: "links m1 0 xs cur" "links m1 b ys 0"
  proof -
    show "links m1 0 xs cur" using links_end [OF A(1) sub(1) _ l(1), of cur] dist by (auto simp: m1_def prev_def)
    have "links (set_NodeNext prev cur (mem h)) b ys 0 = links (mem h) b ys 0" if "xs \<noteq> []"
      using sub(2) pA [OF that] by (intro links_cong) (auto simp: f)
    then show "links m1 b ys 0" using l(4) by (simp add: m1_def)
  qed
  have m2: "links m2 prev ys 0" "links m2 0 xs cur"
  proof -
    show "links m2 prev ys 0" using links_start [OF A(1) sub(2) _ m1(2), of prev] dist by (auto simp: m2_def cur_def)
    have "links (set_NodePrev cur prev m1) 0 xs cur = links m1 0 xs cur" if "ys \<noteq> []"
      using sub(1) cA [OF that] by (intro links_cong) (auto simp: f)
    then show "links m2 0 xs cur" using m1(1) by (simp add: m2_def)
  qed
  have "links m3 p zs e = links m2 p zs e" if "set zs \<subseteq> A" "b \<notin> set zs" for p zs e
    using that sub(3) by (intro links_cong) (auto simp: m3_def f)
  then have "links m3 0 (xs @ ys) 0" using m2 sub dist by (simp add: links_append prev_def cur_def)
  moreover have "FreeListHead h' = hd_or 0 (xs @ ys)" using hd by (cases xs) (simp_all add: h'_def cur_def)
  moreover have "sorted_wrt (<) (xs @ ys)" using so by (auto simp: sorted_wrt_append)
  ultimately show "free_list (HeapListRemove b h) (xs @ ys)" using z by (simp add: run free_list_def h'_def)
  have "same_headers A (mem h) m3"
    unfolding m1_def m2_def m3_def using sub(3) pA cA by (auto simp: same_headers_def f)
  then show "list_only A h (HeapListRemove b h)" by (simp add: run list_only_def h'_def)
qed

lemma list_only_fields:
  assumes "list_only A h h'"
  shows "HeapSegments h' = HeapSegments h" "HeapSegmentTable h' = HeapSegmentTable h"
    "HeapSegmentCount h' = HeapSegmentCount h" "page_state h' = page_state h" "same_headers A (mem h) (mem h')"
  using assms unfolding list_only_def by (metis heap.select_convs heap.surjective heap.update_convs)+

end
