(* ===== verification/Heap_Inv.thy ===== *)
theory Heap_Inv
  imports Heap_List
begin

text \<open>
  The abstract heap and its relation to the memory. The abstract heap is a list of segments,
  oldest first; a segment is its first and last address and its blocks in order; a block is an
  address, a size and whether it is free. \<open>heap_ok\<close> relates it to the state of the code: the
  segment table describes the segments, which lie at increasing addresses in pages the page
  allocator does not offer; the blocks fill each segment without a gap; their headers are in
  memory; and the free list holds exactly the free blocks, in order of address.
\<close>

datatype blk = Blk (adr: u32) (bsize: u32) (bfree: bool)

type_synonym segment = "nat \<times> nat \<times> blk list"

abbreviation lo :: "segment \<Rightarrow> nat" where
  "lo S \<equiv> fst S"

abbreviation hi :: "segment \<Rightarrow> nat" where
  "hi S \<equiv> fst (snd S)"

abbreviation blocks_of :: "segment \<Rightarrow> blk list" where
  "blocks_of S \<equiv> snd (snd S)"

primrec tiles :: "nat \<Rightarrow> blk list \<Rightarrow> nat \<Rightarrow> bool" where
  "tiles a [] e \<longleftrightarrow> a = e"
| "tiles a (B # bs) e \<longleftrightarrow> unat (adr B) = a \<and> 24 \<le> unat (bsize B) \<and> 8 dvd unat (bsize B) \<and>
     tiles (a + unat (bsize B)) bs e"

definition hdr :: "memory \<Rightarrow> u32 \<Rightarrow> blk \<Rightarrow> bool" where
  "hdr m p B \<longleftrightarrow> Magic m (adr B) = HEAP_MAGIC \<and> Size m (adr B) = bsize B \<and> PrevSize m (adr B) = p \<and>
     IsFree m (adr B) = bfree B"

primrec hdrs :: "memory \<Rightarrow> u32 \<Rightarrow> blk list \<Rightarrow> bool" where
  "hdrs m p [] \<longleftrightarrow> True"
| "hdrs m p (B # bs) \<longleftrightarrow> hdr m p B \<and> hdrs m (bsize B) bs"

definition blocks :: "segment list \<Rightarrow> blk list" where
  "blocks segs = concat (map blocks_of segs)"

definition addrs :: "blk list \<Rightarrow> u32 set" where
  "addrs bs = adr ` set bs"

definition free_addrs :: "blk list \<Rightarrow> u32 list" where
  "free_addrs bs = map adr (filter bfree bs)"

definition seg_ok :: "segment \<Rightarrow> bool" where
  "seg_ok S \<longleftrightarrow> 0 < lo S \<and> hi S < 2 ^ 32 \<and> 4096 dvd lo S \<and> 4096 dvd hi S \<and> blocks_of S \<noteq> [] \<and>
     tiles (lo S) (blocks_of S) (hi S)"

definition seg_entry :: "segment list \<Rightarrow> nat \<Rightarrow> HeapSegment" where
  "seg_entry segs i = \<lparr>Base = of_nat (lo (segs ! i)), End = of_nat (hi (segs ! i)),
     SegNext = (if i = 0 then None else Some (i - 1))\<rparr>"

definition ascending :: "segment list \<Rightarrow> bool" where
  "ascending segs \<longleftrightarrow> sorted_wrt (\<lambda>S T. hi S \<le> lo T) segs \<and> (\<forall>S \<in> set segs. seg_ok S)"

definition pages_kept :: "pages \<Rightarrow> segment list \<Rightarrow> bool" where
  "pages_kept ps segs \<longleftrightarrow> page_inv ps \<and> PAGE_COUNT - 1 \<notin> avail ps \<and>
     (\<forall>S \<in> set segs. {lo S div 4096..<hi S div 4096} \<inter> avail ps = {})"

definition heap_frame :: "heap \<Rightarrow> segment list \<Rightarrow> bool" where
  "heap_frame h segs \<longleftrightarrow> length (HeapSegmentTable h) = 8 \<and> length segs \<le> 8 \<and>
     HeapSegmentCount h = of_nat (length segs) \<and>
     HeapSegments h = (if segs = [] then None else Some (length segs - 1)) \<and>
     (\<forall>i < length segs. HeapSegmentTable h ! i = seg_entry segs i) \<and>
     ascending segs \<and> pages_kept (page_state h) segs"

definition heap_hdrs :: "memory \<Rightarrow> segment list \<Rightarrow> bool" where
  "heap_hdrs m segs \<longleftrightarrow> (\<forall>S \<in> set segs. hdrs m 0 (blocks_of S))"

definition heap_ok :: "heap \<Rightarrow> segment list \<Rightarrow> bool" where
  "heap_ok h segs \<longleftrightarrow> heap_frame h segs \<and> heap_hdrs (mem h) segs \<and> free_list h (free_addrs (blocks segs))"

subsection \<open>Blocks\<close>

lemma tiles_append: "tiles a (xs @ ys) e \<longleftrightarrow> (\<exists>c. tiles a xs c \<and> tiles c ys e)"
  by (induction xs arbitrary: a) auto

lemma tiles_le: "tiles a bs e \<Longrightarrow> a \<le> e"
  by (induction bs arbitrary: a) (auto intro: le_trans [OF le_add1])

lemma tiles_bounds:
  "tiles a bs e \<Longrightarrow> B \<in> set bs \<Longrightarrow> a \<le> unat (adr B) \<and> unat (adr B) + unat (bsize B) \<le> e \<and> 24 \<le> unat (bsize B)"
proof (induction bs arbitrary: a)
  case (Cons C bs)
  show ?case
  proof (cases "B = C")
    case True
    with Cons.prems show ?thesis by (auto dest: tiles_le)
  next
    case False
    with Cons.IH [of "a + unat (bsize C)"] Cons.prems show ?thesis by auto
  qed
qed simp

definition gap :: "blk \<Rightarrow> blk \<Rightarrow> bool" where
  "gap B C \<longleftrightarrow> unat (adr B) + unat (bsize B) \<le> unat (adr C)"

lemma tiles_sorted: "tiles a bs e \<Longrightarrow> sorted_wrt gap bs"
proof (induction bs arbitrary: a)
  case (Cons B bs)
  then have "gap B C" if "C \<in> set bs" for C
    using tiles_bounds [of "a + unat (bsize B)" bs e C] that by (auto simp: gap_def)
  with Cons show ?case by auto
qed simp

text \<open>The next block starts where the block ends.\<close>

lemma tiles_next: "tiles a (xs @ B # C # ys) e \<Longrightarrow> unat (adr C) = unat (adr B) + unat (bsize B)"
  by (auto simp: tiles_append)

lemma tiles_last: "tiles a (xs @ [B]) e \<Longrightarrow> unat (adr B) + unat (bsize B) = e"
  by (auto simp: tiles_append)

subsection \<open>All blocks of the heap\<close>

lemma blocks_append [simp]: "blocks (xs @ ys) = blocks xs @ blocks ys" "blocks [] = []"
    "blocks (S # segs) = blocks_of S @ blocks segs"
  by (simp_all add: blocks_def)

lemma addrs_simps [simp]: "addrs [] = {}" "addrs (B # bs) = insert (adr B) (addrs bs)" "addrs (xs @ ys) = addrs xs \<union> addrs ys"
  by (auto simp: addrs_def)

lemma free_addrs_simps [simp]:
  "free_addrs [] = []" "free_addrs (B # bs) = (if bfree B then [adr B] else []) @ free_addrs bs"
  "free_addrs (xs @ ys) = free_addrs xs @ free_addrs ys"
  by (simp_all add: free_addrs_def)

lemma free_addrs_sub: "set (free_addrs bs) \<subseteq> addrs bs"
  by (auto simp: free_addrs_def addrs_def)

lemma ascending_append: "ascending (xs @ ys) \<longleftrightarrow> ascending xs \<and> ascending ys \<and> (\<forall>S \<in> set xs. \<forall>T \<in> set ys. hi S \<le> lo T)"
  by (auto simp: ascending_def sorted_wrt_append)

lemma block_bounds:
  assumes "ascending segs" and "B \<in> set (blocks segs)"
  shows "0 < unat (adr B)" "unat (adr B) + unat (bsize B) < 2 ^ 32" "24 \<le> unat (bsize B)"
proof -
  obtain S where S: "S \<in> set segs" "B \<in> set (blocks_of S)" using assms(2) by (auto simp: blocks_def)
  then have "tiles (lo S) (blocks_of S) (hi S)" "0 < lo S" "hi S < 2 ^ 32"
    using assms(1) by (auto simp: ascending_def seg_ok_def)
  with tiles_bounds [of "lo S" "blocks_of S" "hi S" B] S(2)
  show "0 < unat (adr B)" "unat (adr B) + unat (bsize B) < 2 ^ 32" "24 \<le> unat (bsize B)" by auto
qed

lemma blocks_sorted: "ascending segs \<Longrightarrow> sorted_wrt gap (blocks segs)"
proof (induction segs)
  case (Cons S segs)
  have S: "tiles (lo S) (blocks_of S) (hi S)" and asc: "ascending segs" and after: "\<And>T. T \<in> set segs \<Longrightarrow> hi S \<le> lo T"
    using Cons.prems by (auto simp: ascending_def seg_ok_def)
  have "gap B C" if B: "B \<in> set (blocks_of S)" and C: "C \<in> set (blocks segs)" for B C
  proof -
    obtain T where T: "T \<in> set segs" "C \<in> set (blocks_of T)" using C by (auto simp: blocks_def)
    then have "tiles (lo T) (blocks_of T) (hi T)" using asc by (auto simp: ascending_def seg_ok_def)
    from tiles_bounds [OF this T(2)] tiles_bounds [OF S B] after [OF T(1)] show ?thesis
      by (simp add: gap_def)
  qed
  with tiles_sorted [OF S] Cons.IH [OF asc] show ?case by (simp add: sorted_wrt_append)
qed simp

lemma gap_less: "gap B C \<Longrightarrow> 24 \<le> unat (bsize B) \<Longrightarrow> adr B < adr C"
  by (simp add: gap_def word_less_nat_alt)

lemma addresses_sorted:
  assumes "ascending segs"
  shows "sorted_wrt (<) (map adr (blocks segs))" and "sorted_wrt (<) (free_addrs (blocks segs))"
proof -
  have "sorted_wrt (\<lambda>B C. adr B < adr C) bs" if "sorted_wrt gap bs" "\<forall>B \<in> set bs. 24 \<le> unat (bsize B)" for bs
    using that by (induction bs) (auto simp: gap_less)
  then have s: "sorted_wrt (\<lambda>B C. adr B < adr C) (blocks segs)"
    using blocks_sorted [OF assms] block_bounds(3) [OF assms] by blast
  then show "sorted_wrt (<) (map adr (blocks segs))" by (simp add: sorted_wrt_map)
  show "sorted_wrt (<) (free_addrs (blocks segs))"
    unfolding free_addrs_def using s by (simp add: sorted_wrt_map sorted_wrt_filter)
qed

lemma addresses_distinct: "ascending segs \<Longrightarrow> distinct (map adr (blocks segs))"
  by (rule sorted_less_distinct [OF addresses_sorted(1)])

lemma blocks_spaced:
  assumes "ascending segs"
  shows "spaced (addrs (blocks segs))"
proof -
  have apart: "unat (adr B) + 24 \<le> unat (adr C) \<or> unat (adr C) + 24 \<le> unat (adr B)"
    if "B \<in> set bs" "C \<in> set bs" "adr B \<noteq> adr C" "sorted_wrt gap bs" "\<forall>B \<in> set bs. 24 \<le> unat (bsize B)" for B C bs
    using that by (induction bs) (fastforce simp: gap_def)+
  have "unat (adr B) + 24 \<le> 2 ^ 32" if "B \<in> set (blocks segs)" for B
    using block_bounds [OF assms that] by linarith
  then show ?thesis
    unfolding spaced_def addrs_def
    using apart [of _ "blocks segs"] blocks_sorted [OF assms] block_bounds(3) [OF assms] by blast
qed

lemma zero_not_block: "ascending segs \<Longrightarrow> 0 \<notin> addrs (blocks segs)"
  using block_bounds(1) by (fastforce simp: addrs_def)

lemma free_list_unique:
  assumes "free_list h xs" and "ascending segs" and "set xs = set (free_addrs (blocks segs))"
  shows "free_list h (free_addrs (blocks segs))"
proof -
  have "xs = free_addrs (blocks segs)"
    using assms addresses_sorted(2) [OF assms(2)] by (intro strict_sorted_equal) (auto simp: free_list_def)
  with assms(1) show ?thesis by simp
qed

subsection \<open>Headers\<close>

definition last_size :: "u32 \<Rightarrow> blk list \<Rightarrow> u32" where
  "last_size p bs = (if bs = [] then p else bsize (last bs))"

lemma last_size_simps [simp]: "last_size p [] = p" "last_size p (B # bs) = last_size (bsize B) bs" "last_size p (bs @ [B]) = bsize B"
  by (simp_all add: last_size_def)

lemma hdrs_append: "hdrs m p (xs @ ys) \<longleftrightarrow> hdrs m p xs \<and> hdrs m (last_size p xs) ys"
  by (induction xs arbitrary: p) auto

lemma hdrs_cong:
  assumes "same_headers (addrs bs) m m'"
  shows "hdrs m' p bs = hdrs m p bs"
  using assms by (induction bs arbitrary: p) (auto simp: same_headers_def hdr_def)

lemma same_headers_subset: "same_headers A m m' \<Longrightarrow> B \<subseteq> A \<Longrightarrow> same_headers B m m'"
  by (auto simp: same_headers_def)

lemma hdrs_at: "hdrs m p (xs @ B # ys) \<Longrightarrow> hdr m (last_size p xs) B"
  by (simp add: hdrs_append)

text \<open>Stamping the first block of a list with a new \<^verbatim>\<open>PrevSize\<close>.\<close>

lemma hdrs_stamp:
  assumes "spaced A" and "addrs bs \<subseteq> A" and "distinct (map adr bs)" and "hdrs m q bs"
  shows "hdrs (if bs = [] then m else set_PrevSize (adr (hd bs)) p m) p bs"
proof (cases bs)
  case (Cons B cs)
  have B: "adr B \<in> A" "adr B \<notin> addrs cs" and cs: "addrs cs \<subseteq> A" using assms Cons by (auto simp: addrs_def)
  have "same_headers (addrs cs) m (set_PrevSize (adr B) p m)"
    using B cs by (auto simp: same_headers_def store_fields [OF assms(1) B(1)])
  from hdrs_cong [OF this] show ?thesis
    using assms(4) Cons by (simp add: hdr_def store_fields [OF assms(1) B(1) B(1)])
qed simp

subsection \<open>Finding the segment\<close>

lemma seg_words:
  assumes "ascending segs" and "i < length segs"
  shows "unat (Base (seg_entry segs i)) = lo (segs ! i)" and "unat (End (seg_entry segs i)) = hi (segs ! i)"
proof -
  have S: "seg_ok (segs ! i)" using assms by (auto simp: ascending_def)
  then have "hi (segs ! i) < 2 ^ 32" "lo (segs ! i) \<le> hi (segs ! i)"
    using tiles_le by (auto simp: seg_ok_def)
  then show "unat (Base (seg_entry segs i)) = lo (segs ! i)" "unat (End (seg_entry segs i)) = hi (segs ! i)"
    by (simp_all add: seg_entry_def unat_of_nat_u32)
qed

lemma segment_walk_down:
  assumes "heap_frame h segs" and "i < length segs" and "lo (segs ! i) \<le> unat b" and "unat b < hi (segs ! i)"
    and "i \<le> j" and "j < length segs"
  shows "segment_walk (HeapSegmentTable h) b (Some j) = Some (Some i)"
  using assms(5,6)
proof (induction "j - i" arbitrary: j)
  case 0
  then have "j = i" by simp
  have "HeapSegmentTable h ! i = seg_entry segs i" "ascending segs" using assms(1,2) by (simp_all add: heap_frame_def)
  with \<open>j = i\<close> assms seg_words [of segs i] show ?case
    by (subst segment_walk.simps) (simp add: word_le_nat_alt word_less_nat_alt)
next
  case (Suc n)
  then have ij: "i < j" by simp
  have t: "HeapSegmentTable h ! j = seg_entry segs j" "ascending segs"
    using assms(1) Suc.prems(2) by (simp_all add: heap_frame_def)
  then have "hi (segs ! i) \<le> lo (segs ! j)"
    using ij Suc.prems(2) by (auto simp: ascending_def sorted_wrt_iff_nth_less)
  then have "\<not> b \<ge> Base (HeapSegmentTable h ! j)"
    using seg_words(1) [OF t(2) Suc.prems(2)] assms(4) by (simp add: t(1) word_le_nat_alt)
  moreover have "SegNext (HeapSegmentTable h ! j) = Some (j - 1)" using ij by (simp add: t(1) seg_entry_def)
  moreover have "segment_walk (HeapSegmentTable h) b (Some (j - 1)) = Some (Some i)"
    using Suc.hyps(1) [of "j - 1"] Suc.hyps(2) Suc.prems ij by simp
  ultimately show ?case by (subst segment_walk.simps) simp
qed

lemma HeapFindSegment_law:
  assumes "heap_frame h (L @ S # R)" and "lo S \<le> unat b" and "unat b < hi S"
  shows "HeapFindSegment b h = Some (Some (length L))" and "unat (End (HeapSegmentTable h ! length L)) = hi S"
proof -
  let ?segs = "L @ S # R"
  have asc: "ascending ?segs" and n: "HeapSegments h = Some (length ?segs - 1)"
    and t: "HeapSegmentTable h ! length L = seg_entry ?segs (length L)"
    using assms(1) by (simp_all add: heap_frame_def)
  have "0 < lo S" using asc by (simp add: ascending_def seg_ok_def)
  then have "b \<noteq> 0" using assms(2) by auto
  then show "HeapFindSegment b h = Some (Some (length L))"
    using segment_walk_down [OF assms(1), of "length L" b "length ?segs - 1"] assms(2,3) n
    by (simp add: HeapFindSegment_def)
  show "unat (End (HeapSegmentTable h ! length L)) = hi S"
    using seg_words(2) [OF asc, of "length L"] t by simp
qed

lemma stamp_next_law:
  assumes "heap_frame h (L @ S # R)" and "lo S \<le> unat b" and "unat b < hi S"
  shows "stamp_next b nxt v h = Some (if unat nxt < hi S then h\<lparr>mem := set_PrevSize nxt v (mem h)\<rparr> else h)"
  using HeapFindSegment_law [OF assms] by (simp add: stamp_next_def word_less_nat_alt)

lemma hint_walk_bound:
  assumes "heap_frame h segs" and "j < length segs"
  shows "\<exists>hint. hint_walk (HeapSegmentTable h) (Some j) a = Some hint \<and> a \<le> hint \<and> (\<forall>i \<le> j. hi (segs ! i) \<le> unat hint) \<and>
    (hint = a \<or> (\<exists>i \<le> j. unat hint = hi (segs ! i)))"
  using assms(2)
proof (induction j arbitrary: a)
  case 0
  have t: "HeapSegmentTable h ! 0 = seg_entry segs 0" "ascending segs" using assms(1) 0 by (simp_all add: heap_frame_def)
  let ?e = "End (seg_entry segs 0)"
  have "SegNext (seg_entry segs 0) = None" by (simp add: seg_entry_def)
  then have "hint_walk (HeapSegmentTable h) (Some 0) a = Some (if ?e > a then ?e else a)"
    by (subst hint_walk.simps) (simp add: t(1) hint_walk.simps [of _ None])
  then show ?case
    using seg_words(2) [OF t(2) 0] by (auto simp: word_less_nat_alt word_le_nat_alt not_less)
next
  case (Suc j)
  have t: "HeapSegmentTable h ! Suc j = seg_entry segs (Suc j)" "ascending segs"
    using assms(1) Suc.prems by (simp_all add: heap_frame_def)
  let ?e = "End (seg_entry segs (Suc j))"
  let ?a = "if ?e > a then ?e else a"
  obtain hint where hint: "hint_walk (HeapSegmentTable h) (Some j) ?a = Some hint" "?a \<le> hint"
      "\<forall>i \<le> j. hi (segs ! i) \<le> unat hint" "hint = ?a \<or> (\<exists>i \<le> j. unat hint = hi (segs ! i))"
    using Suc.IH [of ?a] Suc.prems by auto
  have "SegNext (seg_entry segs (Suc j)) = Some j" by (simp add: seg_entry_def)
  then have "hint_walk (HeapSegmentTable h) (Some (Suc j)) a = Some hint"
    using hint(1) by (subst hint_walk.simps) (simp only: t(1) option.case)
  moreover have "hi (segs ! Suc j) \<le> unat hint" "a \<le> hint"
    using hint(2) seg_words(2) [OF t(2) Suc.prems] by (auto simp: word_le_nat_alt word_less_nat_alt split: if_splits)
  moreover have "hint = a \<or> (\<exists>i \<le> Suc j. unat hint = hi (segs ! i))"
    using hint(4) seg_words(2) [OF t(2) Suc.prems] by (auto split: if_splits intro: le_SucI)
  ultimately show ?case using hint(3) by (auto simp: le_Suc_eq)
qed

subsection \<open>Replacing blocks\<close>

lemma seg_entry_replace: "seg_entry (L @ (l, u, bs) # R) i = seg_entry (L @ (l, u, cs) # R) i"
proof -
  have "lo ((L @ (l, u, bs) # R) ! i) = lo ((L @ (l, u, cs) # R) ! i)"
    "hi ((L @ (l, u, bs) # R) ! i) = hi ((L @ (l, u, cs) # R) ! i)"
    by (simp_all add: nth_append nth_Cons' )
  then show ?thesis by (simp add: seg_entry_def)
qed

lemma ascending_replace:
  assumes "ascending (L @ (l, u, xs @ bs @ ys) # R)" and "\<And>a e. tiles a bs e \<Longrightarrow> tiles a cs e" and "cs \<noteq> []"
  shows "ascending (L @ (l, u, xs @ cs @ ys) # R)"
proof -
  have "tiles l (xs @ bs @ ys) u" using assms(1) by (auto simp: ascending_def seg_ok_def)
  then have "tiles l (xs @ cs @ ys) u" using assms(2) unfolding tiles_append by blast
  with assms(1,3) show ?thesis by (auto simp: ascending_def seg_ok_def sorted_wrt_append)
qed

lemma heap_frame_replace:
  assumes "heap_frame h (L @ (l, u, bs) # R)" and "ascending (L @ (l, u, cs) # R)"
    and "HeapSegments h' = HeapSegments h" "HeapSegmentTable h' = HeapSegmentTable h"
      "HeapSegmentCount h' = HeapSegmentCount h" "page_state h' = page_state h"
  shows "heap_frame h' (L @ (l, u, cs) # R)"
  using assms seg_entry_replace [of L l u bs R _ cs] by (simp add: heap_frame_def pages_kept_def)

lemma heap_hdrs_replace:
  assumes "heap_hdrs m (L @ (l, u, xs @ bs @ ys) # R)"
    and "same_headers (addrs (blocks L) \<union> addrs (blocks R) \<union> addrs xs) m m'"
    and "hdrs m' (last_size 0 xs) (cs @ ys)"
  shows "heap_hdrs m' (L @ (l, u, xs @ cs @ ys) # R)"
proof -
  have "hdrs m' 0 (blocks_of S)" if S: "S \<in> set L \<union> set R" for S
  proof -
    have "addrs (blocks_of S) \<subseteq> addrs (blocks L) \<union> addrs (blocks R)" using S by (auto simp: blocks_def addrs_def)
    then have "same_headers (addrs (blocks_of S)) m m'" using assms(2) by (auto simp: same_headers_def)
    from hdrs_cong [OF this] assms(1) S show ?thesis by (auto simp: heap_hdrs_def)
  qed
  moreover have "hdrs m' 0 xs"
  proof -
    have "same_headers (addrs xs) m m'" using assms(2) by (auto simp: same_headers_def)
    from hdrs_cong [OF this] assms(1) show ?thesis by (simp add: heap_hdrs_def hdrs_append)
  qed
  ultimately show ?thesis using assms(3) by (auto simp: heap_hdrs_def hdrs_append)
qed

lemma block_place:
  assumes "ascending (L @ (l, u, xs @ B # ys) # R)"
  shows "l \<le> unat (adr B)" "unat (adr B) < u" "unat (adr B) + unat (bsize B) \<le> u" "u < 2 ^ 32"
    "unat (adr B + bsize B) = unat (adr B) + unat (bsize B)"
    "unat (adr B + bsize B) < u \<longleftrightarrow> ys \<noteq> []" "ys \<noteq> [] \<Longrightarrow> adr (hd ys) = adr B + bsize B"
    "24 \<le> unat (bsize B)" "8 dvd unat (bsize B)"
proof -
  have t: "tiles l (xs @ B # ys) u" and u: "u < 2 ^ 32" using assms by (auto simp: ascending_def seg_ok_def)
  then show "l \<le> unat (adr B)" "unat (adr B) < u" "unat (adr B) + unat (bsize B) \<le> u" "24 \<le> unat (bsize B)"
    using tiles_bounds [OF t, of B] by auto
  show "u < 2 ^ 32" by (rule u)
  show e: "unat (adr B + bsize B) = unat (adr B) + unat (bsize B)"
    using tiles_bounds [OF t, of B] u by (simp add: unat_plus_if_size word_size)
  show "8 dvd unat (bsize B)" using t by (auto simp: tiles_append)
  show "unat (adr B + bsize B) < u \<longleftrightarrow> ys \<noteq> []"
  proof (cases ys)
    case Nil
    then show ?thesis using tiles_last [of l xs B u] t e by simp
  next
    case (Cons C cs)
    then show ?thesis using tiles_next [of l xs B C cs u] tiles_bounds [OF t, of C] t e by simp
  qed
  show "adr (hd ys) = adr B + bsize B" if ne: "ys \<noteq> []"
  proof -
    obtain C cs where C: "ys = C # cs" using ne by (cases ys) auto
    then have "unat (adr C) = unat (adr B + bsize B)" using tiles_next [of l xs B C cs u] t e by simp
    then show ?thesis using C by (auto intro: unsigned_word_eqI)
  qed
qed

end
