(* ===== verification/Heap_Edit.thy ===== *)
theory Heap_Edit
  imports Heap_Inv
begin

text \<open>
  The heap while it is being edited. \<open>joint\<close> describes a heap around one block \<open>B\<close>: everything is in
  order but the \<^verbatim>\<open>PrevSize\<close> of the block after \<open>B\<close>, which is \<open>q\<close>, and the free list, which is \<open>F\<close>. Every
  step of \<^verbatim>\<open>kmalloc\<close> and \<^verbatim>\<open>kfree\<close> is an edit of such a heap: setting the flag, stamping the next block,
  putting the block on the list, splitting it, and merging it with its neighbours.
\<close>

subsection \<open>Stores and what they leave alone\<close>

definition put_header :: "u32 \<Rightarrow> u32 \<Rightarrow> u32 \<Rightarrow> u32 \<Rightarrow> bool \<Rightarrow> memory \<Rightarrow> memory" where
  "put_header b g s p f m = set_IsFree b f (set_PrevSize b p (set_Size b s (set_Magic b g m)))"

definition same_nodes :: "u32 set \<Rightarrow> memory \<Rightarrow> memory \<Rightarrow> bool" where
  "same_nodes A m m' \<longleftrightarrow> (\<forall>c \<in> A. NodePrev m' c = NodePrev m c \<and> NodeNext m' c = NodeNext m c)"

lemma same_nodes_trans: "same_nodes A m m' \<Longrightarrow> same_nodes A m' m'' \<Longrightarrow> same_nodes A m m''"
  by (simp add: same_nodes_def)

lemma same_nodes_refl [simp]: "same_nodes A m m"
  by (simp add: same_nodes_def)

lemma put_header_fields:
  assumes "spaced A" and "b \<in> A" and "c \<in> A"
  shows "Magic (put_header b g s p f m) c = (if c = b then g else Magic m c)"
    "Size (put_header b g s p f m) c = (if c = b then s else Size m c)"
    "PrevSize (put_header b g s p f m) c = (if c = b then p else PrevSize m c)"
    "IsFree (put_header b g s p f m) c = (if c = b then f else IsFree m c)"
    "NodePrev (put_header b g s p f m) c = NodePrev m c" "NodeNext (put_header b g s p f m) c = NodeNext m c"
  by (simp_all add: put_header_def store_fields [OF assms])

lemma store_nodes:
  assumes "spaced A" and "b \<in> A"
  shows "same_nodes A m (set_Magic b v m)" "same_nodes A m (set_Size b v m)" "same_nodes A m (set_PrevSize b v m)"
    "same_nodes A m (set_IsFree b f m)" "same_nodes A m (put_header b g s p f m)"
  by (simp_all add: same_nodes_def store_fields [OF assms] put_header_fields [OF assms])

lemma store_away:
  assumes "spaced A" and "b \<in> A" and "X \<subseteq> A" and "b \<notin> X"
  shows "same_headers X m (set_Magic b v m)" "same_headers X m (set_Size b v m)" "same_headers X m (set_PrevSize b v m)"
    "same_headers X m (set_IsFree b f m)" "same_headers X m (put_header b g s p f m)"
proof -
  have c: "c \<in> A \<and> c \<noteq> b" if "c \<in> X" for c using assms that by auto
  show "same_headers X m (set_Magic b v m)" "same_headers X m (set_Size b v m)" "same_headers X m (set_PrevSize b v m)"
    "same_headers X m (set_IsFree b f m)" "same_headers X m (put_header b g s p f m)"
    using c by (simp_all add: same_headers_def store_fields [OF assms(1,2)] put_header_fields [OF assms(1,2)])
qed

lemma free_list_nodes:
  assumes "free_list h F" and "set F \<subseteq> A" and "same_nodes A (mem h) m'"
  shows "free_list (h\<lparr>mem := m'\<rparr>) F"
proof -
  have "links m' 0 F 0 = links (mem h) 0 F 0" using assms(2,3) by (intro links_cong) (auto simp: same_nodes_def)
  with assms(1) show ?thesis by (simp add: free_list_def)
qed

definition stamp :: "blk list \<Rightarrow> u32 \<Rightarrow> memory \<Rightarrow> memory" where
  "stamp bs p m = (if bs = [] then m else set_PrevSize (adr (hd bs)) p m)"

lemma stamp_hd: "bs \<noteq> [] \<Longrightarrow> adr (hd bs) \<in> addrs bs"
  by (simp add: addrs_def)

lemma stamp_nodes: "spaced A \<Longrightarrow> addrs bs \<subseteq> A \<Longrightarrow> same_nodes A m (stamp bs p m)"
  using stamp_hd [of bs] by (auto simp: stamp_def intro: store_nodes(3))

lemma stamp_away: "spaced A \<Longrightarrow> addrs bs \<subseteq> A \<Longrightarrow> X \<subseteq> A \<Longrightarrow> X \<inter> addrs bs = {} \<Longrightarrow> same_headers X m (stamp bs p m)"
  using stamp_hd [of bs] by (auto simp: stamp_def intro: store_away(3))

lemma heap_hdrs_cong: "same_headers (addrs (blocks segs)) m m' \<Longrightarrow> heap_hdrs m' segs = heap_hdrs m segs"
proof (induction segs)
  case (Cons S segs)
  then show ?case
    using hdrs_cong [of "blocks_of S" m m'] same_headers_subset [OF Cons.prems]
    by (simp add: heap_hdrs_def)
qed (simp add: heap_hdrs_def)

subsection \<open>A heap with one joint open\<close>

abbreviation around :: "segment list \<Rightarrow> nat \<Rightarrow> nat \<Rightarrow> blk list \<Rightarrow> blk \<Rightarrow> blk list \<Rightarrow> segment list \<Rightarrow> segment list" where
  "around L l u xs B ys R \<equiv> L @ (l, u, xs @ B # ys) # R"

definition joint :: "heap \<Rightarrow> segment list \<Rightarrow> nat \<Rightarrow> nat \<Rightarrow> blk list \<Rightarrow> blk \<Rightarrow> blk list \<Rightarrow> segment list \<Rightarrow> u32 list \<Rightarrow> u32 \<Rightarrow> bool" where
  "joint h L l u xs B ys R F q \<longleftrightarrow> heap_frame h (around L l u xs B ys R) \<and> heap_hdrs (mem h) (L @ R) \<and>
     hdrs (mem h) 0 (xs @ [B]) \<and> hdrs (mem h) q ys \<and> free_list h F \<and> set F \<subseteq> addrs (blocks (around L l u xs B ys R))"

lemma jointD:
  assumes "joint h L l u xs B ys R F q"
  shows "heap_frame h (around L l u xs B ys R)" "heap_hdrs (mem h) (L @ R)" "hdrs (mem h) 0 (xs @ [B])"
    "hdrs (mem h) q ys" "free_list h F" "set F \<subseteq> addrs (blocks (around L l u xs B ys R))"
    "ascending (around L l u xs B ys R)" "hdr (mem h) (last_size 0 xs) B" "Size (mem h) (adr B) = bsize B"
  using assms by (simp_all add: joint_def heap_frame_def hdrs_append hdr_def)

lemma joint_heap_ok:
  "heap_ok h (around L l u xs B ys R) \<longleftrightarrow> joint h L l u xs B ys R (free_addrs (blocks (around L l u xs B ys R))) (bsize B)"
  using free_addrs_sub [of "blocks (around L l u xs B ys R)"]
  by (auto simp: heap_ok_def joint_def heap_hdrs_def hdrs_append)

lemma around_addrs:
  assumes "ascending (around L l u xs B ys R)"
  shows "adr B \<notin> addrs (blocks (L @ R)) \<union> addrs xs \<union> addrs ys" "addrs ys \<inter> (addrs (blocks (L @ R)) \<union> addrs xs) = {}"
    "addrs xs \<inter> addrs (blocks (L @ R)) = {}" "distinct (map adr xs)" "distinct (map adr ys)"
  using addresses_distinct [OF assms] by (auto simp: addrs_def)

lemma joint_flag:
  assumes "joint h L l u xs B ys R F q"
  shows "joint (h\<lparr>mem := set_IsFree (adr B) v (set_Magic (adr B) HEAP_MAGIC (mem h))\<rparr>) L l u xs (Blk (adr B) (bsize B) v) ys R F q"
proof -
  note D = jointD [OF assms] and out = around_addrs [OF jointD(7) [OF assms]]
  define A where "A = addrs (blocks (around L l u xs B ys R))"
  define m1 where "m1 = set_Magic (adr B) HEAP_MAGIC (mem h)"
  define m2 where "m2 = set_IsFree (adr B) v m1"
  let ?C = "Blk (adr B) (bsize B) v"
  have sp: "spaced A" unfolding A_def by (rule blocks_spaced [OF D(7)])
  have in_A: "adr B \<in> A" "addrs (blocks (L @ R)) \<subseteq> A" "addrs xs \<subseteq> A" "addrs ys \<subseteq> A" by (auto simp: A_def)
  have same: "same_headers X (mem h) m2" if X: "X \<subseteq> A" "adr B \<notin> X" for X
    unfolding m1_def m2_def by (rule same_headers_trans; rule store_away [OF sp in_A(1) X])
  have asc: "ascending (around L l u xs ?C ys R)"
    using ascending_replace [of L l u xs "[B]" ys R "[?C]"] D(7) by auto
  have "heap_frame (h\<lparr>mem := m2\<rparr>) (around L l u xs ?C ys R)"
    by (rule heap_frame_replace [OF D(1) asc]) simp_all
  moreover have "heap_hdrs m2 (L @ R)" using heap_hdrs_cong [OF same, of "L @ R"] D(2) out(1) in_A(2) by simp
  moreover have "hdr m2 (last_size 0 xs) ?C"
    using D(8) by (simp add: hdr_def m1_def m2_def store_fields [OF sp in_A(1) in_A(1)])
  moreover have "hdrs m2 0 xs" using hdrs_cong [OF same, of xs] D(3) out(1) in_A(3) by (simp add: hdrs_append)
  moreover have "hdrs m2 q ys" using hdrs_cong [OF same, of ys] D(4) out(1) in_A(4) by simp
  moreover have "free_list (h\<lparr>mem := m2\<rparr>) F"
    unfolding m1_def m2_def
    by (rule free_list_nodes [OF D(5) D(6)]; rule same_nodes_trans; fold A_def; rule store_nodes [OF sp in_A(1)])
  ultimately show ?thesis using D(6) unfolding m1_def m2_def by (simp add: joint_def hdrs_append)
qed

lemma joint_stamp:
  assumes "joint h L l u xs B ys R F q"
  shows "returns (stamp_next (adr B) (adr B + bsize B) (bsize B) h) (\<lambda>h'. joint h' L l u xs B ys R F (bsize B))"
proof -
  note D = jointD [OF assms] and out = around_addrs [OF jointD(7) [OF assms]] and place = block_place [OF jointD(7) [OF assms]]
  define A where "A = addrs (blocks (around L l u xs B ys R))"
  define m1 where "m1 = stamp ys (bsize B) (mem h)"
  have sp: "spaced A" unfolding A_def by (rule blocks_spaced [OF D(7)])
  have in_A: "adr B \<in> A" "addrs (blocks (L @ R)) \<subseteq> A" "addrs xs \<subseteq> A" "addrs ys \<subseteq> A" by (auto simp: A_def)
  have same: "same_headers X (mem h) m1" if X: "X \<subseteq> A" "X \<inter> addrs ys = {}" for X
    unfolding m1_def by (rule stamp_away [OF sp in_A(4) X])
  have run: "stamp_next (adr B) (adr B + bsize B) (bsize B) h = Some (h\<lparr>mem := m1\<rparr>)"
    using stamp_next_law [OF D(1), of "adr B"] place(1,2,6,7) by (simp add: m1_def stamp_def)
  have "heap_frame (h\<lparr>mem := m1\<rparr>) (around L l u xs B ys R)" using D(1) by (simp add: heap_frame_def)
  moreover have "heap_hdrs m1 (L @ R)" using heap_hdrs_cong [OF same, of "L @ R"] D(2) out(2) in_A(2) by blast
  moreover have "hdrs m1 0 (xs @ [B])"
    using hdrs_cong [OF same, of "xs @ [B]"] D(3) out(1,2) in_A(1,3) by auto
  moreover have "hdrs m1 (bsize B) ys"
    using hdrs_stamp [OF sp in_A(4) out(5) D(4), of "bsize B"] by (simp add: m1_def stamp_def)
  moreover have "free_list (h\<lparr>mem := m1\<rparr>) F"
    unfolding m1_def by (rule free_list_nodes [OF D(5) D(6)]) (fold A_def, rule stamp_nodes [OF sp in_A(4)])
  ultimately show ?thesis using D(6) unfolding run by (simp add: joint_def)
qed

lemma joint_list_only:
  assumes "joint h L l u xs B ys R F q" and "list_only (addrs (blocks (around L l u xs B ys R))) h h'"
    and "free_list h' F'" and "set F' \<subseteq> addrs (blocks (around L l u xs B ys R))"
  shows "joint h' L l u xs B ys R F' q"
proof -
  note D = jointD [OF assms(1)] and same = list_only_fields [OF assms(2)]
  have sub: "addrs (blocks (L @ R)) \<subseteq> addrs (blocks (around L l u xs B ys R))"
    "addrs (xs @ [B]) \<subseteq> addrs (blocks (around L l u xs B ys R))" "addrs ys \<subseteq> addrs (blocks (around L l u xs B ys R))" by auto
  show ?thesis
    using D(1-4) same(1-4) assms(3,4) hdrs_cong [OF same_headers_subset [OF same(5) sub(2)]]
      hdrs_cong [OF same_headers_subset [OF same(5) sub(3)]] heap_hdrs_cong [OF same_headers_subset [OF same(5) sub(1)]]
    by (simp add: joint_def heap_frame_def)
qed

definition with_addr :: "u32 \<Rightarrow> u32 list \<Rightarrow> u32 list" where
  "with_addr b F = below b F @ b # beyond b F"

lemma set_with_addr [simp]: "set (with_addr b F) = insert b (set F)"
  using arg_cong [OF below_beyond, of set b F] by (auto simp: with_addr_def)

lemma joint_insert:
  assumes "joint h L l u xs B ys R F q" and "b \<in> addrs (blocks (around L l u xs B ys R))" and "b \<notin> set F"
  shows "returns (HeapListInsert b h) (\<lambda>h'. joint h' L l u xs B ys R (with_addr b F) q)"
proof -
  note D = jointD [OF assms(1)]
  have "b \<noteq> 0" using zero_not_block [OF D(7)] assms(2) by auto
  from HeapListInsert_law [OF blocks_spaced [OF D(7)] assms(2) D(6) this assms(3) D(5)]
  show ?thesis
  proof (rule returns_weaken, elim conjE)
    fix h'
    assume "free_list h' (below b F @ b # beyond b F)" "list_only (addrs (blocks (around L l u xs B ys R))) h h'"
    then show "joint h' L l u xs B ys R (with_addr b F) q"
      using joint_list_only [OF assms(1)] assms(2) D(6) unfolding with_addr_def [symmetric] by simp
  qed
qed

lemma joint_remove:
  assumes "joint h L l u xs B ys R (F @ b # G) q"
  shows "joint (HeapListRemove b h) L l u xs B ys R (F @ G) q"
proof -
  note D = jointD [OF assms]
  note R = HeapListRemove_law [OF blocks_spaced [OF D(7)] D(6) D(5)]
  show ?thesis by (rule joint_list_only [OF assms R(2) R(1)]) (use D(6) in auto)
qed

subsection \<open>Splitting\<close>

lemma tiles_pair:
  assumes "unat n \<le> unat (bsize B)" and "24 \<le> unat n" and "8 dvd unat n" and "24 \<le> unat (bsize B - n)"
    and "unat (adr B) + unat (bsize B) < 2 ^ 32" and "tiles a [B] e"
  shows "tiles a [Blk (adr B) n f, Blk (adr B + n) (bsize B - n) g] e"
proof -
  have d: "unat (bsize B - n) = unat (bsize B) - unat n" using assms(1) by (simp add: unat_sub word_le_nat_alt)
  have "unat (adr B + n) = unat (adr B) + unat n" using assms(1,5) by (simp add: unat_plus_if_size word_size)
  with assms d show ?thesis by (auto intro: dvd_diff_nat)
qed

text \<open>
  Cutting a block in two, as \<^verbatim>\<open>HeapSplit\<close> and the end of \<^verbatim>\<open>kfree\<close> do it: the second part gets a header, the
  block after it is stamped with \<open>v\<close>, the first part shrinks, and the second goes on the list.
\<close>

definition cut :: "u32 \<Rightarrow> u32 \<Rightarrow> u32 \<Rightarrow> heap \<Rightarrow> heap option" where
  "cut b n v h = do { let left = Size (mem h) b - n;
     h \<leftarrow> stamp_next b (b + n + left) v (h\<lparr>mem := put_header (b + n) HEAP_MAGIC left n True (mem h)\<rparr>);
     HeapListInsert (b + n) (h\<lparr>mem := set_Size b n (mem h)\<rparr>) }"

lemma joint_shift: "joint h L l u (xs @ [B]) C ys R F q \<Longrightarrow> q = bsize C \<Longrightarrow> joint h L l u xs B (C # ys) R F (bsize B)"
  by (auto simp: joint_def hdrs_append)

lemma joint_cut:
  assumes J: "joint h L l u xs B ys R F q" and n: "24 \<le> unat n" "8 dvd unat n" "unat n \<le> unat (bsize B)" "24 \<le> unat (bsize B - n)"
  defines "rest \<equiv> Blk (adr B + n) (bsize B - n) True"
  shows "returns (cut (adr B) n v h) (\<lambda>h'. joint h' L l u (xs @ [Blk (adr B) n (bfree B)]) rest ys R (with_addr (adr rest) F) v)"
proof -
  note D = jointD [OF J] and place = block_place [OF jointD(7) [OF J]]
  let ?b = "adr B" and ?left = "bsize B - n" and ?C = "Blk (adr B) n (bfree B)"
  define r where "r = ?b + n"
  have rest: "rest = Blk r ?left True" by (simp add: rest_def r_def)
  have asc: "ascending (around L l u (xs @ [?C]) rest ys R)"
    using ascending_replace [of L l u xs "[B]" ys R "[?C, rest]"] D(7) tiles_pair [OF n(3,1,2,4)] place(3,4)
    by (simp add: rest_def)
  note out = around_addrs [OF asc] and out0 = around_addrs [OF D(7)]
  define A where "A = addrs (blocks (around L l u (xs @ [?C]) rest ys R))"
  have sp: "spaced A" unfolding A_def by (rule blocks_spaced [OF asc])
  have in_A: "?b \<in> A" "r \<in> A" "addrs (blocks (L @ R)) \<subseteq> A" "addrs xs \<subseteq> A" "addrs ys \<subseteq> A"
    by (auto simp: A_def rest)
  have neq: "?b \<noteq> r" "r \<notin> addrs (blocks (L @ R)) \<union> addrs xs" "r \<notin> addrs ys" using out by (auto simp: rest addrs_def)
  define m1 where "m1 = put_header r HEAP_MAGIC ?left n True (mem h)"
  define m2 where "m2 = stamp ys v m1"
  define m3 where "m3 = set_Size ?b n m2"
  have same: "same_headers X (mem h) m3" if X: "X \<subseteq> A" "?b \<notin> X" "r \<notin> X" "X \<inter> addrs ys = {}" for X
    unfolding m1_def m2_def m3_def
    by (rule same_headers_trans [OF same_headers_trans], rule store_away(5) [OF sp in_A(2) X(1,3)],
        rule stamp_away [OF sp in_A(5) X(1,4)], rule store_away(2) [OF sp in_A(1) X(1,2)])
  have nodes: "same_nodes A (mem h) m3"
    unfolding m1_def m2_def m3_def
    by (rule same_nodes_trans [OF same_nodes_trans], rule store_nodes(5) [OF sp in_A(2)],
        rule stamp_nodes [OF sp in_A(5)], rule store_nodes(2) [OF sp in_A(1)])
  have heads: "hdr m3 (last_size 0 xs) ?C" "hdr m3 n rest"
  proof -
    have "same_headers {?b} (mem h) m1" unfolding m1_def by (rule store_away(5) [OF sp in_A(2)]) (use in_A neq in auto)
    moreover have "same_headers {?b, r} m1 m2"
      unfolding m2_def by (rule stamp_away [OF sp in_A(5)]) (use in_A neq out0 in auto)
    ultimately show "hdr m3 (last_size 0 xs) ?C" "hdr m3 n rest"
      using D(8) neq(1) in_A(1,2)
      by (simp_all add: hdr_def m3_def same_headers_def rest store_fields [OF sp in_A(1)] m1_def put_header_fields [OF sp in_A(2)])
  qed
  have ys: "hdrs m3 v ys"
  proof -
    have "same_headers (addrs ys) (mem h) m1" unfolding m1_def by (rule store_away(5) [OF sp in_A(2,5) neq(3)])
    then have "hdrs m1 q ys" using hdrs_cong D(4) by blast
    then have "hdrs m2 v ys" using hdrs_stamp [OF sp in_A(5) out0(5)] by (simp add: m2_def stamp_def)
    moreover have "same_headers (addrs ys) m2 m3" unfolding m3_def by (rule store_away(2) [OF sp in_A(1,5)]) (use out0(1) in simp)
    ultimately show ?thesis using hdrs_cong by blast
  qed
  let ?h = "h\<lparr>mem := m3\<rparr>"
  have F: "set F \<subseteq> A" using D(6) by (auto simp: A_def)
  have "joint ?h L l u (xs @ [?C]) rest ys R F v"
    unfolding joint_def
  proof (intro conjI)
    show "heap_frame ?h (around L l u (xs @ [?C]) rest ys R)" by (rule heap_frame_replace [OF D(1) asc]) simp_all
    have "same_headers (addrs (blocks (L @ R))) (mem h) m3"
      by (rule same) (use in_A(3) neq out0(1,2) in auto)
    from heap_hdrs_cong [OF this] D(2) show "heap_hdrs (mem ?h) (L @ R)" by simp
    have "same_headers (addrs xs) (mem h) m3" by (rule same) (use in_A(4) neq out0(1,2) in auto)
    from hdrs_cong [OF this] D(3) heads show "hdrs (mem ?h) 0 ((xs @ [?C]) @ [rest])" by (simp add: hdrs_append)
    show "hdrs (mem ?h) v ys" using ys by simp
    show "free_list ?h F" by (rule free_list_nodes [OF D(5) F nodes])
    show "set F \<subseteq> addrs (blocks (around L l u (xs @ [?C]) rest ys R))" using F by (simp add: A_def)
  qed
  moreover have "r \<notin> addrs (blocks (around L l u xs B ys R))" using neq by auto
  then have "r \<notin> set F" using D(6) by auto
  ultimately have ins: "returns (HeapListInsert r ?h) (\<lambda>h'. joint h' L l u (xs @ [?C]) rest ys R (with_addr r F) v)"
    by (intro joint_insert) (simp_all add: rest)
  have frame1: "heap_frame (h\<lparr>mem := m1\<rparr>) (around L l u xs B ys R)" using D(1) by (simp add: heap_frame_def)
  have after: "r + ?left = ?b + bsize B" by (simp add: r_def)
  have stamp: "stamp_next ?b (r + ?left) v (h\<lparr>mem := m1\<rparr>) = Some (h\<lparr>mem := m2\<rparr>)"
    using stamp_next_law [OF frame1, of ?b "?b + bsize B" v] place(1,2,6,7) unfolding after by (simp add: m2_def stamp_def)
  have "cut ?b n v h = HeapListInsert r ?h"
    using stamp unfolding cut_def D(9) Let_def r_def [symmetric] m1_def [symmetric] by (simp add: m3_def)
  with ins show ?thesis by (simp add: rest)
qed

lemma joint_split:
  assumes "joint h L l u xs B ys R F q" and "24 \<le> unat n" "8 dvd unat n" "unat n \<le> unat (bsize B)" and room: "24 \<le> unat (bsize B - n)"
  shows "returns (HeapSplit (adr B) n h) (\<lambda>h'.
    joint h' L l u xs (Blk (adr B) n (bfree B)) (Blk (adr B + n) (bsize B - n) True # ys) R (with_addr (adr B + n) F) n)"
proof -
  have "HeapSplit (adr B) n h = cut (adr B) n (bsize B - n) h"
    using room unfolding HeapSplit_def cut_def jointD(9) [OF assms(1)] put_header_def [symmetric]
    by (simp add: Let_def HEAP_ALIGN_def META_SIZE_def word_less_nat_alt)
  with joint_cut [OF assms, of "bsize B - n"] show ?thesis
    by (auto elim!: returns_weaken dest: joint_shift)
qed

subsection \<open>Taking a block\<close>

definition carve :: "u32 \<Rightarrow> blk \<Rightarrow> blk list" where
  "carve n B = (if unat (bsize B) - unat n < 24 then [Blk (adr B) (bsize B) False]
     else [Blk (adr B) n False, Blk (adr B + n) (bsize B - n) True])"

lemma joint_close:
  assumes "joint h L l u xs B ys R F (bsize B)" and "set F = set (free_addrs (blocks (around L l u xs B ys R)))"
  shows "heap_ok h (around L l u xs B ys R)"
  using assms free_list_unique [OF jointD(5,7) [OF assms(1)] assms(2)]
  by (simp add: joint_heap_ok joint_def free_addrs_sub)

lemma joint_finish:
  assumes "joint h L l u xs B ys R F q" and "set F = set (free_addrs (blocks (around L l u xs (Blk (adr B) (bsize B) v) ys R)))"
  shows "returns (stamp_next (adr B) (adr B + Size (set_IsFree (adr B) v (set_Magic (adr B) HEAP_MAGIC (mem h))) (adr B))
        (Size (set_IsFree (adr B) v (set_Magic (adr B) HEAP_MAGIC (mem h))) (adr B))
        (h\<lparr>mem := set_IsFree (adr B) v (set_Magic (adr B) HEAP_MAGIC (mem h))\<rparr>))
      (\<lambda>h'. heap_ok h' (around L l u xs (Blk (adr B) (bsize B) v) ys R))"
proof -
  note J = joint_flag [OF assms(1), of v]
  have sz: "Size (set_IsFree (adr B) v (set_Magic (adr B) HEAP_MAGIC (mem h))) (adr B) = bsize B"
    using jointD(9) [OF J] by simp
  show ?thesis
    unfolding sz using joint_stamp [OF J] assms(2) by (auto elim!: returns_weaken intro: joint_close)
qed

lemma kmalloc_take_law:
  assumes J: "joint h L l u xs B ys R F q" and F: "set F = set (free_addrs (blocks (L @ (l, u, xs @ ys) # R)))"
    and n: "24 \<le> unat n" "8 dvd unat n" "unat n \<le> unat (bsize B)"
  shows "returns (kmalloc_take n (adr B) h) (\<lambda>(p, h'). p = adr B + META_SIZE \<and> heap_ok h' (L @ (l, u, xs @ carve n B @ ys) # R))"
proof -
  note D = jointD [OF J]
  have d: "unat (bsize B - n) = unat (bsize B) - unat n" using n(3) by (simp add: unat_sub word_le_nat_alt)
  show ?thesis
  proof (cases "unat (bsize B) - unat n < 24")
    case True
    have "(if Size (mem h) (adr B) > n then HeapSplit (adr B) n h else Some (h\<lparr>mem := set_Size (adr B) n (mem h)\<rparr>)) = Some h"
    proof (cases "n < bsize B")
      case True
      with \<open>unat (bsize B) - unat n < 24\<close> show ?thesis
        by (simp add: D(9) HeapSplit_def Let_def HEAP_ALIGN_def META_SIZE_def word_less_nat_alt d)
    next
      case False
      then have "n = bsize B" using n(3) by (simp add: word_le_nat_alt [symmetric])
      then have "set_Size (adr B) n (mem h) = mem h" using D(9) by (auto simp: set_Size_def Size_def)
      with False show ?thesis by (simp add: D(9))
    qed
    with joint_finish [OF J, of False] F True show ?thesis
      by (auto simp: kmalloc_take_def carve_def elim!: returns_bind)
  next
    case False
    let ?rest = "Blk (adr B + n) (bsize B - n) True"
    have "n < bsize B" using False by (simp add: word_less_nat_alt)
    then have run: "(if Size (mem h) (adr B) > n then HeapSplit (adr B) n h else Some (h\<lparr>mem := set_Size (adr B) n (mem h)\<rparr>)) =
        HeapSplit (adr B) n h" by (simp add: D(9))
    have "returns (HeapSplit (adr B) n h) (\<lambda>h'. joint h' L l u xs (Blk (adr B) n (bfree B)) (?rest # ys) R (with_addr (adr B + n) F) n)"
      using joint_split [OF J n] False d by simp
    then show ?thesis
      unfolding kmalloc_take_def run
    proof (rule returns_bind)
      fix h1
      assume J1: "joint h1 L l u xs (Blk (adr B) n (bfree B)) (?rest # ys) R (with_addr (adr B + n) F) n"
      from joint_finish [OF this, of False] F False
      show "returns (let h = h1\<lparr>mem := set_IsFree (adr B) False (set_Magic (adr B) HEAP_MAGIC (mem h1))\<rparr>
         in stamp_next (adr B) (adr B + Size (mem h) (adr B)) (Size (mem h) (adr B)) h \<bind> (\<lambda>h. Some (adr B + META_SIZE, h)))
        (\<lambda>(p, h'). p = adr B + META_SIZE \<and> heap_ok h' (L @ (l, u, xs @ carve n B @ ys) # R))"
        by (auto simp: carve_def Let_def elim!: returns_bind)
    qed
  qed
qed

end
