(* ===== verification/Heap_Alloc.thy ===== *)
theory Heap_Alloc
  imports Heap_Edit
begin

text \<open>
  Allocation. \<open>malloc_spec\<close> says what \<^verbatim>\<open>kmalloc\<close> does to the abstract heap: it carves the first free
  block that is large enough, and if there is none it appends a segment and carves that. The
  code is shown to return and to compute exactly this.
\<close>

subsection \<open>The specification\<close>

fun fit_blocks :: "u32 \<Rightarrow> blk list \<Rightarrow> (u32 \<times> blk list) option" where
  "fit_blocks n [] = None"
| "fit_blocks n (B # bs) = (if bfree B \<and> n \<le> bsize B then Some (adr B, carve n B @ bs)
     else map_option (\<lambda>(a, cs). (a, B # cs)) (fit_blocks n bs))"

fun fit :: "u32 \<Rightarrow> segment list \<Rightarrow> (u32 \<times> segment list) option" where
  "fit n [] = None"
| "fit n ((l, u, bs) # segs) = (case fit_blocks n bs of
       Some (a, cs) \<Rightarrow> Some (a, (l, u, cs) # segs)
     | None \<Rightarrow> map_option (\<lambda>(a, segs'). (a, (l, u, bs) # segs')) (fit n segs))"

definition heap_top :: "segment list \<Rightarrow> nat" where
  "heap_top segs = (if segs = [] then 0 else hi (last segs))"

definition grow_spec :: "u32 \<Rightarrow> pages \<Rightarrow> segment list \<Rightarrow> (segment \<times> pages) option" where
  "grow_spec n ps segs =
     (if 8 \<le> length segs then None
      else (case PageAllocPagesAt (of_nat (heap_top segs)) n ps of (b, ps') \<Rightarrow>
        if b = 0 then None else Some ((unat b, unat b + unat n * 4096, [Blk b (n * PAGE_SIZE) True]), ps')))"

definition block_size :: "u32 \<Rightarrow> u32" where
  "block_size sz = HEAP_ALIGN_UP (sz + META_SIZE)"

definition malloc_spec :: "u32 \<Rightarrow> pages \<Rightarrow> segment list \<Rightarrow> u32 \<times> pages \<times> segment list" where
  "malloc_spec sz ps segs =
     (if sz = 0 \<or> unat sz + 24 > 2 ^ 32 - 1 then (0, ps, segs)
      else (case fit (block_size sz) segs of
          Some (a, segs') \<Rightarrow> (a + META_SIZE, ps, segs')
        | None \<Rightarrow> (case grow_spec ((block_size sz + PAGE_SIZE - 1) div PAGE_SIZE) ps segs of
              None \<Rightarrow> (0, ps, segs)
            | Some ((l, u, bs), ps') \<Rightarrow> (of_nat l + META_SIZE, ps', segs @ [(l, u, carve (block_size sz) (hd bs))]))))"

subsection \<open>First fit\<close>

lemma fit_blocks_Some:
  "fit_blocks n bs = Some (a, cs) \<Longrightarrow> \<exists>xs B ys. bs = xs @ B # ys \<and> bfree B \<and> n \<le> bsize B \<and> a = adr B \<and>
     cs = xs @ carve n B @ ys \<and> (\<forall>C \<in> set xs. \<not> (bfree C \<and> n \<le> bsize C))"
proof (induction bs arbitrary: cs)
  case (Cons B bs)
  show ?case
  proof (cases "bfree B \<and> n \<le> bsize B")
    case True
    then have "B # bs = [] @ B # bs \<and> bfree B \<and> n \<le> bsize B \<and> a = adr B \<and> cs = [] @ carve n B @ bs" using Cons.prems by simp
    then show ?thesis by (metis empty_iff empty_set)
  next
    case False
    then obtain ds where ds: "fit_blocks n bs = Some (a, ds)" "cs = B # ds" using Cons.prems by auto
    from Cons.IH [OF ds(1)] obtain xs C ys where "bs = xs @ C # ys" "bfree C" "n \<le> bsize C" "a = adr C"
      "ds = xs @ carve n C @ ys" "\<forall>D \<in> set xs. \<not> (bfree D \<and> n \<le> bsize D)" by blast
    then have "B # bs = (B # xs) @ C # ys \<and> bfree C \<and> n \<le> bsize C \<and> a = adr C \<and> cs = (B # xs) @ carve n C @ ys \<and>
        (\<forall>D \<in> set (B # xs). \<not> (bfree D \<and> n \<le> bsize D))" using False ds(2) by auto
    then show ?thesis by blast
  qed
qed simp

lemma fit_blocks_None: "fit_blocks n bs = None \<longleftrightarrow> (\<forall>C \<in> set bs. \<not> (bfree C \<and> n \<le> bsize C))"
  by (induction bs) auto

lemma fit_None: "fit n segs = None \<longleftrightarrow> (\<forall>C \<in> set (blocks segs). \<not> (bfree C \<and> n \<le> bsize C))"
proof (induction segs rule: fit.induct)
  case (2 n l u bs segs)
  then show ?case using fit_blocks_None [of n bs] by (cases "fit_blocks n bs") auto
qed simp

lemma fit_Some:
  "fit n segs = Some (a, segs') \<Longrightarrow> \<exists>L l u xs B ys R. segs = around L l u xs B ys R \<and> bfree B \<and> n \<le> bsize B \<and> a = adr B \<and>
     segs' = L @ (l, u, xs @ carve n B @ ys) # R \<and> (\<forall>C \<in> set (blocks L @ xs). \<not> (bfree C \<and> n \<le> bsize C))"
proof (induction n segs arbitrary: segs' rule: fit.induct)
  case (2 n l u bs segs)
  show ?case
  proof (cases "fit_blocks n bs")
    case (Some p)
    then obtain cs where cs: "fit_blocks n bs = Some (a, cs)" "segs' = (l, u, cs) # segs" using "2.prems" by (auto split: prod.splits)
    from fit_blocks_Some [OF cs(1)] obtain xs B ys where "bs = xs @ B # ys" "bfree B" "n \<le> bsize B" "a = adr B"
        "cs = xs @ carve n B @ ys" "\<forall>C \<in> set xs. \<not> (bfree C \<and> n \<le> bsize C)" by blast
    then have "(l, u, bs) # segs = around [] l u xs B ys segs \<and> bfree B \<and> n \<le> bsize B \<and> a = adr B \<and>
        segs' = [] @ (l, u, xs @ carve n B @ ys) # segs \<and> (\<forall>C \<in> set (blocks [] @ xs). \<not> (bfree C \<and> n \<le> bsize C))"
      using cs(2) by simp
    then show ?thesis by blast
  next
    case None
    then obtain ds where ds: "fit n segs = Some (a, ds)" "segs' = (l, u, bs) # ds" using "2.prems" by auto
    from "2.IH" [OF None ds(1)] obtain L l' u' xs B ys R where "segs = around L l' u' xs B ys R" "bfree B" "n \<le> bsize B" "a = adr B"
        "ds = L @ (l', u', xs @ carve n B @ ys) # R" "\<forall>C \<in> set (blocks L @ xs). \<not> (bfree C \<and> n \<le> bsize C)" by blast
    then have "(l, u, bs) # segs = around ((l, u, bs) # L) l' u' xs B ys R \<and> bfree B \<and> n \<le> bsize B \<and> a = adr B \<and>
        segs' = ((l, u, bs) # L) @ (l', u', xs @ carve n B @ ys) # R \<and>
        (\<forall>C \<in> set (blocks ((l, u, bs) # L) @ xs). \<not> (bfree C \<and> n \<le> bsize C))"
      using ds(2) None by (auto simp: fit_blocks_None)
    then show ?thesis by blast
  qed
qed simp

lemma header_size: "heap_hdrs m segs \<Longrightarrow> B \<in> set (blocks segs) \<Longrightarrow> Size m (adr B) = bsize B"
proof -
  assume h: "heap_hdrs m segs" and B: "B \<in> set (blocks segs)"
  then obtain S where S: "S \<in> set segs" "B \<in> set (blocks_of S)" by (auto simp: blocks_def)
  then obtain xs ys where "blocks_of S = xs @ B # ys" by (meson split_list)
  with h S(1) have "hdrs m 0 (xs @ B # ys)" by (metis heap_hdrs_def)
  then show ?thesis by (simp add: hdrs_append hdr_def)
qed

lemma HeapFindFree_fit:
  assumes ok: "heap_ok h segs"
  shows "(case fit n segs of
      None \<Rightarrow> HeapFindFree n h = Some (0, h)
    | Some (a, segs') \<Rightarrow> a \<noteq> 0 \<and> HeapFindFree n h = Some (a, HeapListRemove a h))"
proof -
  have fl: "free_list h (free_addrs (blocks segs))" and asc: "ascending segs" and hd: "heap_hdrs (mem h) segs"
    using ok by (simp_all add: heap_ok_def heap_frame_def)
  let ?P = "\<lambda>x. n \<le> Size (mem h) x"
  have walk: "free_walk (mem h) n (FreeListHead h) = Some (case find ?P (free_addrs (blocks segs)) of None \<Rightarrow> 0 | Some x \<Rightarrow> x)"
    using fl free_walk_find [of "mem h" 0] by (simp add: free_list_def)
  have sz: "Size (mem h) (adr B) = bsize B" if "B \<in> set (blocks segs)" for B by (rule header_size [OF hd that])
  show ?thesis
  proof (cases "fit n segs")
    case None
    then have "find ?P (free_addrs (blocks segs)) = None"
      using sz by (auto simp: fit_None find_None_iff free_addrs_def)
    with walk None show ?thesis by (simp add: HeapFindFree_def)
  next
    case (Some p)
    then obtain a segs' where p: "fit n segs = Some (a, segs')" by (cases p) auto
    from fit_Some [OF p] obtain L l u xs B ys R where
      s: "segs = around L l u xs B ys R" "bfree B" "n \<le> bsize B" "a = adr B"
        "\<forall>C \<in> set (blocks L @ xs). \<not> (bfree C \<and> n \<le> bsize C)" by blast
    have skip: "find ?P (xs @ ys) = find ?P ys" if "\<forall>x \<in> set xs. \<not> ?P x" for xs ys using that by (induction xs) auto
    have "\<forall>x \<in> set (free_addrs (blocks L @ xs)). \<not> ?P x"
      using s(5) sz unfolding s(1) by (fastforce simp: free_addrs_def)
    moreover have "free_addrs (blocks segs) = free_addrs (blocks L @ xs) @ adr B # free_addrs (ys @ blocks R)"
      using s(1,2) by simp
    ultimately have "find ?P (free_addrs (blocks segs)) = Some a"
      using skip s(3,4) sz [of B] by (simp add: s(1))
    moreover have "a \<noteq> 0" using zero_not_block [OF asc] s(1,4) by auto
    ultimately show ?thesis using walk p by (simp add: HeapFindFree_def)
  qed
qed

subsection \<open>What leaves the pages alone\<close>

lemma returns_also: "returns m P \<Longrightarrow> (\<And>x. m = Some x \<Longrightarrow> Q x) \<Longrightarrow> returns m (\<lambda>x. Q x \<and> P x)"
  by (auto simp: returns_def)

lemma HeapListInsert_pages: "HeapListInsert b h = Some h' \<Longrightarrow> page_state h' = page_state h"
  by (auto simp: HeapListInsert_def Let_def bind_eq_Some_conv split: if_splits)

lemma HeapListRemove_pages [simp]: "page_state (HeapListRemove b h) = page_state h"
  by (simp add: HeapListRemove_def Let_def)

lemma stamp_next_pages: "stamp_next b n v h = Some h' \<Longrightarrow> page_state h' = page_state h"
  by (auto simp: stamp_next_def bind_eq_Some_conv split: option.splits if_splits)

lemma HeapSplit_pages: "HeapSplit b n h = Some h' \<Longrightarrow> page_state h' = page_state h"
  by (auto simp: HeapSplit_def Let_def bind_eq_Some_conv dest!: HeapListInsert_pages stamp_next_pages split: if_splits)

lemma kmalloc_take_pages: "kmalloc_take n b h = Some (p, h') \<Longrightarrow> page_state h' = page_state h"
  by (auto simp: kmalloc_take_def Let_def bind_eq_Some_conv dest!: HeapSplit_pages stamp_next_pages split: if_splits)

subsection \<open>Growing\<close>

lemma heap_top_max:
  assumes "ascending segs" and "S \<in> set segs"
  shows "hi S \<le> heap_top segs"
proof (cases segs rule: rev_cases)
  case (snoc xs T)
  have "lo T \<le> hi T" using assms(1) snoc tiles_le by (auto simp: ascending_def seg_ok_def)
  with assms snoc show ?thesis by (auto simp: heap_top_def ascending_append)
qed (use assms in simp)

lemma HeapGrowthHint_law:
  assumes "heap_frame h segs"
  shows "HeapGrowthHint h = Some (of_nat (heap_top segs))" and "4096 dvd heap_top segs" and "heap_top segs < 2 ^ 32"
proof -
  have asc: "ascending segs" using assms by (simp add: heap_frame_def)
  have last: "seg_ok (last segs)" if "segs \<noteq> []" using asc last_in_set [OF that] by (simp add: ascending_def)
  then show d: "4096 dvd heap_top segs" and b: "heap_top segs < 2 ^ 32" by (auto simp: heap_top_def seg_ok_def)
  show "HeapGrowthHint h = Some (of_nat (heap_top segs))"
  proof (cases "segs = []")
    case True
    then show ?thesis using assms by (simp add: HeapGrowthHint_def heap_frame_def heap_top_def hint_walk.simps [of _ None])
  next
    case False
    let ?j = "length segs - 1"
    have j: "?j < length segs" "HeapSegments h = Some ?j" using False assms by (simp_all add: heap_frame_def)
    from hint_walk_bound [OF assms j(1), of 0] obtain hint where hint: "hint_walk (HeapSegmentTable h) (Some ?j) 0 = Some hint"
      "\<forall>i \<le> ?j. hi (segs ! i) \<le> unat hint" "hint = 0 \<or> (\<exists>i \<le> ?j. unat hint = hi (segs ! i))" by blast
    have top: "heap_top segs = hi (segs ! ?j)" using False by (simp add: heap_top_def last_conv_nth)
    have "hi (segs ! i) \<le> heap_top segs" if "i \<le> ?j" for i
      by (rule heap_top_max [OF asc]) (use that j(1) in simp)
    then have "unat hint \<le> heap_top segs" using hint(3) by auto
    then have "unat hint = heap_top segs" using hint(2) top by (metis le_antisym order_refl)
    then have "hint = of_nat (heap_top segs)" by (metis of_nat_unat ucast_id)
    with hint(1) j(2) show ?thesis by (simp add: HeapGrowthHint_def)
  qed
qed

text \<open>The run of pages the heap grows by lies above all segments, and below the last page.\<close>

lemma grow_run:
  assumes "pages_kept ps segs" and "4096 dvd heap_top segs" and "heap_top segs < 2 ^ 32"
    and "PageAllocPagesAt (of_nat (heap_top segs)) n ps = (b, ps')" and "b \<noteq> 0"
  shows "heap_top segs \<le> unat b" "4096 dvd unat b" "unat b + unat n * 4096 < 2 ^ 32" "0 < unat n"
    "pages_kept ps' (segs @ [(unat b, unat b + unat n * 4096, bs)])"
proof -
  have inv: "page_inv ps" "PAGE_COUNT - 1 \<notin> avail ps" using assms(1) by (simp_all add: pages_kept_def)
  note law = pg.alloc_law [OF inv(1) assms(4)]
  let ?run = "{unat b div 4096..<unat b div 4096 + unat n}"
  show dvd: "4096 dvd unat b" and n: "0 < unat n" using law assms(5) by (auto simp: unat_gt_0)
  have sub: "?run \<subseteq> avail ps" and av: "avail ps' = avail ps - ?run" and inv': "page_inv ps'" using law assms(5) by auto
  have n0: "n \<noteq> 0" using n by auto
  define s where "s = Min (free_runs ps (unat ((of_nat (heap_top segs) :: u32) div PAGE_SIZE)) (unat n))"
  have some: "free_runs ps (unat ((of_nat (heap_top segs) :: u32) div PAGE_SIZE)) (unat n) \<noteq> {}" and bs: "b = of_nat s * PAGE_SIZE"
    using PageAllocPagesAt_law [of ps n "of_nat (heap_top segs)"] inv(1) n0 assms(4,5)
    by (auto simp: page_inv_def s_def split: if_splits)
  have "unat ((of_nat (heap_top segs) :: u32) div PAGE_SIZE) = heap_top segs div 4096"
    using assms(3) by (simp add: unat_div PAGE_SIZE_def unat_of_nat_u32)
  then have s: "heap_top segs div 4096 \<le> s" "s + unat n \<le> PAGE_COUNT"
    using free_runs_Min [OF some, folded s_def] unfolding free_runs_def by auto
  have ub: "unat b = s * 4096" using page_addr [of s] s(2) n bs by simp
  show "heap_top segs \<le> unat b" using s(1) assms(2) ub by (metis dvd_div_mult_self mult_le_mono1)
  have "PAGE_COUNT - 1 \<in> avail ps" if "s + unat n = PAGE_COUNT"
    by (rule subsetD [OF sub]) (use that n ub in auto)
  then have "s + unat n \<noteq> PAGE_COUNT" using inv(2) by auto
  then show "unat b + unat n * 4096 < 2 ^ 32" using s(2) ub by (simp add: PAGE_COUNT_def)
  show "pages_kept ps' (segs @ [(unat b, unat b + unat n * 4096, bs)])"
    using assms(1) inv' av by (auto simp: pages_kept_def)
qed

lemma frame_grow:
  assumes "heap_frame h segs" and "length segs < 8" and "ascending (segs @ [T])" and "pages_kept ps (segs @ [T])"
    and "e = of_nat (hi T)" and "b = of_nat (lo T)"
  shows "heap_frame (h\<lparr>page_state := ps, mem := m, HeapSegmentCount := HeapSegmentCount h + 1,
      HeapSegmentTable := (HeapSegmentTable h)[unat (HeapSegmentCount h) := \<lparr>Base = b, End = e, SegNext = HeapSegments h\<rparr>],
      HeapSegments := Some (unat (HeapSegmentCount h))\<rparr>) (segs @ [T])"
proof -
  have n: "unat (HeapSegmentCount h) = length segs" using assms(1,2) by (simp add: heap_frame_def unat_of_nat_u32)
  have old: "seg_entry (segs @ [T]) i = seg_entry segs i" if "i < length segs" for i
    using that by (simp add: seg_entry_def nth_append)
  have new: "\<lparr>Base = b, End = e, SegNext = HeapSegments h\<rparr> = seg_entry (segs @ [T]) (length segs)"
    using assms(1,5,6) by (simp add: seg_entry_def heap_frame_def)
  show ?thesis
    using assms(1-4) unfolding heap_frame_def n new by (auto simp: less_Suc_eq old)
qed

lemma HeapGrow_law:
  assumes ok: "heap_ok h segs"
  shows "(case grow_spec n (page_state h) segs of
      None \<Rightarrow> HeapGrow n h = Some (0, h)
    | Some (T, ps) \<Rightarrow> returns (HeapGrow n h) (\<lambda>(b, h'). b \<noteq> 0 \<and> b = of_nat (lo T) \<and> page_state h' = ps \<and> heap_ok h' (segs @ [T])))"
proof -
  have frame: "heap_frame h segs" and hd: "heap_hdrs (mem h) segs" and fl: "free_list h (free_addrs (blocks segs))"
    using ok by (simp_all add: heap_ok_def)
  have count: "unat (HeapSegmentCount h) = length segs" using frame by (simp add: heap_frame_def unat_of_nat_u32)
  have cap: "HeapSegmentCount h \<ge> HEAP_SEGMENT_CAP \<longleftrightarrow> 8 \<le> length segs"
    using count by (simp add: word_le_nat_alt HEAP_SEGMENT_CAP_def)
  obtain b ps where al: "PageAllocPagesAt (of_nat (heap_top segs)) n (page_state h) = (b, ps)" by fastforce
  note hint = HeapGrowthHint_law [OF frame]
  have kept: "pages_kept (page_state h) segs" using frame by (simp add: heap_frame_def)
  show ?thesis
  proof (cases "8 \<le> length segs \<or> b = 0")
    case True
    have same: "ps = page_state h" if "b = 0"
      using pg.alloc_law [OF _ al] kept that by (simp add: pages_kept_def)
    show ?thesis
    proof (cases "8 \<le> length segs")
      case True
      then show ?thesis using cap by (simp add: grow_spec_def HeapGrow_def)
    next
      case False
      then have "b = 0" using \<open>8 \<le> length segs \<or> b = 0\<close> by simp
      then show ?thesis using False cap al hint(1) same by (simp add: grow_spec_def HeapGrow_def)
    qed
  next
    case False
    then have b0: "b \<noteq> 0" and len: "length segs < 8" by auto
    let ?T0 = "Blk b (n * PAGE_SIZE) True"
    define T where "T = (unat b, unat b + unat n * 4096, [?T0])"
    note run = grow_run(1-4) [OF kept hint(2,3) al b0] and kept' = grow_run(5) [OF kept hint(2,3) al b0, of "[?T0]", folded T_def]
    have sz: "unat (n * PAGE_SIZE) = unat n * 4096"
      using run(3) by (simp add: unat_word_ariths PAGE_SIZE_def)
    obtain k where "unat n = Suc k" using run(4) by (cases "unat n") auto
    then have seg: "seg_ok T"
      using run(1-3) b0 sz by (auto simp: T_def seg_ok_def unat_gt_0 intro: dvd_trans [of 8 4096])
    have asc0: "ascending segs" using frame by (simp add: heap_frame_def)
    have asc: "ascending (segs @ [T])"
      using asc0 seg heap_top_max [OF asc0] run(1) unfolding ascending_append
      by (auto simp: ascending_def T_def intro: le_trans)
    define m where "m = put_header b HEAP_MAGIC (n * PAGE_SIZE) 0 True (mem h)"
    define h1 where "h1 = h\<lparr>page_state := ps, mem := m, HeapSegmentCount := HeapSegmentCount h + 1,
      HeapSegmentTable := (HeapSegmentTable h)[unat (HeapSegmentCount h) :=
        \<lparr>Base = b, End = b + n * PAGE_SIZE, SegNext = HeapSegments h\<rparr>],
      HeapSegments := Some (unat (HeapSegmentCount h))\<rparr>"
    define A where "A = addrs (blocks (segs @ [T]))"
    have sp: "spaced A" and bA: "b \<in> A" and sub: "addrs (blocks segs) \<subseteq> A"
      using blocks_spaced [OF asc] by (auto simp: A_def T_def)
    have new: "b \<notin> addrs (blocks segs)" using around_addrs(1) [of segs "lo T" "hi T" "[]" ?T0 "[]" "[]"] asc by (simp add: T_def)
    have F: "set (free_addrs (blocks segs)) \<subseteq> A" using free_addrs_sub sub by blast
    have J: "joint h1 segs (lo T) (hi T) [] ?T0 [] [] (free_addrs (blocks segs)) (bsize ?T0)"
      unfolding joint_def
    proof (intro conjI)
      have e: "b + n * PAGE_SIZE = of_nat (hi T)" and a: "b = of_nat (lo T)"
        by (simp_all add: T_def PAGE_SIZE_def mult.commute)
      have "around segs (lo T) (hi T) [] ?T0 [] [] = segs @ [T]" by (simp add: T_def)
      then show "heap_frame h1 (around segs (lo T) (hi T) [] ?T0 [] [])"
        using frame_grow [OF frame len asc kept' e a, of m] unfolding h1_def by (simp only:)
      have "heap_hdrs m segs = heap_hdrs (mem h) segs"
        unfolding m_def by (rule heap_hdrs_cong) (rule store_away(5) [OF sp bA sub new])
      then show "heap_hdrs (mem h1) (segs @ [])" using hd by (simp add: h1_def)
      show "hdrs (mem h1) 0 ([] @ [?T0])"
        by (simp add: hdr_def h1_def m_def put_header_fields [OF sp bA bA])
      have "free_list (h\<lparr>mem := m\<rparr>) (free_addrs (blocks segs))"
        unfolding m_def by (rule free_list_nodes [OF fl F store_nodes(5) [OF sp bA]])
      then show "free_list h1 (free_addrs (blocks segs))" by (simp add: free_list_def h1_def)
      show "set (free_addrs (blocks segs)) \<subseteq> addrs (blocks (around segs (lo T) (hi T) [] ?T0 [] []))"
        using free_addrs_sub [of "blocks segs"] by auto
    qed simp
    have bF: "b \<notin> set (free_addrs (blocks segs))" using new free_addrs_sub by blast
    have ins: "returns (HeapListInsert b h1) (\<lambda>h'. page_state h' = ps \<and> heap_ok h' (segs @ [T]))"
    proof (rule returns_also)
      from joint_insert [OF J, of b] bF
      have "returns (HeapListInsert b h1) (\<lambda>h'. joint h' segs (lo T) (hi T) [] ?T0 [] [] (with_addr b (free_addrs (blocks segs))) (bsize ?T0))"
        by simp
      then show "returns (HeapListInsert b h1) (\<lambda>h'. heap_ok h' (segs @ [T]))"
        by (rule returns_weaken) (drule joint_close, simp_all add: T_def)
      show "page_state h' = ps" if "HeapListInsert b h1 = Some h'" for h'
        using HeapListInsert_pages [OF that] by (simp add: h1_def)
    qed
    have "Size m b = n * PAGE_SIZE" by (simp add: m_def put_header_fields [OF sp bA bA])
    then have "HeapGrow n h = HeapListInsert b h1 \<bind> (\<lambda>h. Some (b, h))"
      using cap len b0 hint(1) al unfolding HeapGrow_def put_header_def [symmetric]
      by (simp add: Let_def m_def h1_def)
    then show ?thesis
      using ins b0 len al by (auto simp: grow_spec_def T_def elim!: returns_bind)
  qed
qed

subsection \<open>The size of a block\<close>

lemma HEAP_ALIGN_UP_law:
  assumes "unat x + 7 < 2 ^ 32"
  shows "unat (HEAP_ALIGN_UP x) = (unat x + 7) div 8 * 8"
proof -
  have "HEAP_ALIGN_UP x = (x + 7) AND NOT (mask 3)" by (simp add: HEAP_ALIGN_UP_def HEAP_ALIGN_def mask_numeral)
  moreover have "unat (x + 7) = unat x + 7" using assms by (simp add: unat_plus_if_size word_size)
  moreover have "unat (push_bit 3 (drop_bit 3 (x + 7))) = unat (x + 7) div 8 * 8"
    using u32_less [of "x + 7"]
    by (simp add: push_bit_eq_mult drop_bit_eq_div unat_word_ariths unat_div)
  ultimately show ?thesis by (simp add: align_down)
qed

lemma block_size_law:
  assumes "sz \<noteq> 0" and "unat sz + 24 \<le> 2 ^ 32 - 1"
  shows "unat (block_size sz) = (unat sz + 23) div 8 * 8" "unat sz + 16 \<le> unat (block_size sz)"
    "unat (block_size sz) < unat sz + 24" "24 \<le> unat (block_size sz)" "8 dvd unat (block_size sz)"
proof -
  have "unat (sz + META_SIZE) = unat sz + 16" using assms(2) by (simp add: META_SIZE_def unat_plus_if_size word_size)
  then show eq: "unat (block_size sz) = (unat sz + 23) div 8 * 8"
    using HEAP_ALIGN_UP_law [of "sz + META_SIZE"] assms(2) by (simp add: block_size_def)
  have "0 < unat sz" using assms(1) by (simp add: unat_gt_0)
  then show "unat sz + 16 \<le> unat (block_size sz)" "unat (block_size sz) < unat sz + 24" "24 \<le> unat (block_size sz)"
    "8 dvd unat (block_size sz)" unfolding eq by presburger+
qed

subsection \<open>Allocation\<close>

lemma take_off_list:
  assumes ok: "heap_ok h (around L l u xs B ys R)" and B: "bfree B"
  shows "\<exists>F. joint (HeapListRemove (adr B) h) L l u xs B ys R F (bsize B) \<and> set F = set (free_addrs (blocks (L @ (l, u, xs @ ys) # R)))"
proof -
  let ?F = "free_addrs (blocks L @ xs)" and ?G = "free_addrs (ys @ blocks R)"
  have "joint h L l u xs B ys R (?F @ adr B # ?G) (bsize B)" using ok B by (simp add: joint_heap_ok)
  from joint_remove [OF this] show ?thesis by (intro exI [of _ "?F @ ?G"]) simp
qed

lemma kmalloc_takes:
  assumes "heap_ok h (around L l u xs B ys R)" and "bfree B" and "24 \<le> unat n" "8 dvd unat n" "n \<le> bsize B"
  shows "returns (kmalloc_take n (adr B) (HeapListRemove (adr B) h)) (\<lambda>(p, h'). page_state h' = page_state h \<and>
    p = adr B + META_SIZE \<and> heap_ok h' (L @ (l, u, xs @ carve n B @ ys) # R))"
proof -
  obtain F where "joint (HeapListRemove (adr B) h) L l u xs B ys R F (bsize B)" "set F = set (free_addrs (blocks (L @ (l, u, xs @ ys) # R)))"
    using take_off_list [OF assms(1,2)] by blast
  from kmalloc_take_law [OF this assms(3,4)] assms(5)
  have take: "returns (kmalloc_take n (adr B) (HeapListRemove (adr B) h))
      (\<lambda>(p, h'). p = adr B + META_SIZE \<and> heap_ok h' (L @ (l, u, xs @ carve n B @ ys) # R))"
    by (simp add: word_le_nat_alt)
  have "page_state (snd x) = page_state h" if "kmalloc_take n (adr B) (HeapListRemove (adr B) h) = Some x" for x
    using that kmalloc_take_pages [of n "adr B" "HeapListRemove (adr B) h" "fst x" "snd x"] by simp
  from returns_also [OF take this] show ?thesis by (rule returns_weaken) auto
qed

lemma grow_fits:
  assumes "heap_ok h (segs @ [(l, u, bs)])" and "grow_spec ((n + PAGE_SIZE - 1) div PAGE_SIZE) ps segs = Some ((l, u, bs), ps')"
  shows "\<exists>B. bs = [B] \<and> bfree B \<and> n \<le> bsize B \<and> adr B = of_nat l"
proof -
  let ?k = "(n + PAGE_SIZE - 1) div PAGE_SIZE"
  obtain b where b: "bs = [Blk b (?k * PAGE_SIZE) True]" "l = unat b" "u = unat b + unat ?k * 4096" "b \<noteq> 0"
    using assms(2) by (auto simp: grow_spec_def split: if_splits prod.splits)
  have u: "u < 2 ^ 32" "24 \<le> unat (?k * PAGE_SIZE)"
    using assms(1) b(1) by (auto simp: heap_ok_def heap_frame_def ascending_append ascending_def seg_ok_def)
  have "n + PAGE_SIZE - 1 = n + 4095" by (simp add: PAGE_SIZE_def)
  then have k: "unat ?k = unat (n + 4095) div 4096" by (simp only: unat_div) (simp add: PAGE_SIZE_def)
  have "unat (?k * PAGE_SIZE) = unat ?k * 4096" using u(1) b(3) by (simp add: unat_word_ariths PAGE_SIZE_def)
  moreover have "unat n \<le> unat (n + 4095) div 4096 * 4096"
  proof (cases "unat n + 4095 < 2 ^ 32")
    case True
    then have "unat (n + 4095) = unat n + 4095" by (simp add: unat_plus_if_size word_size)
    then show ?thesis
      using div_mult_mod_eq [of "unat n + 4095" 4096] mod_less_divisor [of 4096 "unat n + 4095"] by linarith
  next
    case False
    then have "unat (n + 4095) = unat n + 4095 - 2 ^ 32" by (simp add: unat_plus_if_size word_size)
    then have "unat (n + 4095) div 4096 = 0" using u32_less [of n] by simp
    then show ?thesis using u(2) calculation k by simp
  qed
  ultimately have "n \<le> ?k * PAGE_SIZE" using k by (simp add: word_le_nat_alt)
  then show ?thesis using b by simp
qed

lemma kmalloc_refines:
  assumes ok: "heap_ok h segs"
  shows "returns (kmalloc sz h) (\<lambda>(p, h'). \<exists>segs'. malloc_spec sz (page_state h) segs = (p, page_state h', segs') \<and> heap_ok h' segs')"
proof (cases "sz = 0 \<or> unat sz + 24 > 2 ^ 32 - 1")
  case True
  then have "sz = 0 \<or> sz > (- 1) - META_SIZE - HEAP_ALIGN" by (simp add: word_less_nat_alt META_SIZE_def HEAP_ALIGN_def)
  with True ok show ?thesis by (auto simp: kmalloc_def malloc_spec_def)
next
  case False
  define n where "n = block_size sz"
  have n: "24 \<le> unat n" "8 dvd unat n" using block_size_law [of sz] False by (simp_all add: n_def)
  have go: "\<not> sz > (- 1) - META_SIZE - HEAP_ALIGN" "sz \<noteq> 0"
    using False by (simp_all add: word_less_nat_alt META_SIZE_def HEAP_ALIGN_def)
  show ?thesis
  proof (cases "fit n segs")
    case (Some r)
    then obtain a segs' where fit: "fit n segs = Some (a, segs')" by (cases r) auto
    from fit_Some [OF this] obtain L l u xs B ys R where s: "segs = around L l u xs B ys R" "bfree B" "n \<le> bsize B"
      "a = adr B" "segs' = L @ (l, u, xs @ carve n B @ ys) # R" by blast
    have find: "a \<noteq> 0" "HeapFindFree n h = Some (a, HeapListRemove a h)" using HeapFindFree_fit [OF ok, of n] fit by simp_all
    have "kmalloc sz h = kmalloc_take n a (HeapListRemove a h)"
      using find go by (simp add: kmalloc_def n_def [symmetric] block_size_def [symmetric])
    with kmalloc_takes [OF ok [unfolded s(1)] s(2) n s(3)] show ?thesis
      using fit go s(4,5) False by (auto simp: malloc_spec_def n_def [symmetric] elim!: returns_weaken)
  next
    case None
    then have find: "HeapFindFree n h = Some (0, h)" using HeapFindFree_fit [OF ok, of n] by simp
    let ?k = "(n + PAGE_SIZE - 1) div PAGE_SIZE"
    have run: "kmalloc sz h = HeapGrow ?k h \<bind> (\<lambda>(b, h). if b = 0 then Some (0, h) else kmalloc_take n b (HeapListRemove b h))"
      using find go by (simp add: kmalloc_def n_def [symmetric] block_size_def [symmetric])
    show ?thesis
    proof (cases "grow_spec ?k (page_state h) segs")
      case None
      then have "HeapGrow ?k h = Some (0, h)" using HeapGrow_law [OF ok, of ?k] by simp
      then show ?thesis
        using None \<open>fit n segs = None\<close> False ok by (simp add: run malloc_spec_def n_def [symmetric])
    next
      case (Some r)
      then obtain l u bs ps where g: "grow_spec ?k (page_state h) segs = Some ((l, u, bs), ps)" by (metis prod.collapse)
      have grow: "returns (HeapGrow ?k h) (\<lambda>(b, h'). b \<noteq> 0 \<and> b = of_nat l \<and> page_state h' = ps \<and> heap_ok h' (segs @ [(l, u, bs)]))"
        using HeapGrow_law [OF ok, of ?k] g by simp
      have spec: "malloc_spec sz (page_state h) segs = (of_nat l + META_SIZE, ps, segs @ [(l, u, carve n (hd bs))])"
        using g \<open>fit n segs = None\<close> False by (simp add: malloc_spec_def n_def [symmetric])
      show ?thesis
        unfolding run
      proof (rule returns_bind [OF grow], clarify)
        fix h'
        assume h': "(of_nat l :: u32) \<noteq> 0" "ps = page_state h'" "heap_ok h' (segs @ [(l, u, bs)])"
        obtain B where B: "bs = [B]" "bfree B" "n \<le> bsize B" "adr B = of_nat l" using grow_fits [OF h'(3) g] by blast
        have "heap_ok h' (around segs l u [] B [] [])" using h'(3) B(1) by simp
        from kmalloc_takes [OF this B(2) n B(3)] h'(1,2) spec B
        show "returns (if of_nat l = (0 :: u32) then Some (0, h') else kmalloc_take n (of_nat l) (HeapListRemove (of_nat l) h'))
            (\<lambda>(p, h'). \<exists>segs'. malloc_spec sz (page_state h) segs = (p, page_state h', segs') \<and> heap_ok h' segs')"
          by (auto elim!: returns_weaken)
      qed
    qed
  qed
qed

end
