(* ===== verification/Heap_Free.thy ===== *)
theory Heap_Free
  imports Heap_Alloc
begin

text \<open>
  Release. A used block is merged with its free neighbours and put on the free list. The end of
  \<^verbatim>\<open>kfree\<close>, which gives pages back, is a no-operation for blocks that are not larger than what is kept or that
  end their segment; where it does act, its effect is stated as it is.
\<close>

subsection \<open>Absorbing the next block\<close>

lemma tiles_join:
  assumes "unat (adr X) + unat (bsize X) + unat (bsize Y) < 2 ^ 32" and "tiles a [X, Y] e"
  shows "tiles a [Blk (adr X) (bsize X + bsize Y) f] e"
proof -
  have "unat (bsize X + bsize Y) = unat (bsize X) + unat (bsize Y)" using assms(1) by (simp add: unat_plus_if_size word_size)
  with assms(2) show ?thesis by auto
qed

lemma joint_absorb:
  assumes J: "joint h L l u xs X (Y # ys) R F q" and Y: "adr Y \<notin> set F"
  shows "joint (h\<lparr>mem := wipe (adr Y) (set_Size (adr X) (bsize X + bsize Y) (mem h))\<rparr>)
    L l u xs (Blk (adr X) (bsize X + bsize Y) (bfree X)) ys R F (bsize Y)"
proof -
  note D = jointD [OF J] and out = around_addrs [OF jointD(7) [OF J]]
  let ?x = "adr X" and ?y = "adr Y" and ?C = "Blk (adr X) (bsize X + bsize Y) (bfree X)"
  have pl: "unat ?y + unat (bsize Y) < 2 ^ 32" "unat ?y = unat ?x + unat (bsize X)"
    using block_place [of L l u "xs @ [X]" Y ys R] D(7) tiles_next [of l xs X Y ys u]
    by (auto simp: ascending_def seg_ok_def)
  have asc: "ascending (around L l u xs ?C ys R)"
    using ascending_replace [of L l u xs "[X, Y]" ys R "[?C]"] D(7) tiles_join pl by auto
  define A where "A = addrs (blocks (around L l u xs X (Y # ys) R))"
  have sp: "spaced A" unfolding A_def by (rule blocks_spaced [OF D(7)])
  have in_A: "?x \<in> A" "?y \<in> A" "addrs (blocks (L @ R)) \<subseteq> A" "addrs xs \<subseteq> A" "addrs ys \<subseteq> A" by (auto simp: A_def)
  have neq: "?x \<noteq> ?y" "?y \<notin> addrs (blocks (L @ R)) \<union> addrs xs" "?y \<notin> addrs ys" using out by (auto simp: addrs_def)
  define m1 where "m1 = set_Size ?x (bsize X + bsize Y) (mem h)"
  define m2 where "m2 = put_header ?y 0 0 0 False m1"
  have same: "same_headers Z (mem h) m2" if Z: "Z \<subseteq> A" "?x \<notin> Z" "?y \<notin> Z" for Z
    unfolding m1_def m2_def
    by (rule same_headers_trans [OF store_away(2) [OF sp in_A(1) Z(1,2)] store_away(5) [OF sp in_A(2) Z(1,3)]])
  have nodes: "same_nodes A (mem h) m2"
    unfolding m1_def m2_def by (rule same_nodes_trans [OF store_nodes(2) [OF sp in_A(1)] store_nodes(5) [OF sp in_A(2)]])
  have head: "hdr m2 (last_size 0 xs) ?C"
    using D(8) neq(1) in_A(1,2)
    by (simp add: hdr_def m1_def m2_def put_header_fields [OF sp in_A(2)] store_fields [OF sp in_A(1)])
  have m2: "wipe ?y (set_Size ?x (bsize X + bsize Y) (mem h)) = m2" by (simp add: wipe_def m1_def m2_def put_header_def)
  show ?thesis
    unfolding joint_def m2
  proof (intro conjI)
    show "heap_frame (h\<lparr>mem := m2\<rparr>) (around L l u xs ?C ys R)" by (rule heap_frame_replace [OF D(1) asc]) simp_all
    have "same_headers (addrs (blocks (L @ R))) (mem h) m2" by (rule same) (use in_A(3) neq out(1) in auto)
    from heap_hdrs_cong [OF this] D(2) show "heap_hdrs (mem (h\<lparr>mem := m2\<rparr>)) (L @ R)" by simp
    have "same_headers (addrs xs) (mem h) m2" by (rule same) (use in_A(4) neq out(1) in auto)
    from hdrs_cong [OF this] D(3) head show "hdrs (mem (h\<lparr>mem := m2\<rparr>)) 0 (xs @ [?C])" by (simp add: hdrs_append)
    have "same_headers (addrs ys) (mem h) m2" by (rule same) (use in_A(5) neq out(1) in auto)
    from hdrs_cong [OF this] D(4) show "hdrs (mem (h\<lparr>mem := m2\<rparr>)) (bsize Y) ys" by simp
    show "free_list (h\<lparr>mem := m2\<rparr>) F" by (rule free_list_nodes [OF D(5) D(6)]) (fold A_def, rule nodes)
    show "set F \<subseteq> addrs (blocks (around L l u xs ?C ys R))" using D(6) Y by auto
  qed
qed

subsection \<open>The two merges\<close>

definition join_left :: "blk list \<Rightarrow> blk \<Rightarrow> blk list \<times> blk" where
  "join_left xs B = (if xs \<noteq> [] \<and> bfree (last xs)
     then (butlast xs, Blk (adr (last xs)) (bsize (last xs) + bsize B) True) else (xs, B))"

definition join_right :: "blk \<Rightarrow> blk list \<Rightarrow> blk \<times> blk list" where
  "join_right B ys = (if ys \<noteq> [] \<and> bfree (hd ys)
     then (Blk (adr B) (bsize B + bsize (hd ys)) (bfree B), tl ys) else (B, ys))"

lemma merge_left_law:
  assumes J: "joint h L l u xs B ys R F (bsize B)" and B: "adr B \<notin> set F" and join: "join_left xs B = (xs', B')"
  shows "\<exists>h'. merge_left (adr B) h = (adr B', xs' \<noteq> xs, h') \<and> joint h' L l u xs' B' ys R F (bsize B) \<and> page_state h' = page_state h"
proof (cases xs rule: rev_cases)
  case Nil
  then show ?thesis using J join jointD(8) [OF J] by (auto simp: join_left_def merge_left_def hdr_def)
next
  case (snoc zs X)
  have J': "joint h L l u zs X (B # ys) R F (bsize X)" using J snoc by (auto intro: joint_shift)
  have X: "Magic (mem h) (adr X) = HEAP_MAGIC" "IsFree (mem h) (adr X) = bfree X" "Size (mem h) (adr X) = bsize X"
    using jointD(8) [OF J'] by (simp_all add: hdr_def)
  have p: "PrevSize (mem h) (adr B) = bsize X" "Size (mem h) (adr B) = bsize B"
    using jointD(8) [OF J] snoc by (simp_all add: hdr_def)
  have "adr B = adr X + bsize X" using block_place(7) [OF jointD(7) [OF J']] by simp
  then have left: "adr B - bsize X = adr X" by simp
  have nz: "bsize X \<noteq> 0" using block_place(8) [OF jointD(7) [OF J']] by auto
  show ?thesis
  proof (cases "bfree X")
    case True
    then have xb: "xs' = zs" "B' = Blk (adr X) (bsize X + bsize B) (bfree X)" using join snoc by (auto simp: join_left_def)
    show ?thesis
      using joint_absorb [OF J' B] True by (auto simp: merge_left_def p left nz X xb snoc Let_def)
  next
    case False
    then have "merge_left (adr B) h = (adr B, False, h)" by (simp add: merge_left_def p left nz X Let_def)
    moreover have "xs' = xs" "B' = B" using False join snoc by (auto simp: join_left_def)
    ultimately show ?thesis using J by simp
  qed
qed

lemma merge_right_law:
  assumes J: "joint h L l u xs B ys R F q" and q: "ys \<noteq> [] \<Longrightarrow> bfree (hd ys) \<Longrightarrow> adr (hd ys) \<in> set F"
    and join: "join_right B ys = (B', ys')"
  shows "returns (merge_right (adr B) h) (\<lambda>h'. page_state h' = page_state h \<and>
    (\<exists>F' q'. joint h' L l u xs B' ys' R F' q' \<and> set F' = set F - (if ys' = ys then {} else {adr (hd ys)})))"
proof -
  note D = jointD [OF J] and place = block_place [OF jointD(7) [OF J]]
  note seg = HeapFindSegment_law [OF D(1), of "adr B", simplified, OF place(1,2)]
  have inside: "adr B + bsize B < End (HeapSegmentTable h ! length L) \<longleftrightarrow> ys \<noteq> []"
    using place(6) seg(2) by (simp add: word_less_nat_alt)
  show ?thesis
  proof (cases "ys \<noteq> [] \<and> bfree (hd ys)")
    case False
    have "ys \<noteq> [] \<Longrightarrow> \<not> IsFree (mem h) (adr B + bsize B)"
      using False D(4) place(7) by (cases ys) (auto simp: hdr_def)
    then have "merge_right (adr B) h = Some h" using seg(1) inside by (auto simp: merge_right_def D(9) Let_def)
    moreover have "B' = B" "ys' = ys" using False join by (auto simp: join_right_def)
    ultimately show ?thesis using J by auto
  next
    case True
    then obtain Y zs where ys: "ys = Y # zs" "bfree Y" by (cases ys) auto
    have y: "adr B + bsize B = adr Y" using place(7) ys by simp
    obtain F1 F2 where F: "F = F1 @ adr Y # F2" using q ys by (auto dest: split_list)
    have dist: "distinct F" using D(5) sorted_less_distinct by (auto simp: free_list_def)
    have J1: "joint (HeapListRemove (adr Y) h) L l u xs B (Y # zs) R (F1 @ F2) q"
      using joint_remove J unfolding F ys(1) by blast
    have Y: "IsFree (mem h) (adr Y)" "Size (mem h) (adr Y) = bsize Y" using D(4) ys by (simp_all add: hdr_def)
    define h' where "h' = (HeapListRemove (adr Y) h)\<lparr>mem :=
      wipe (adr Y) (set_Size (adr B) (bsize B + bsize Y) (mem (HeapListRemove (adr Y) h)))\<rparr>"
    have "merge_right (adr B) h = Some h'"
      using seg(1) inside ys(1) Y by (simp add: merge_right_def D(9) y Let_def h'_def jointD(9) [OF J1])
    moreover have "joint h' L l u xs B' ys' R (F1 @ F2) (bsize Y)"
      using joint_absorb [OF J1] dist F join ys unfolding h'_def by (auto simp: join_right_def)
    moreover have "ys' = zs" using join ys by (auto simp: join_right_def)
    ultimately show ?thesis using F dist ys(1) by (auto simp: h'_def intro!: exI [of _ "F1 @ F2"])
  qed
qed

subsection \<open>Releasing a block\<close>

definition merged :: "blk list \<Rightarrow> blk \<Rightarrow> blk list \<Rightarrow> blk list \<times> blk \<times> blk list" where
  "merged xs B ys = (let (xs', B') = join_left xs B; (C, ys') = join_right B' ys
     in (xs', Blk (adr C) (bsize C) True, ys'))"

text \<open>\<^verbatim>\<open>kfree\<close> up to the point where it considers giving pages back.\<close>

definition put_back :: "u32 \<Rightarrow> heap \<Rightarrow> (u32 \<times> heap) option" where
  "put_back b h = do { let (b, merged_left, h) = merge_left b h;
     h \<leftarrow> merge_right b h;
     h \<leftarrow> stamp_next b (b + Size (mem h) b) (Size (mem h) b) h;
     let h = h\<lparr>mem := set_IsFree b True (mem h)\<rparr>;
     h \<leftarrow> (if \<not> merged_left then HeapListInsert b h else Some h);
     Some (b, h) }"

lemma kfree_put_back:
  "kfree addr h = (if Magic (mem h) (addr - META_SIZE) \<noteq> HEAP_MAGIC \<or> IsFree (mem h) (addr - META_SIZE) then Some h
     else put_back (addr - META_SIZE) h \<bind> (\<lambda>(b, h). give_back b h))"
  by (simp add: kfree_def put_back_def Let_def split: prod.split)

lemma set_Magic_idem: "Magic m b = v \<Longrightarrow> set_Magic b v m = m"
  by (auto simp: Magic_def set_Magic_def)

lemma join_left_free:
  assumes "join_left xs B = (xs', B')"
  shows "set (free_addrs xs) = set (free_addrs xs') \<union> (if xs' \<noteq> xs then {adr B'} else {})"
    and "addrs xs' \<union> {adr B'} \<subseteq> addrs xs \<union> {adr B}"
proof -
  have "xs' \<noteq> xs \<longleftrightarrow> xs \<noteq> [] \<and> bfree (last xs)" using assms by (cases xs rule: rev_cases) (auto simp: join_left_def split: if_splits)
  then consider (join) zs X where "xs = zs @ [X]" "bfree X" "xs' = zs" "adr B' = adr X" "xs' \<noteq> xs" | (none) "xs' = xs" "B' = B"
    using assms by (cases xs rule: rev_cases) (auto simp: join_left_def split: if_splits)
  then show "set (free_addrs xs) = set (free_addrs xs') \<union> (if xs' \<noteq> xs then {adr B'} else {})"
    and "addrs xs' \<union> {adr B'} \<subseteq> addrs xs \<union> {adr B}"
    by (cases; simp; blast?)+
qed

lemma join_right_free:
  assumes "join_right B ys = (B', ys')"
  shows "set (free_addrs ys) = (if ys' \<noteq> ys then {adr (hd ys)} else {}) \<union> set (free_addrs ys')"
    and "adr B' = adr B" and "bfree B' = bfree B" and "ys' \<noteq> ys \<Longrightarrow> ys = hd ys # ys'"
proof -
  consider (join) Y zs where "ys = Y # zs" "bfree Y" "ys' = zs" "adr B' = adr B" "bfree B' = bfree B" | (none) "ys' = ys" "B' = B"
    using assms by (cases ys) (auto simp: join_right_def split: if_splits)
  then show "set (free_addrs ys) = (if ys' \<noteq> ys then {adr (hd ys)} else {}) \<union> set (free_addrs ys')"
    and "adr B' = adr B" and "bfree B' = bfree B" and "ys' \<noteq> ys \<Longrightarrow> ys = hd ys # ys'"
    by (cases; simp)+
qed

lemma merged_free:
  assumes asc: "ascending (around L l u xs B ys R)" and used: "\<not> bfree B"
    and left: "join_left xs B = (xs', B1)" and right: "join_right B1 ys = (B2, ys')"
  shows "set (free_addrs (blocks (around L l u xs B ys R))) - (if ys' = ys then {} else {adr (hd ys)}) =
    set (free_addrs (blocks (L @ (l, u, xs' @ ys') # R))) \<union> (if xs' \<noteq> xs then {adr B2} else {})" (is "?F - ?Y = ?G \<union> ?X")
proof -
  note out = around_addrs [OF asc] and jl = join_left_free [OF left] and jr = join_right_free [OF right]
  have "?F = set (free_addrs (blocks L)) \<union> set (free_addrs xs) \<union> set (free_addrs ys) \<union> set (free_addrs (blocks R))"
    "?G = set (free_addrs (blocks L)) \<union> set (free_addrs xs') \<union> set (free_addrs ys') \<union> set (free_addrs (blocks R))"
    using used by (simp_all add: Un_assoc)
  then have F: "?F = ?G \<union> ?X \<union> ?Y" unfolding jl(1) jr(1,2) by (cases "xs' = xs"; cases "ys' = ys"; simp; blast)
  have "(?G \<union> ?X) \<inter> ?Y = {}" if ne: "ys' \<noteq> ys"
  proof -
    let ?y = "adr (hd ys)"
    have ys: "ys = hd ys # ys'" by (rule jr(4) [OF ne])
    then have "ys \<noteq> []" by auto
    then have "distinct (map adr ys)" "?y \<in> addrs ys" using out(5) stamp_hd by blast+
    then have "?y \<notin> addrs ys'" using ys by (metis addrs_def distinct.simps(2) image_set list.map(2))
    moreover have "?y \<notin> addrs (blocks (L @ R)) \<union> addrs xs \<union> {adr B}" using out(1,2) \<open>?y \<in> addrs ys\<close> by auto
    moreover have "?G \<union> ?X \<subseteq> addrs (blocks (L @ R)) \<union> (addrs xs' \<union> {adr B1}) \<union> addrs ys'"
      using free_addrs_sub [of "blocks (L @ (l, u, xs' @ ys') # R)"] jr(2) by auto
    ultimately have "?y \<notin> ?G \<union> ?X" using jl(2) by blast
    then show ?thesis using ne by simp
  qed
  then show ?thesis unfolding F by (cases "ys' = ys") auto
qed

lemma put_on_list:
  assumes J: "joint h L l u xs B ys R F (bsize B)"
    and F: "set F = set (free_addrs (blocks (L @ (l, u, xs @ ys) # R))) \<union> (if k then {adr B} else {})"
  defines "h1 \<equiv> h\<lparr>mem := set_IsFree (adr B) True (mem h)\<rparr>"
  shows "returns (if \<not> k then HeapListInsert (adr B) h1 else Some h1)
    (\<lambda>h'. page_state h' = page_state h \<and> heap_ok h' (around L l u xs (Blk (adr B) (bsize B) True) ys R))"
proof -
  let ?C = "Blk (adr B) (bsize B) True"
  have J1: "joint h1 L l u xs ?C ys R F (bsize ?C)"
    using joint_flag [OF J, of True] jointD(8) [OF J] by (simp add: hdr_def set_Magic_idem h1_def)
  show ?thesis
  proof (cases k)
    case True
    then show ?thesis using joint_close [OF J1] F by (simp add: h1_def)
  next
    case False
    have "adr B \<notin> set F"
      using around_addrs(1) [OF jointD(7) [OF J]] free_addrs_sub [of "blocks (L @ (l, u, xs @ ys) # R)"] F False by auto
    then have "returns (HeapListInsert (adr B) h1) (\<lambda>h'. heap_ok h' (around L l u xs ?C ys R))"
      using returns_weaken [OF joint_insert [OF J1, of "adr B"] joint_close] F False by simp
    then have "returns (HeapListInsert (adr B) h1) (\<lambda>h'. page_state h' = page_state h1 \<and> heap_ok h' (around L l u xs ?C ys R))"
      by (rule returns_also) (rule HeapListInsert_pages)
    then show ?thesis using False by (simp add: h1_def)
  qed
qed

lemma put_back_law:
  assumes ok: "heap_ok h (around L l u xs B ys R)" and used: "\<not> bfree B" and m: "merged xs B ys = (xs', C, ys')"
  shows "returns (put_back (adr B) h) (\<lambda>(b, h'). page_state h' = page_state h \<and> b = adr C \<and> heap_ok h' (around L l u xs' C ys' R))"
proof -
  let ?F = "free_addrs (blocks (around L l u xs B ys R))"
  obtain B1 B2 where left: "join_left xs B = (xs', B1)" and right: "join_right B1 ys = (B2, ys')" and C: "C = Blk (adr B2) (bsize B2) True"
    using m by (auto simp: merged_def Let_def split: prod.splits)
  have J: "joint h L l u xs B ys R ?F (bsize B)" using ok by (simp add: joint_heap_ok)
  have notin: "adr B \<notin> set ?F"
    using around_addrs(1) [OF jointD(7) [OF J]] used free_addrs_sub [of "blocks (L @ R)"] free_addrs_sub [of xs] free_addrs_sub [of ys] by auto
  obtain h1 where h1: "merge_left (adr B) h = (adr B1, xs' \<noteq> xs, h1)" "joint h1 L l u xs' B1 ys R ?F (bsize B)" "page_state h1 = page_state h"
    using merge_left_law [OF J notin left] by blast
  have a: "adr B1 = adr B2" using join_right_free(2) [OF right] by simp
  have "returns (merge_right (adr B1) h1) (\<lambda>h'. page_state h' = page_state h1 \<and>
      (\<exists>F' q'. joint h' L l u xs' B2 ys' R F' q' \<and> set F' = set ?F - (if ys' = ys then {} else {adr (hd ys)})))"
    by (rule merge_right_law [OF h1(2) _ right]) (use right in \<open>cases ys; simp\<close>)
  then show ?thesis
    unfolding put_back_def h1(1) Let_def prod.case a
  proof (rule returns_bind, elim conjE exE)
    fix h2 F2 q2
    assume ps: "page_state h2 = page_state h1" and J2: "joint h2 L l u xs' B2 ys' R F2 q2"
      and F2: "set F2 = set ?F - (if ys' = ys then {} else {adr (hd ys)})"
    note G = F2 [unfolded merged_free [OF jointD(7) [OF J] used left right]]
    have "returns (stamp_next (adr B2) (adr B2 + bsize B2) (bsize B2) h2)
        (\<lambda>h3. page_state h3 = page_state h2 \<and> joint h3 L l u xs' B2 ys' R F2 (bsize B2))"
      by (rule returns_also [OF joint_stamp [OF J2]]) (rule stamp_next_pages)
    then show "returns (stamp_next (adr B2) (adr B2 + Size (mem h2) (adr B2)) (Size (mem h2) (adr B2)) h2 \<bind>
        (\<lambda>h. (if \<not> xs' \<noteq> xs then HeapListInsert (adr B2) (h\<lparr>mem := set_IsFree (adr B2) True (mem h)\<rparr>)
          else Some (h\<lparr>mem := set_IsFree (adr B2) True (mem h)\<rparr>)) \<bind> (\<lambda>h. Some (adr B2, h))))
      (\<lambda>(b, h'). page_state h' = page_state h \<and> b = adr C \<and> heap_ok h' (around L l u xs' C ys' R))"
      unfolding jointD(9) [OF J2]
    proof (rule returns_bind, elim conjE)
      fix h3
      assume "page_state h3 = page_state h2" and J3: "joint h3 L l u xs' B2 ys' R F2 (bsize B2)"
      with ps h1(3) have "page_state h3 = page_state h" by simp
      then show "returns ((if \<not> xs' \<noteq> xs then HeapListInsert (adr B2) (h3\<lparr>mem := set_IsFree (adr B2) True (mem h3)\<rparr>)
          else Some (h3\<lparr>mem := set_IsFree (adr B2) True (mem h3)\<rparr>)) \<bind> (\<lambda>h. Some (adr B2, h)))
        (\<lambda>(b, h'). page_state h' = page_state h \<and> b = adr C \<and> heap_ok h' (around L l u xs' C ys' R))"
        using put_on_list [OF J3 G] by (auto simp: C elim!: returns_bind)
    qed
  qed
qed

subsection \<open>Giving pages back\<close>

text \<open>When the end of \<^verbatim>\<open>kfree\<close> acts: the free block does not end its segment and has a page to spare.\<close>

definition gives :: "blk \<Rightarrow> blk list \<Rightarrow> bool" where
  "gives C ys \<longleftrightarrow> ys \<noteq> [] \<and> 0x11000 \<le> unat (bsize C)"

lemma give_back_test:
  assumes "heap_ok h (around L l u xs C ys R)"
  shows "HeapFindSegment (adr C) h = Some (Some (length L))" "Size (mem h) (adr C) = bsize C"
    "adr C + bsize C \<ge> End (HeapSegmentTable h ! length L) \<longleftrightarrow> ys = []"
proof -
  have J: "joint h L l u xs C ys R (free_addrs (blocks (around L l u xs C ys R))) (bsize C)"
    using assms by (simp add: joint_heap_ok)
  note D = jointD [OF J] and place = block_place [OF jointD(7) [OF J]]
  note seg = HeapFindSegment_law [OF D(1), of "adr C", simplified, OF place(1,2)]
  show "HeapFindSegment (adr C) h = Some (Some (length L))" "Size (mem h) (adr C) = bsize C" using seg(1) D(9) by auto
  show "adr C + bsize C \<ge> End (HeapSegmentTable h ! length L) \<longleftrightarrow> ys = []"
    using place(6) seg(2) by (auto simp: word_le_nat_alt not_less [symmetric])
qed

lemma give_back_none:
  assumes "heap_ok h (around L l u xs C ys R)" and "\<not> gives C ys"
  shows "give_back (adr C) h = Some h"
proof -
  note t = give_back_test [OF assms(1)]
  have "unat ((bsize C - HEAP_KEEP_PAGES * PAGE_SIZE) div PAGE_SIZE) = 0" if "bsize C > HEAP_KEEP_PAGES * PAGE_SIZE" "ys \<noteq> []"
  proof -
    have "unat (bsize C - 0x10000) = unat (bsize C) - 0x10000"
      using that(1) by (simp add: unat_sub word_le_nat_alt word_less_nat_alt HEAP_KEEP_PAGES_def HEAP_GROW_PAGES_def PAGE_SIZE_def)
    then show ?thesis
      using that(2) assms(2) by (simp add: unat_div gives_def HEAP_KEEP_PAGES_def HEAP_GROW_PAGES_def PAGE_SIZE_def)
  qed
  then show ?thesis using t by (auto simp: give_back_def Let_def unat_eq_0)
qed

lemma kfree_law:
  assumes "heap_ok h (around L l u xs B ys R)" and "\<not> bfree B" and "merged xs B ys = (xs', C, ys')" and "\<not> gives C ys'"
  shows "returns (kfree (adr B + META_SIZE) h) (\<lambda>h'. page_state h' = page_state h \<and> heap_ok h' (around L l u xs' C ys' R))"
proof -
  have J: "joint h L l u xs B ys R (free_addrs (blocks (around L l u xs B ys R))) (bsize B)"
    using assms(1) by (simp add: joint_heap_ok)
  then have "kfree (adr B + META_SIZE) h = put_back (adr B) h \<bind> (\<lambda>(b, h). give_back b h)"
    using assms(2) jointD(8) [OF J] by (simp add: kfree_put_back hdr_def)
  then show ?thesis
    using put_back_law [OF assms(1-3)] give_back_none [OF _ assms(4)] by (fastforce elim!: returns_bind)
qed

text \<open>
  Where it acts: the block is cut at the limit, the second part is on the free list, the block
  after it is stamped with the size of the first part, and the pages of the second part are released.
\<close>

lemma give_back_cut:
  assumes "heap_ok h (around L l u xs C ys R)" and "bfree C" and "gives C ys"
  shows "returns (give_back (adr C) h) (\<lambda>h'. \<exists>h2.
    joint h2 L l u (xs @ [Blk (adr C) 0x10000 True]) (Blk (adr C + 0x10000) (bsize C - 0x10000) True) ys R
      (with_addr (adr C + 0x10000) (free_addrs (blocks (around L l u xs C ys R)))) 0x10000 \<and>
    h' = h2\<lparr>page_state := PageFreePages (adr C + 0x10000) ((bsize C - 0x10000) div PAGE_SIZE) (page_state h2)\<rparr> \<and>
    page_state h2 = page_state h)"
proof -
  note t = give_back_test [OF assms(1)]
  have J: "joint h L l u xs C ys R (free_addrs (blocks (around L l u xs C ys R))) (bsize C)"
    using assms(1) by (simp add: joint_heap_ok)
  have keep: "HEAP_KEEP_PAGES * PAGE_SIZE = 0x10000" by (simp add: HEAP_KEEP_PAGES_def HEAP_GROW_PAGES_def PAGE_SIZE_def)
  have big: "0x11000 \<le> unat (bsize C)" "ys \<noteq> []" using assms(3) by (simp_all add: gives_def)
  then have d: "unat (bsize C - 0x10000) = unat (bsize C) - 0x10000" by (simp add: unat_sub word_le_nat_alt)
  have "unat ((bsize C - 0x10000) div PAGE_SIZE) \<noteq> 0" using big(1) d by (simp add: unat_div PAGE_SIZE_def)
  then have n: "(bsize C - 0x10000) div PAGE_SIZE \<noteq> 0" by auto
  have gt: "bsize C > 0x10000" using big(1) by (simp add: word_less_nat_alt)
  have run: "give_back (adr C) h = cut (adr C) 0x10000 0x10000 h \<bind>
      (\<lambda>h. Some (h\<lparr>page_state := PageFreePages (adr C + 0x10000) ((bsize C - 0x10000) div PAGE_SIZE) (page_state h)\<rparr>))"
    using t big(2) n gt unfolding give_back_def cut_def put_header_def keep by (simp add: Let_def)
  have "returns (cut (adr C) 0x10000 0x10000 h) (\<lambda>h2. page_state h2 = page_state h \<and>
      joint h2 L l u (xs @ [Blk (adr C) 0x10000 True]) (Blk (adr C + 0x10000) (bsize C - 0x10000) True) ys R
        (with_addr (adr C + 0x10000) (free_addrs (blocks (around L l u xs C ys R)))) 0x10000)"
  proof (rule returns_also)
    show "returns (cut (adr C) 0x10000 0x10000 h) (\<lambda>h2.
      joint h2 L l u (xs @ [Blk (adr C) 0x10000 True]) (Blk (adr C + 0x10000) (bsize C - 0x10000) True) ys R
        (with_addr (adr C + 0x10000) (free_addrs (blocks (around L l u xs C ys R)))) 0x10000)"
      using joint_cut [OF J, of "0x10000" "0x10000"] big(1) d assms(2) by simp
    show "page_state h2 = page_state h" if "cut (adr C) 0x10000 0x10000 h = Some h2" for h2
      using that by (auto simp: cut_def Let_def bind_eq_Some_conv dest!: stamp_next_pages HeapListInsert_pages)
  qed
  then show ?thesis unfolding run
  proof (rule returns_bind, elim conjE, unfold returns_Some)
    fix h2
    assume h2: "page_state h2 = page_state h"
      "joint h2 L l u (xs @ [Blk (adr C) 0x10000 True]) (Blk (adr C + 0x10000) (bsize C - 0x10000) True) ys R
        (with_addr (adr C + 0x10000) (free_addrs (blocks (around L l u xs C ys R)))) 0x10000"
    show "\<exists>h3. joint h3 L l u (xs @ [Blk (adr C) 0x10000 True]) (Blk (adr C + 0x10000) (bsize C - 0x10000) True) ys R
        (with_addr (adr C + 0x10000) (free_addrs (blocks (around L l u xs C ys R)))) 0x10000 \<and>
      h2\<lparr>page_state := PageFreePages (adr C + 0x10000) ((bsize C - 0x10000) div PAGE_SIZE) (page_state h2)\<rparr> =
        h3\<lparr>page_state := PageFreePages (adr C + 0x10000) ((bsize C - 0x10000) div PAGE_SIZE) (page_state h3)\<rparr> \<and>
      page_state h3 = page_state h"
      by (intro exI [of _ h2] conjI h2 refl)
  qed
qed

end
