(* ===== verification/Heap_Laws.thy ===== *)
theory Heap_Laws
  imports Heap_Free
begin

text \<open>
  The heap as its clients see it: the set of live blocks. An allocation adds one block
  and a release removes exactly the block released. Besides: no two neighbouring blocks are free
  (\<open>coalesced\<close>), and release as a function of the address.
\<close>

subsection \<open>The abstract heap is determined by the memory\<close>

lemma blocks_unique:
  "tiles a bs e \<Longrightarrow> tiles a cs e \<Longrightarrow> hdrs m p bs \<Longrightarrow> hdrs m q cs \<Longrightarrow> bs = cs"
proof (induction bs arbitrary: a cs p q)
  case Nil
  then have "a = e" by simp
  with Nil show ?case by (cases cs) (auto dest: tiles_le)
next
  case (Cons B bs)
  have "cs \<noteq> []" using Cons.prems(1,2) by (auto dest: tiles_le)
  then obtain C ds where cs: "cs = C # ds" by (cases cs) auto
  have "unat (adr B) = unat (adr C)" using Cons.prems(1,2) cs by simp
  then have "adr B = adr C" by (rule unsigned_word_eqI)
  moreover from this have "bsize B = bsize C" "bfree B = bfree C" using Cons.prems(3,4) cs by (auto simp: hdr_def)
  ultimately have "B = C" by (cases B; cases C) simp
  moreover have "bs = ds" using Cons.IH [of "a + unat (bsize B)" ds "bsize B" "bsize C"] Cons.prems cs \<open>B = C\<close> by simp
  ultimately show ?case using cs by simp
qed

lemma heap_ok_unique:
  assumes "heap_ok h segs" and "heap_ok h segs'"
  shows "segs = segs'"
proof -
  note ok = assms [unfolded heap_ok_def heap_frame_def heap_hdrs_def]
  have len: "length segs = length segs'"
  proof -
    have "HeapSegmentCount h = of_nat (length segs)" "length segs \<le> 8" using ok(1) by blast+
    then have 1: "unat (HeapSegmentCount h) = length segs" by (simp add: unat_of_nat_u32)
    have "HeapSegmentCount h = of_nat (length segs')" "length segs' \<le> 8" using ok(2) by blast+
    then have "unat (HeapSegmentCount h) = length segs'" by (simp add: unat_of_nat_u32)
    with 1 show ?thesis by simp
  qed
  have "segs ! i = segs' ! i" if i: "i < length segs" for i
  proof -
    let ?S = "segs ! i" and ?T = "segs' ! i"
    have "seg_entry segs i = seg_entry segs' i" using ok i len by metis
    moreover have asc: "ascending segs" "ascending segs'" using ok by simp_all
    ultimately have e: "lo ?S = lo ?T" "hi ?S = hi ?T"
      using seg_words [OF asc(1) i] seg_words [OF asc(2)] i len by metis+
    have mem: "?S \<in> set segs" "?T \<in> set segs'" using i len by auto
    then have "tiles (lo ?S) (blocks_of ?S) (hi ?S)" "tiles (lo ?T) (blocks_of ?T) (hi ?T)"
      using asc by (auto simp: ascending_def seg_ok_def)
    moreover have "hdrs (mem h) 0 (blocks_of ?S)" "hdrs (mem h) 0 (blocks_of ?T)" using ok mem by blast+
    ultimately have "blocks_of ?S = blocks_of ?T" using e blocks_unique by metis
    with e show ?thesis by (simp add: prod_eq_iff)
  qed
  with len show ?thesis by (rule nth_equalityI)
qed

subsection \<open>Live blocks\<close>

definition used :: "segment list \<Rightarrow> blk set" where
  "used segs = {B \<in> set (blocks segs). \<not> bfree B}"

definition payload :: "blk \<Rightarrow> u32 \<times> nat" where
  "payload B = (adr B + META_SIZE, unat (bsize B) - 16)"

definition heap_inv :: "heap \<Rightarrow> bool" where
  "heap_inv h \<longleftrightarrow> (\<exists>segs. heap_ok h segs)"

definition live :: "heap \<Rightarrow> (u32 \<times> nat) set" where
  "live h = {x. \<exists>segs. heap_ok h segs \<and> x \<in> payload ` used segs}"

lemma live_used: "heap_ok h segs \<Longrightarrow> live h = payload ` used segs"
  using heap_ok_unique by (auto simp: live_def)

lemma used_around [simp]: "used (L @ (l, u, bs) # R) = used L \<union> {B \<in> set bs. \<not> bfree B} \<union> used R"
  by (auto simp: used_def)

lemma payload_start:
  assumes "heap_ok h segs" and "B \<in> set (blocks segs)"
  shows "unat (adr B + META_SIZE) = unat (adr B) + 16"
proof -
  have "ascending segs" using assms(1) by (simp add: heap_ok_def heap_frame_def)
  from block_bounds [OF this assms(2)] show ?thesis by (simp add: META_SIZE_def unat_plus_if_size word_size)
qed

lemma payload_inj:
  assumes "heap_ok h segs" and "B \<in> set (blocks segs)" and "C \<in> set (blocks segs)" and "fst (payload B) = fst (payload C)"
  shows "B = C"
proof -
  have "ascending segs" using assms(1) by (simp add: heap_ok_def heap_frame_def)
  from addresses_distinct [OF this] have "inj_on adr (set (blocks segs))" by (simp add: distinct_map)
  moreover have "adr B = adr C" using assms(4) by (simp add: payload_def)
  ultimately show ?thesis using assms(2,3) by (simp add: inj_on_def)
qed

lemma blocks_apart:
  assumes "ascending segs" and "B \<in> set (blocks segs)" and "C \<in> set (blocks segs)" and "B \<noteq> C"
  shows "gap B C \<or> gap C B"
proof -
  have "sorted_wrt gap bs \<Longrightarrow> B \<in> set bs \<Longrightarrow> C \<in> set bs \<Longrightarrow> gap B C \<or> gap C B" for bs
    using assms(4) by (induction bs) auto
  from this [OF blocks_sorted [OF assms(1)] assms(2,3)] show ?thesis .
qed

lemma block_aligned: "ascending segs \<Longrightarrow> B \<in> set (blocks segs) \<Longrightarrow> 8 dvd unat (adr B)"
proof -
  assume asc: "ascending segs" and B: "B \<in> set (blocks segs)"
  have step: "tiles a bs e \<Longrightarrow> 8 dvd a \<Longrightarrow> B \<in> set bs \<Longrightarrow> 8 dvd unat (adr B)" for a bs e
    by (induction bs arbitrary: a) auto
  obtain S where S: "S \<in> set segs" "B \<in> set (blocks_of S)" using B by (auto simp: blocks_def)
  then have t: "tiles (lo S) (blocks_of S) (hi S)" "4096 dvd lo S" using asc by (auto simp: ascending_def seg_ok_def)
  have "(8 :: nat) dvd 4096" by simp
  then have "8 dvd lo S" using t(2) by (rule dvd_trans)
  then show ?thesis by (rule step [OF t(1) _ S(2)])
qed

text \<open>What an allocation does to the blocks in use.\<close>

lemma carve_used: "\<exists>N. {C \<in> set (carve n B). \<not> bfree C} = {N} \<and> adr N = adr B \<and>
    (n \<le> bsize B \<longrightarrow> unat n \<le> unat (bsize N))"
proof (cases "unat (bsize B) - unat n < 24")
  case True
  then have "{C \<in> set (carve n B). \<not> bfree C} = {Blk (adr B) (bsize B) False}" by (auto simp: carve_def)
  then show ?thesis by (auto simp: word_le_nat_alt intro!: exI [of _ "Blk (adr B) (bsize B) False"])
next
  case False
  then have "{C \<in> set (carve n B). \<not> bfree C} = {Blk (adr B) n False}" by (auto simp: carve_def)
  then show ?thesis by (auto intro!: exI [of _ "Blk (adr B) n False"])
qed

lemma malloc_spec_used:
  assumes ok: "heap_ok h segs" and spec: "malloc_spec sz (page_state h) segs = (p, ps', segs')" and ok': "heap_ok h' segs'"
  shows "if p = 0 then segs' = segs \<and> ps' = page_state h
    else \<exists>N. N \<in> used segs' \<and> p = adr N + META_SIZE \<and> unat sz \<le> unat (bsize N) - 16 \<and> N \<notin> used segs \<and> used segs' = insert N (used segs)"
proof (cases "sz = 0 \<or> unat sz + 24 > 2 ^ 32 - 1")
  case True
  then show ?thesis using spec by (auto simp: malloc_spec_def)
next
  case False
  let ?n = "block_size sz"
  have sz: "unat sz + 16 \<le> unat ?n" using block_size_law [of sz] False by simp
  have new: "?thesis" if s: "segs = L @ (l, u, xs @ bs @ ys) # R \<or> segs = L \<and> xs = [] \<and> ys = [] \<and> R = []"
      "segs' = L @ (l, u, xs @ carve ?n B @ ys) # R" "?n \<le> bsize B" "p = adr B + META_SIZE" "\<forall>C \<in> set bs. bfree C" for L l u xs bs B ys R
  proof -
    obtain N where N: "{C \<in> set (carve ?n B). \<not> bfree C} = {N}" "adr N = adr B" "unat ?n \<le> unat (bsize N)"
      using carve_used [of ?n B] s(3) by blast
    have nin: "N \<in> set (carve ?n B)" "N \<in> set (blocks segs')" using N(1) s(2) by auto
    let ?u = "\<lambda>bs. {C \<in> set bs. \<not> bfree C}"
    have "used segs' = used L \<union> ?u xs \<union> ?u (carve ?n B) \<union> ?u ys \<union> used R" unfolding s(2) used_around by auto
    moreover have old: "used segs = used L \<union> ?u xs \<union> ?u ys \<union> used R"
      using s(1) s(5) by (elim disjE) (auto simp: used_def)
    ultimately have u: "used segs' = insert N (used segs)" unfolding N(1) by blast
    have "0 < unat p" using payload_start [OF ok' nin(2)] N(2) s(4) by simp
    then have "p \<noteq> 0" by auto
    moreover have "N \<notin> used segs"
    proof -
      have "distinct (blocks segs')" using addresses_distinct ok' by (auto simp: heap_ok_def heap_frame_def distinct_map)
      with nin(1) s(2) have "N \<notin> set (blocks L) \<union> set xs \<union> set ys \<union> set (blocks R)" by auto
      then show ?thesis unfolding old by (auto simp: used_def)
    qed
    ultimately show ?thesis using u N sz s(4) nin(2) by (auto simp: used_def intro!: exI [of _ N])
  qed
  show ?thesis
  proof (cases "fit ?n segs")
    case (Some r)
    then obtain a where fit: "fit ?n segs = Some (a, segs')" "p = a + META_SIZE"
      using spec False by (cases r) (auto simp: malloc_spec_def)
    from fit_Some [OF fit(1)] obtain L l u xs B ys R where "segs = around L l u xs B ys R" "bfree B" "?n \<le> bsize B" "a = adr B"
      "segs' = L @ (l, u, xs @ carve ?n B @ ys) # R" by blast
    then show ?thesis using new [of L l u xs "[B]" ys R B] fit(2) by auto
  next
    case None
    show ?thesis
    proof (cases "grow_spec ((?n + PAGE_SIZE - 1) div PAGE_SIZE) (page_state h) segs")
      case None
      then show ?thesis using spec False \<open>fit ?n segs = None\<close> by (auto simp: malloc_spec_def)
    next
      case (Some r)
      then obtain l u bs ps where g: "grow_spec ((?n + PAGE_SIZE - 1) div PAGE_SIZE) (page_state h) segs = Some ((l, u, bs), ps)"
        by (metis prod.collapse)
      obtain h1 where "heap_ok h1 (segs @ [(l, u, bs)])"
        using HeapGrow_law [OF ok, of "(?n + PAGE_SIZE - 1) div PAGE_SIZE"] g by (auto simp: returns_def)
      from grow_fits [OF this g] obtain B where B: "bs = [B]" "bfree B" "?n \<le> bsize B" "adr B = of_nat l" by blast
      have "p = of_nat l + META_SIZE" "segs' = segs @ [(l, u, carve ?n B)]"
        using spec False \<open>fit ?n segs = None\<close> g B(1) by (auto simp: malloc_spec_def)
      then show ?thesis using new [of segs l u "[]" "[]" "[]" "[]" B] B by auto
    qed
  qed
qed

subsection \<open>No two free neighbours\<close>

fun apart :: "blk list \<Rightarrow> bool" where
  "apart (B # C # bs) \<longleftrightarrow> \<not> (bfree B \<and> bfree C) \<and> apart (C # bs)"
| "apart _ \<longleftrightarrow> True"

definition coalesced :: "segment list \<Rightarrow> bool" where
  "coalesced segs \<longleftrightarrow> (\<forall>S \<in> set segs. apart (blocks_of S))"

lemma apart_Cons: "apart (B # bs) \<longleftrightarrow> apart bs \<and> \<not> (bs \<noteq> [] \<and> bfree B \<and> bfree (hd bs))"
  by (cases bs) auto

lemma apart_append: "apart (xs @ ys) \<longleftrightarrow> apart xs \<and> apart ys \<and> \<not> (xs \<noteq> [] \<and> ys \<noteq> [] \<and> bfree (last xs) \<and> bfree (hd ys))"
  by (induction xs) (auto simp: apart_Cons hd_append)

lemma carve_apart:
  assumes "apart (xs @ B # ys)" and "bfree B"
  shows "apart (xs @ carve n B @ ys)"
  using assms by (auto simp: carve_def apart_append apart_Cons)

lemma coalesced_around: "coalesced (L @ (l, u, bs) # R) \<longleftrightarrow> coalesced L \<and> apart bs \<and> coalesced R"
  by (auto simp: coalesced_def)

lemma merged_apart:
  assumes "apart (xs @ B # ys)" and "merged xs B ys = (xs', C, ys')"
  shows "apart (xs' @ C # ys')"
proof -
  obtain B1 B2 where left: "join_left xs B = (xs', B1)" and right: "join_right B1 ys = (B2, ys')" and C: "C = Blk (adr B2) (bsize B2) True"
    using assms(2) by (auto simp: merged_def Let_def split: prod.splits)
  have "apart xs" "apart ys" using assms(1) by (auto simp: apart_append apart_Cons)
  moreover have "apart xs' \<and> \<not> (xs' \<noteq> [] \<and> bfree (last xs'))" if "apart xs"
    using that left by (cases xs rule: rev_cases) (auto simp: join_left_def apart_append split: if_splits)
  moreover have "apart ys' \<and> \<not> (ys' \<noteq> [] \<and> bfree (hd ys'))" if "apart ys"
    using that right by (cases ys) (auto simp: join_right_def apart_Cons split: if_splits)
  ultimately show ?thesis using C by (simp add: apart_append apart_Cons)
qed

lemma grow_single: "grow_spec k ps segs = Some ((l, u, bs), ps') \<Longrightarrow> \<exists>B. bs = [B] \<and> bfree B"
  by (auto simp: grow_spec_def split: if_splits prod.splits)

lemma malloc_spec_coalesced:
  assumes "coalesced segs" and "malloc_spec sz ps segs = (p, ps', segs')"
  shows "coalesced segs'"
proof (cases "fit (block_size sz) segs")
  case None
  show ?thesis
  proof (cases "segs' = segs")
    case False
    then obtain l u bs where g: "grow_spec ((block_size sz + PAGE_SIZE - 1) div PAGE_SIZE) ps segs = Some ((l, u, bs), ps')"
        "segs' = segs @ [(l, u, carve (block_size sz) (hd bs))]"
      using assms(2) None by (auto simp: malloc_spec_def split: if_splits option.splits prod.splits)
    obtain B where "bs = [B]" "bfree B" using grow_single [OF g(1)] by blast
    then show ?thesis using assms(1) g(2) carve_apart [of "[]" B "[]"] by (simp add: coalesced_around) (simp add: coalesced_def)
  qed (use assms in simp)
next
  case (Some r)
  show ?thesis
  proof (cases "segs' = segs")
    case False
    then have "\<exists>a. fit (block_size sz) segs = Some (a, segs')"
      using assms(2) Some by (cases r) (auto simp: malloc_spec_def split: if_splits)
    then obtain L l u xs B ys R where s: "segs = around L l u xs B ys R" "bfree B"
        "segs' = L @ (l, u, xs @ carve (block_size sz) B @ ys) # R" using fit_Some by blast
    with assms(1) show ?thesis by (simp add: coalesced_around carve_apart)
  qed (use assms in simp)
qed

subsection \<open>Release, as a function of the address\<close>

fun split_at :: "u32 \<Rightarrow> blk list \<Rightarrow> (blk list \<times> blk \<times> blk list) option" where
  "split_at a [] = None"
| "split_at a (B # bs) = (if adr B = a then Some ([], B, bs) else map_option (\<lambda>(xs, C, ys). (B # xs, C, ys)) (split_at a bs))"

text \<open>\<^const>\<open>None\<close>: there is no such block in use, or its release would give pages back.\<close>

fun free_segs :: "u32 \<Rightarrow> segment list \<Rightarrow> segment list option" where
  "free_segs a [] = None"
| "free_segs a ((l, u, bs) # segs) = (case split_at a bs of
       Some (xs, B, ys) \<Rightarrow>
         if bfree B then None
         else (case merged xs B ys of (xs', C, ys') \<Rightarrow>
           if gives C ys' then None else Some ((l, u, xs' @ C # ys') # segs))
     | None \<Rightarrow> map_option (\<lambda>segs'. (l, u, bs) # segs') (free_segs a segs))"

definition free_spec :: "u32 \<Rightarrow> segment list \<Rightarrow> segment list option" where
  "free_spec p segs = free_segs (p - META_SIZE) segs"

lemma split_at_Some: "split_at a bs = Some (xs, B, ys) \<Longrightarrow> bs = xs @ B # ys \<and> adr B = a"
  by (induction bs arbitrary: xs) (auto split: if_splits)

lemma free_segs_Some:
  "free_segs a segs = Some segs' \<Longrightarrow> \<exists>L l u xs B ys R xs' C ys'. segs = around L l u xs B ys R \<and> adr B = a \<and> \<not> bfree B \<and>
     merged xs B ys = (xs', C, ys') \<and> \<not> gives C ys' \<and> segs' = around L l u xs' C ys' R"
proof (induction a segs arbitrary: segs' rule: free_segs.induct)
  case (2 a l u bs segs)
  show ?case
  proof (cases "split_at a bs")
    case None
    then obtain ds where ds: "free_segs a segs = Some ds" "segs' = (l, u, bs) # ds" using "2.prems" by auto
    from "2.IH" [OF None ds(1)] obtain L l' u' xs B ys R xs' C ys' where "segs = around L l' u' xs B ys R" "adr B = a" "\<not> bfree B"
        "merged xs B ys = (xs', C, ys')" "\<not> gives C ys'" "ds = around L l' u' xs' C ys' R" by blast
    then have "(l, u, bs) # segs = around ((l, u, bs) # L) l' u' xs B ys R \<and> adr B = a \<and> \<not> bfree B \<and>
        merged xs B ys = (xs', C, ys') \<and> \<not> gives C ys' \<and> segs' = around ((l, u, bs) # L) l' u' xs' C ys' R" using ds(2) by simp
    then show ?thesis by blast
  next
    case (Some r)
    then obtain xs B ys where r: "split_at a bs = Some (xs, B, ys)" by (cases r) auto
    obtain xs' C ys' where m: "merged xs B ys = (xs', C, ys')" by (cases "merged xs B ys") auto
    then have "(l, u, bs) # segs = around [] l u xs B ys segs \<and> adr B = a \<and> \<not> bfree B \<and>
        merged xs B ys = (xs', C, ys') \<and> \<not> gives C ys' \<and> segs' = around [] l u xs' C ys' segs"
      using "2.prems" r split_at_Some [OF r] by (auto split: if_splits)
    then show ?thesis by blast
  qed
qed simp

lemma kfree_refines:
  assumes "heap_ok h segs" and "free_spec p segs = Some segs'"
  shows "returns (kfree p h) (\<lambda>h'. page_state h' = page_state h \<and> heap_ok h' segs')"
proof -
  from free_segs_Some [OF assms(2) [unfolded free_spec_def]] obtain L l u xs B ys R xs' C ys' where
    s: "segs = around L l u xs B ys R" "adr B = p - META_SIZE" "\<not> bfree B" "merged xs B ys = (xs', C, ys')"
      "\<not> gives C ys'" "segs' = around L l u xs' C ys' R" by blast
  have "p = adr B + META_SIZE" using s(2) by simp
  with kfree_law [OF assms(1) [unfolded s(1)] s(3-5)] show ?thesis by (simp add: s(6))
qed

lemma free_spec_coalesced: "coalesced segs \<Longrightarrow> free_spec p segs = Some segs' \<Longrightarrow> coalesced segs'"
  using free_segs_Some [of "p - META_SIZE" segs segs'] merged_apart
  by (fastforce simp: free_spec_def coalesced_around)

lemma merged_used:
  assumes "merged xs B ys = (xs', C, ys')" and "\<not> bfree B" and "distinct (xs @ B # ys)"
  shows "{D \<in> set (xs' @ C # ys'). \<not> bfree D} = {D \<in> set (xs @ B # ys). \<not> bfree D} - {B}"
proof -
  obtain B1 B2 where left: "join_left xs B = (xs', B1)" and right: "join_right B1 ys = (B2, ys')" and C: "C = Blk (adr B2) (bsize B2) True"
    using assms(1) by (auto simp: merged_def Let_def split: prod.splits)
  have l: "{D \<in> set xs'. \<not> bfree D} = {D \<in> set xs. \<not> bfree D}"
    using left by (cases xs rule: rev_cases) (auto simp: join_left_def split: if_splits)
  have r: "{D \<in> set ys'. \<not> bfree D} = {D \<in> set ys. \<not> bfree D}"
    using right by (cases ys) (auto simp: join_right_def split: if_splits)
  have "{D \<in> set (xs' @ C # ys'). \<not> bfree D} = {D \<in> set xs'. \<not> bfree D} \<union> {D \<in> set ys'. \<not> bfree D}" by (auto simp: C)
  also have "\<dots> = {D \<in> set (xs @ B # ys). \<not> bfree D} - {B}" unfolding l r using assms(3) by auto
  finally show ?thesis .
qed

lemma free_spec_used:
  assumes ok: "heap_ok h segs" and "free_spec p segs = Some segs'"
  shows "\<exists>B \<in> used segs. p = adr B + META_SIZE \<and> used segs' = used segs - {B}"
proof -
  from free_segs_Some [OF assms(2) [unfolded free_spec_def]] obtain L l u xs B ys R xs' C ys' where
    s: "segs = around L l u xs B ys R" "adr B = p - META_SIZE" "\<not> bfree B" "merged xs B ys = (xs', C, ys')"
      "segs' = around L l u xs' C ys' R" by blast
  have d: "distinct (blocks segs)" using ok addresses_distinct by (auto simp: heap_ok_def heap_frame_def distinct_map)
  have m: "{D \<in> set (xs' @ C # ys'). \<not> bfree D} = {D \<in> set (xs @ B # ys). \<not> bfree D} - {B}"
    by (rule merged_used [OF s(4,3)]) (use d s(1) in auto)
  have "B \<notin> used L \<union> used R" using d unfolding s(1) by (auto simp: used_def)
  then have "used segs' = used segs - {B}" unfolding s(1,5) used_around m by auto
  moreover have "B \<in> used segs" using s(3) unfolding s(1) by simp
  moreover have "p = adr B + META_SIZE" using s(2) by simp
  ultimately show ?thesis by blast
qed

end
