(* ===== verification/Heap_Contract.thy ===== *)
theory Heap_Contract
  imports Heap_Laws
begin

text \<open>
  What the clients of the heap rely on, as a locale, and that \<^verbatim>\<open>kmalloc\<close> and \<^verbatim>\<open>kfree\<close> provide it.
\<close>

subsection \<open>The contract of an allocator\<close>

locale allocator =
  fixes inv :: "'s \<Rightarrow> bool" and live_in :: "'s \<Rightarrow> (u32 \<times> nat) set"
    and malloc :: "u32 \<Rightarrow> 's \<Rightarrow> (u32 \<times> 's) option" and free :: "u32 \<Rightarrow> 's \<Rightarrow> 's option" and releasable :: "'s \<Rightarrow> u32 \<Rightarrow> bool"
  assumes live_bounds: "inv s \<Longrightarrow> (p, k) \<in> live_in s \<Longrightarrow> 0 < unat p \<and> 8 dvd unat p \<and> 0 < k \<and> unat p + k < 2 ^ 32"
    and live_apart: "inv s \<Longrightarrow> (p, k) \<in> live_in s \<Longrightarrow> (q, j) \<in> live_in s \<Longrightarrow> (p, k) \<noteq> (q, j) \<Longrightarrow>
      unat p + k \<le> unat q \<or> unat q + j \<le> unat p"
    and malloc_law: "inv s \<Longrightarrow> returns (malloc n s) (\<lambda>(p, s'). inv s' \<and>
      (if p = 0 then live_in s' = live_in s else \<exists>k. unat n \<le> k \<and> (p, k) \<notin> live_in s \<and> live_in s' = insert (p, k) (live_in s)))"
    and free_law: "inv s \<Longrightarrow> releasable s p \<Longrightarrow> returns (free p s) (\<lambda>s'. inv s' \<and>
      (\<exists>k. (p, k) \<in> live_in s \<and> live_in s' = live_in s - {(p, k)}))"
begin

lemma malloc_fresh:
  assumes "inv s"
  shows "returns (malloc n s) (\<lambda>(p, s'). inv s' \<and> live_in s \<subseteq> live_in s' \<and> (p = 0 \<longrightarrow> live_in s' = live_in s) \<and>
    (p \<noteq> 0 \<longrightarrow> (\<exists>k. (p, k) \<in> live_in s' \<and> unat n \<le> k \<and> 8 dvd unat p \<and> unat p + k < 2 ^ 32 \<and>
      (\<forall>(q, j) \<in> live_in s. unat p + k \<le> unat q \<or> unat q + j \<le> unat p))))"
proof (rule returns_weaken [OF malloc_law [OF assms]], unfold case_prod_beta)
  fix x :: "u32 \<times> 's"
  define p s' where "p = fst x" and "s' = snd x"
  assume "inv (snd x) \<and> (if fst x = 0 then live_in (snd x) = live_in s
    else \<exists>k. unat n \<le> k \<and> (fst x, k) \<notin> live_in s \<and> live_in (snd x) = insert (fst x, k) (live_in s))"
  then have inv': "inv s'" and l: "if p = 0 then live_in s' = live_in s
    else \<exists>k. unat n \<le> k \<and> (p, k) \<notin> live_in s \<and> live_in s' = insert (p, k) (live_in s)" by (simp_all add: p_def s'_def)
  have "inv s' \<and> live_in s \<subseteq> live_in s' \<and> (p = 0 \<longrightarrow> live_in s' = live_in s) \<and>
    (p \<noteq> 0 \<longrightarrow> (\<exists>k. (p, k) \<in> live_in s' \<and> unat n \<le> k \<and> 8 dvd unat p \<and> unat p + k < 2 ^ 32 \<and>
      (\<forall>y \<in> live_in s. unat p + k \<le> unat (fst y) \<or> unat (fst y) + snd y \<le> unat p)))"
  proof (cases "p = 0")
    case False
    then obtain k where k: "unat n \<le> k" "(p, k) \<notin> live_in s" "live_in s' = insert (p, k) (live_in s)" using l by auto
    have "unat p + k \<le> unat (fst y) \<or> unat (fst y) + snd y \<le> unat p" if "y \<in> live_in s" for y
      using live_apart [OF inv', of p k "fst y" "snd y"] that k by auto
    with False inv' k live_bounds [OF inv', of p k] show ?thesis by (auto intro!: exI [of _ k])
  qed (use inv' l in simp)
  then show "inv (snd x) \<and> live_in s \<subseteq> live_in (snd x) \<and> (fst x = 0 \<longrightarrow> live_in (snd x) = live_in s) \<and>
    (fst x \<noteq> 0 \<longrightarrow> (\<exists>k. (fst x, k) \<in> live_in (snd x) \<and> unat n \<le> k \<and> 8 dvd unat (fst x) \<and> unat (fst x) + k < 2 ^ 32 \<and>
      (\<forall>y \<in> live_in s. unat (fst x) + k \<le> unat (fst y) \<or> unat (fst y) + snd y \<le> unat (fst x))))"
    unfolding p_def s'_def .
qed

lemma malloc_free:
  assumes "inv s" and "malloc n s = Some (p, s')" and "p \<noteq> 0" and "releasable s' p"
  shows "returns (free p s') (\<lambda>s''. inv s'' \<and> live_in s'' = live_in s)"
proof -
  obtain k where inv': "inv s'" and k: "(p, k) \<notin> live_in s" "live_in s' = insert (p, k) (live_in s)"
    using malloc_law [OF assms(1), of n] assms(2,3) by auto
  have same: "j = k" if j: "(p, j) \<in> live_in s'" for j
  proof (rule ccontr)
    assume "j \<noteq> k"
    then have "unat p + k \<le> unat p \<or> unat p + j \<le> unat p" using live_apart [OF inv', of p k p j] j k(2) by auto
    then show False using live_bounds [OF inv', of p k] live_bounds [OF inv' j] k(2) by auto
  qed
  show ?thesis
  proof (rule returns_weaken [OF free_law [OF inv' assms(4)]], elim conjE exE)
    fix s'' j
    assume "inv s''" "(p, j) \<in> live_in s'" "live_in s'' = live_in s' - {(p, j)}"
    then show "inv s'' \<and> live_in s'' = live_in s" using same [of j] k by auto
  qed
qed

end

text \<open>The kernel heap keeps the contract.\<close>

lemma live_bounds_heap:
  assumes "heap_inv h" and "(p, k) \<in> live h"
  shows "0 < unat p \<and> 8 dvd unat p \<and> 0 < k \<and> unat p + k < 2 ^ 32"
proof -
  obtain segs where ok: "heap_ok h segs" using assms(1) by (auto simp: heap_inv_def)
  then obtain B where B: "B \<in> set (blocks segs)" "(p, k) = payload B" using assms(2) by (auto simp: live_used used_def)
  have asc: "ascending segs" using ok by (simp add: heap_ok_def heap_frame_def)
  have p: "unat p = unat (adr B) + 16" "k = unat (bsize B) - 16"
    using payload_start [OF ok B(1)] B(2) by (simp_all add: payload_def)
  show ?thesis using block_bounds [OF asc B(1)] block_aligned [OF asc B(1)] unfolding p by auto
qed

lemma live_apart_heap:
  assumes "heap_inv h" and "(p, k) \<in> live h" and "(q, j) \<in> live h" and "(p, k) \<noteq> (q, j)"
  shows "unat p + k \<le> unat q \<or> unat q + j \<le> unat p"
proof -
  obtain segs where ok: "heap_ok h segs" using assms(1) by (auto simp: heap_inv_def)
  then obtain B C where B: "B \<in> set (blocks segs)" "(p, k) = payload B" and C: "C \<in> set (blocks segs)" "(q, j) = payload C"
    using assms(2,3) by (auto simp: live_used used_def)
  have asc: "ascending segs" using ok by (simp add: heap_ok_def heap_frame_def)
  have "B \<noteq> C" using assms(4) B(2) C(2) by auto
  have p: "unat p = unat (adr B) + 16" "k = unat (bsize B) - 16" and q: "unat q = unat (adr C) + 16" "j = unat (bsize C) - 16"
    using payload_start [OF ok B(1)] B(2) payload_start [OF ok C(1)] C(2) by (simp_all add: payload_def)
  show ?thesis
    using blocks_apart [OF asc B(1) C(1) \<open>B \<noteq> C\<close>] block_bounds(3) [OF asc B(1)] block_bounds(3) [OF asc C(1)]
    unfolding p q gap_def by linarith
qed

lemma kmalloc_live:
  assumes "heap_inv h"
  shows "returns (kmalloc n h) (\<lambda>(p, h'). heap_inv h' \<and>
    (if p = 0 then live h' = live h else \<exists>k. unat n \<le> k \<and> (p, k) \<notin> live h \<and> live h' = insert (p, k) (live h)))"
proof -
  obtain segs where ok: "heap_ok h segs" using assms by (auto simp: heap_inv_def)
  show ?thesis
  proof (rule returns_weaken [OF kmalloc_refines [OF ok]], clarify)
    fix p h' segs'
    assume spec: "malloc_spec n (page_state h) segs = (p, page_state h', segs')" and ok': "heap_ok h' segs'"
    note u = malloc_spec_used [OF ok spec ok'] and lv = live_used [OF ok] live_used [OF ok']
    show "heap_inv h' \<and> (if p = 0 then live h' = live h else \<exists>k. unat n \<le> k \<and> (p, k) \<notin> live h \<and> live h' = insert (p, k) (live h))"
    proof (cases "p = 0")
      case False
      then obtain N where N: "N \<in> used segs'" "p = adr N + META_SIZE" "unat n \<le> unat (bsize N) - 16" "N \<notin> used segs"
          "used segs' = insert N (used segs)" using u by auto
      have pN: "payload N = (p, unat (bsize N) - 16)" using N(2) by (simp add: payload_def)
      have "payload N \<notin> payload ` used segs"
      proof
        assume "payload N \<in> payload ` used segs"
        then obtain C where C: "C \<in> used segs" "payload N = payload C" by auto
        then have "C \<in> used segs'" using N(5) by simp
        then have "N = C" using payload_inj [OF ok', of N C] N(1) C(2) by (simp add: used_def)
        then show False using C(1) N(4) by simp
      qed
      then show ?thesis using False ok' N(3,5) pN unfolding lv heap_inv_def by auto
    qed (use u ok' lv in \<open>auto simp: heap_inv_def\<close>)
  qed
qed

definition can_free :: "heap \<Rightarrow> u32 \<Rightarrow> bool" where
  "can_free h p \<longleftrightarrow> (\<exists>segs. heap_ok h segs \<and> free_spec p segs \<noteq> None)"

lemma kfree_live:
  assumes "can_free h p"
  shows "returns (kfree p h) (\<lambda>h'. heap_inv h' \<and> (\<exists>k. (p, k) \<in> live h \<and> live h' = live h - {(p, k)}))"
proof -
  obtain segs segs' where ok: "heap_ok h segs" and f: "free_spec p segs = Some segs'" using assms by (auto simp: can_free_def)
  obtain B where B: "B \<in> used segs" "p = adr B + META_SIZE" "used segs' = used segs - {B}" using free_spec_used [OF ok f] by blast
  have "inj_on payload (used segs)"
  proof (rule inj_onI)
    fix C D
    assume "C \<in> used segs" "D \<in> used segs" "payload C = payload D"
    then show "C = D" using payload_inj [OF ok, of C D] by (simp add: used_def)
  qed
  then have "payload ` used segs' = payload ` used segs - {payload B}" using B by (simp add: inj_on_image_set_diff [of _ "used segs"])
  then show ?thesis
    using kfree_refines [OF ok f] B(1,2) live_used [OF ok] live_used [of _ segs']
    by (auto elim!: returns_weaken simp: heap_inv_def payload_def)
qed

interpretation kheap: allocator heap_inv live kmalloc kfree can_free
  by unfold_locales (rule live_bounds_heap live_apart_heap kmalloc_live kfree_live; assumption)+

end
