(* ===== verification/Heap_Props.thy ===== *)
theory Heap_Props
  imports Heap_Contract
begin

text \<open>
  The properties of the kernel heap: requests are served as specified, whatever sequence of
  them comes, live blocks never overlap, memory is merged again, and what the heap writes
  stays clear of what its users write.
\<close>

subsection \<open>Sequences of requests\<close>

datatype heap_call = Malloc u32 | Free u32

fun heap_run :: "heap_call list \<Rightarrow> heap \<Rightarrow> (u32 list \<times> heap) option" where
  "heap_run [] h = Some ([], h)"
| "heap_run (Malloc n # cs) h = do { (p, h) \<leftarrow> kmalloc n h; (ps, h) \<leftarrow> heap_run cs h; Some (p # ps, h) }"
| "heap_run (Free p # cs) h = do { h \<leftarrow> kfree p h; heap_run cs h }"

fun spec_run :: "heap_call list \<Rightarrow> pages \<Rightarrow> segment list \<Rightarrow> (u32 list \<times> pages \<times> segment list) option" where
  "spec_run [] pgs segs = Some ([], pgs, segs)"
| "spec_run (Malloc n # cs) pgs segs = (case malloc_spec n pgs segs of (p, pgs, segs) \<Rightarrow>
     map_option (\<lambda>(ps, pgs, segs). (p # ps, pgs, segs)) (spec_run cs pgs segs))"
| "spec_run (Free p # cs) pgs segs = (case free_spec p segs of None \<Rightarrow> None | Some segs \<Rightarrow> spec_run cs pgs segs)"

lemma heap_run_refines:
  "heap_ok h segs \<Longrightarrow> spec_run cs (page_state h) segs = Some (ps, pgs, segs') \<Longrightarrow>
   returns (heap_run cs h) (\<lambda>(ps', h'). ps' = ps \<and> page_state h' = pgs \<and> heap_ok h' segs')"
proof (induction cs arbitrary: h segs ps)
  case (Cons c cs)
  show ?case
  proof (cases c)
    case (Malloc n)
    obtain p pgs1 segs1 where m: "malloc_spec n (page_state h) segs = (p, pgs1, segs1)" by (cases "malloc_spec n (page_state h) segs") auto
    then obtain qs where r: "spec_run cs pgs1 segs1 = Some (qs, pgs, segs')" "ps = p # qs" using Cons.prems(2) Malloc by auto
    have "returns (kmalloc n h) (\<lambda>(p', h'). p' = p \<and> page_state h' = pgs1 \<and> heap_ok h' segs1)"
      using kmalloc_refines [OF Cons.prems(1), of n] m by (auto elim!: returns_weaken)
    then show ?thesis
      unfolding Malloc heap_run.simps
    proof (rule returns_bind, clarify)
      fix h1
      assume "pgs1 = page_state h1" "heap_ok h1 segs1"
      with Cons.IH [of h1 segs1 qs] r
      show "returns (heap_run cs h1 \<bind> (\<lambda>(ps, h). Some (p # ps, h))) (\<lambda>(ps', h'). ps' = ps \<and> page_state h' = pgs \<and> heap_ok h' segs')"
        by (auto elim!: returns_bind)
    qed
  next
    case (Free p)
    then obtain segs1 where f: "free_spec p segs = Some segs1" "spec_run cs (page_state h) segs1 = Some (ps, pgs, segs')"
      using Cons.prems(2) by (auto split: option.splits)
    from kfree_refines [OF Cons.prems(1) f(1)] show ?thesis
      unfolding Free heap_run.simps
    proof (rule returns_bind, elim conjE)
      fix h1
      assume "page_state h1 = page_state h" "heap_ok h1 segs1"
      with Cons.IH [of h1 segs1 ps] f(2)
      show "returns (heap_run cs h1) (\<lambda>(ps', h'). ps' = ps \<and> page_state h' = pgs \<and> heap_ok h' segs')" by simp
    qed
  qed
qed simp


subsection \<open>A heap to start from\<close>

text \<open>The statically allocated variables before \<^verbatim>\<open>HeapInit\<close>, with whatever is in memory.\<close>

definition boot_heap :: "memory \<Rightarrow> pages \<Rightarrow> heap" where
  "boot_heap m ps = \<lparr>mem = m, HeapSegments = None,
     HeapSegmentTable = replicate 8 \<lparr>Base = 0, End = 0, SegNext = None\<rparr>, HeapSegmentCount = 0, FreeListHead = 0, page_state = ps\<rparr>"

lemma boot_heap_ok:
  assumes "page_inv ps" and "PAGE_COUNT - 1 \<notin> avail ps"
  shows "heap_ok (boot_heap m ps) []"
  using assms
  by (simp add: heap_ok_def heap_frame_def boot_heap_def pages_kept_def ascending_def heap_hdrs_def free_list_def)

text \<open>Pages 32 to 95 are free, all others are not.\<close>

definition demo_free :: pages where
  "demo_free = set_run 32 64 PageStateAvailable \<lparr>PageBitmap = (\<lambda>_. 0), FreePages = 0\<rparr>"

lemma demo_free_inv: "avail demo_free = {32..<96}" "page_inv demo_free" "PAGE_COUNT - 1 \<notin> avail demo_free"
proof -
  have none: "avail \<lparr>PageBitmap = (\<lambda>_. 0), FreePages = 0\<rparr> = {}" by (simp add: avail_def page_is_free_def)
  then show a: "avail demo_free = {32..<96}" by (simp add: demo_free_def set_run_law(1) PAGE_COUNT_def)
  have "pages_ok \<lparr>PageBitmap = (\<lambda>_. 0), FreePages = 0\<rparr>" using none by (simp add: pages_ok_def)
  then show "page_inv demo_free" using a by (simp add: page_inv_def demo_free_def set_run_law(2) PAGE_COUNT_def)
  show "PAGE_COUNT - 1 \<notin> avail demo_free" by (simp add: a PAGE_COUNT_def)
qed

definition demo_heap :: heap where
  "demo_heap = boot_heap (\<lambda>_. 0) demo_free"

lemma demo_heap_ok: "heap_ok demo_heap []" "page_state demo_heap = demo_free"
  using boot_heap_ok demo_free_inv by (simp_all add: demo_heap_def boot_heap_def)

lemma demo_grow:
  assumes "0 < unat n" and "unat n \<le> 64"
  shows "\<exists>ps'. PageAllocPagesAt 0 n demo_free = (0x20000, ps')"
proof -
  let ?R = "free_runs demo_free 0 (unat n)"
  have "Min ?R = 32"
  proof (rule Min_eqI)
    show "32 \<in> ?R" using assms by (auto simp: free_runs_def demo_free_inv(1) PAGE_COUNT_def)
    show "32 \<le> s" if "s \<in> ?R" for s using that assms by (auto simp: free_runs_def demo_free_inv(1))
  qed simp
  moreover have "?R \<noteq> {}" using assms by (auto simp: free_runs_def demo_free_inv(1) PAGE_COUNT_def intro!: exI [of _ 32])
  moreover have "n \<noteq> 0" using assms(1) by auto
  ultimately show ?thesis
    using PageAllocPagesAt_law [of demo_free n 0] demo_free_inv(2) by (auto simp: page_inv_def PAGE_SIZE_def)
qed

text \<open>A request for 100 bytes on this heap.\<close>

lemma demo_malloc:
  "\<exists>pgs. malloc_spec 100 demo_free [] =
     (0x20010, pgs, [(0x20000, 0x21000, [Blk 0x20000 120 False, Blk 0x20078 3976 True])])"
proof -
  obtain pgs where g: "PageAllocPagesAt 0 1 demo_free = (0x20000, pgs)" using demo_grow [of 1] by auto
  have "block_size 100 = 120" by (simp add: block_size_def HEAP_ALIGN_UP_def HEAP_ALIGN_def META_SIZE_def)
  then show ?thesis
    by (simp add: malloc_spec_def grow_spec_def heap_top_def g PAGE_SIZE_def META_SIZE_def carve_def)
qed


subsection \<open>Failure\<close>

definition no_room :: "u32 \<Rightarrow> heap \<Rightarrow> segment list \<Rightarrow> bool" where
  "no_room n h segs \<longleftrightarrow> (\<forall>B \<in> set (blocks segs). bfree B \<longrightarrow> bsize B < n) \<and>
     (length segs = 8 \<or> (n + PAGE_SIZE - 1) div PAGE_SIZE = 0 \<or>
      free_runs (page_state h) (heap_top segs div 4096) (unat ((n + PAGE_SIZE - 1) div PAGE_SIZE)) = {})"

lemma grow_None:
  assumes "heap_ok h segs"
  shows "grow_spec k (page_state h) segs = None \<longleftrightarrow>
    length segs = 8 \<or> k = 0 \<or> free_runs (page_state h) (heap_top segs div 4096) (unat k) = {}"
proof -
  have f: "heap_frame h segs" and len: "length segs \<le> 8" and inv: "page_inv (page_state h)"
    using assms by (simp_all add: heap_ok_def heap_frame_def pages_kept_def)
  note hint = HeapGrowthHint_law [OF f]
  let ?a = "of_nat (heap_top segs) :: u32"
  have top: "unat (?a div PAGE_SIZE) = heap_top segs div 4096"
    using hint(3) by (simp add: unat_div PAGE_SIZE_def unat_of_nat_u32)
  show ?thesis
  proof (cases "k = 0")
    case True
    then show ?thesis using len by (simp add: grow_spec_def PageAllocPagesAt_def)
  next
    case False
    let ?R = "free_runs (page_state h) (heap_top segs div 4096) (unat k)"
    have law: "PageAllocPagesAt ?a k (page_state h) = (if ?R = {} then (0, page_state h)
        else (of_nat (Min ?R) * PAGE_SIZE, set_run (Min ?R) (unat k) PageStateUsed (page_state h)))"
      using PageAllocPagesAt_law [OF _ False, of "page_state h" ?a] inv by (simp add: top page_inv_def)
    have "of_nat (Min ?R) * PAGE_SIZE \<noteq> 0" if ne: "?R \<noteq> {}"
    proof -
      have m: "Min ?R \<in> ?R" by (rule free_runs_Min [OF ne])
      have "0 < unat k" using False by (simp add: unat_gt_0)
      then have "Min ?R \<in> avail (page_state h)" "Min ?R < PAGE_COUNT" using m by (auto simp: free_runs_def)
      then have "0 < Min ?R" "unat (of_nat (Min ?R) * PAGE_SIZE) = Min ?R * 4096"
        using inv page_addr by (auto simp: page_inv_def intro: gr0I)
      then show ?thesis by auto
    qed
    then show ?thesis using law len False by (auto simp: grow_spec_def)
  qed
qed

lemma malloc_spec_zero:
  assumes ok: "heap_ok h segs" and "malloc_spec n (page_state h) segs = (p, pgs, segs')" and "heap_ok h' segs'"
  shows "p = 0 \<longleftrightarrow> n = 0 \<or> unat n + 24 > 2 ^ 32 - 1 \<or> no_room (block_size n) h segs"
proof -
  let ?k = "(block_size n + PAGE_SIZE - 1) div PAGE_SIZE"
  have fit: "fit (block_size n) segs = None \<longleftrightarrow> (\<forall>B \<in> set (blocks segs). bfree B \<longrightarrow> bsize B < block_size n)"
    by (auto simp: fit_None not_le)
  have room: "no_room (block_size n) h segs \<longleftrightarrow> fit (block_size n) segs = None \<and> grow_spec ?k (page_state h) segs = None"
    unfolding no_room_def fit grow_None [OF ok] ..
  have "p \<noteq> 0" if "used segs' \<noteq> used segs \<or> segs' \<noteq> segs"
    using malloc_spec_used [OF assms] that by (auto split: if_splits)
  moreover have "segs' = segs \<Longrightarrow> p = 0" using malloc_spec_used [OF assms] by (auto split: if_splits)
  ultimately have p: "p = 0 \<longleftrightarrow> segs' = segs" by blast
  show ?thesis
  proof (cases "n = 0 \<or> unat n + 24 > 2 ^ 32 - 1")
    case True
    then show ?thesis using assms(2) by (auto simp: malloc_spec_def)
  next
    case False
    consider (fit) a ss where "fit (block_size n) segs = Some (a, ss)" | (grow) l u bs ps where "fit (block_size n) segs = None" "grow_spec ?k (page_state h) segs = Some ((l, u, bs), ps)"
      | (none) "no_room (block_size n) h segs" unfolding room by (cases "fit (block_size n) segs"; cases "grow_spec ?k (page_state h) segs") auto
    then show ?thesis
    proof cases
      case fit
      then have "segs' = ss" "p = a + META_SIZE" using assms(2) False by (auto simp: malloc_spec_def)
      obtain L l u xs B ys R where s: "segs = around L l u xs B ys R" "bfree B" "ss = L @ (l, u, xs @ carve (block_size n) B @ ys) # R"
        using fit_Some [OF fit] by blast
      have "carve (block_size n) B \<noteq> [B]" "length (carve (block_size n) B) = 1 \<or> length (carve (block_size n) B) = 2"
        using s(2) by (auto simp: carve_def) (metis blk.sel(3))
      then have "ss \<noteq> segs" unfolding s(1,3) by (auto simp: carve_def split: if_splits)
      then show ?thesis using p \<open>segs' = ss\<close> False fit by (auto simp: room)
    next
      case grow
      then have "segs' = segs @ [(l, u, carve (block_size n) (hd bs))]" using assms(2) False by (auto simp: malloc_spec_def)
      then show ?thesis using p False grow by (auto simp: room)
    next
      case none
      then have "p = 0" using assms(2) False unfolding room by (simp add: malloc_spec_def)
      with none show ?thesis by simp
    qed
  qed
qed

lemma kmalloc_zero: "heap_ok h segs \<Longrightarrow> kmalloc n h = Some (0, h') \<Longrightarrow> h' = h"
proof -
  assume ok: "heap_ok h segs" and run: "kmalloc n h = Some (0, h')"
  have "returns (kmalloc n h) (\<lambda>(p, h'). p = 0 \<longrightarrow> h' = h)"
  proof (cases "n = 0 \<or> n > (- 1) - META_SIZE - HEAP_ALIGN")
    case True
    then show ?thesis by (auto simp: kmalloc_def)
  next
    case False
    obtain q h1 segs1 where r: "kmalloc n h = Some (q, h1)" "malloc_spec n (page_state h) segs = (q, page_state h1, segs1)" "heap_ok h1 segs1"
      using kmalloc_refines [OF ok, of n] by (auto simp: returns_def)
    have "h1 = h" if "q = 0"
    proof -
      have "fit (block_size n) segs = None" "grow_spec ((block_size n + PAGE_SIZE - 1) div PAGE_SIZE) (page_state h) segs = None"
        using malloc_spec_zero [OF ok r(2,3)] that False
        by (auto simp: no_room_def fit_None not_le grow_None [OF ok] word_less_nat_alt META_SIZE_def HEAP_ALIGN_def)
      then have "HeapFindFree (block_size n) h = Some (0, h)" "HeapGrow ((block_size n + PAGE_SIZE - 1) div PAGE_SIZE) h = Some (0, h)"
        using HeapFindFree_fit [OF ok, of "block_size n"] HeapGrow_law [OF ok, of "(block_size n + PAGE_SIZE - 1) div PAGE_SIZE"] by simp_all
      then show ?thesis using r(1) False by (simp add: kmalloc_def block_size_def [symmetric])
    qed
    then show ?thesis using r(1) by simp
  qed
  with run show ?thesis by simp
qed

subsection \<open>Release undoes allocation\<close>



subsection \<open>Writing into a live block\<close>

lemma cell_apart:
  assumes asc: "ascending segs" and B: "B \<in> set (blocks segs)" and C: "C \<in> set (blocks segs)"
    and c: "unat (adr B) + 16 \<le> unat c" "unat c < unat (adr B) + unat (bsize B)" and k: "k < 24" "B = C \<Longrightarrow> k < 16"
  shows "adr C + of_nat k \<noteq> c"
proof
  assume eq: "adr C + of_nat k = c"
  have "unat (of_nat k :: u32) = k" using k(1) by (intro unat_of_nat_u32) simp
  then have u: "unat c = unat (adr C) + k"
    using eq block_bounds(2,3) [OF asc C] k(1) by (auto simp: unat_plus_if_size word_size)
  show False
  proof (cases "B = C")
    case True
    then show ?thesis using u c(1) k(2) by simp
  next
    case False
    then show ?thesis
      using blocks_apart [OF asc B C] u c k(1) block_bounds(3) [OF asc C] unfolding gap_def by linarith
  qed
qed

lemma write_live:
  assumes ok: "heap_ok h segs" and B: "B \<in> used segs" and c: "unat (adr B) + 16 \<le> unat c" "unat c < unat (adr B) + unat (bsize B)"
  shows "heap_ok (h\<lparr>mem := (mem h)(c := v)\<rparr>) segs"
proof -
  have asc: "ascending segs" and fl: "free_list h (free_addrs (blocks segs))" using ok by (simp_all add: heap_ok_def heap_frame_def)
  have Bb: "B \<in> set (blocks segs)" "\<not> bfree B" using B by (simp_all add: used_def)
  let ?m = "(mem h)(c := v)"
  have head: "adr C \<noteq> c" "adr C + 4 \<noteq> c" "adr C + 8 \<noteq> c" "adr C + 12 \<noteq> c" if "C \<in> set (blocks segs)" for C
    using cell_apart [OF asc Bb(1) that c, of 0] cell_apart [OF asc Bb(1) that c, of 4]
      cell_apart [OF asc Bb(1) that c, of 8] cell_apart [OF asc Bb(1) that c, of 12] by simp_all
  have node: "adr C + 16 \<noteq> c" "adr C + 20 \<noteq> c" if "C \<in> set (blocks segs)" "bfree C" for C
    using cell_apart [OF asc Bb(1) that(1) c, of 16] cell_apart [OF asc Bb(1) that(1) c, of 20] that(2) Bb(2) by auto
  have "same_headers (addrs (blocks segs)) (mem h) ?m"
    using head by (auto simp: same_headers_def addrs_def Magic_def Size_def PrevSize_def IsFree_def)
  then have "heap_hdrs ?m segs" using heap_hdrs_cong ok by (auto simp: heap_ok_def)
  moreover have "same_nodes (set (free_addrs (blocks segs))) (mem h) ?m"
    using node by (auto simp: same_nodes_def free_addrs_def NodePrev_def NodeNext_def)
  then have "free_list (h\<lparr>mem := ?m\<rparr>) (free_addrs (blocks segs))" by (intro free_list_nodes [OF fl]) auto
  ultimately show ?thesis using ok by (simp add: heap_ok_def heap_frame_def)
qed

subsection \<open>Where pages are given back\<close>

text \<open>
  When \<^verbatim>\<open>kfree\<close> gives pages back, the block it has just put on the free list lies in the pages it
  releases: the block stays on the list, and the page allocator will hand out its memory.
\<close>

lemma give_back_listed:
  assumes ok: "heap_ok h (around L l u xs B ys R)" and "\<not> bfree B" and m: "merged xs B ys = (xs', C, ys')"
    and g: "gives C ys'" and al: "4096 dvd unat (adr C)"
  shows "returns (kfree (adr B + META_SIZE) h) (\<lambda>h'. \<exists>F. free_list h' F \<and> adr C + 0x10000 \<in> set F \<and>
    unat (adr C + 0x10000) div 4096 \<in> avail (page_state h'))"
proof -
  have "hdr (mem h) (last_size 0 xs) B" using ok by (auto simp: joint_heap_ok dest: jointD(8))
  then have "kfree (adr B + META_SIZE) h = put_back (adr B) h \<bind> (\<lambda>(b, h). give_back b h)"
    using assms(2) by (simp add: kfree_put_back hdr_def)
  moreover have "returns (give_back (adr C) h1) (\<lambda>h'. \<exists>F. free_list h' F \<and> adr C + 0x10000 \<in> set F \<and>
      unat (adr C + 0x10000) div 4096 \<in> avail (page_state h'))" if ok1: "heap_ok h1 (around L l u xs' C ys' R)" for h1
  proof -
    let ?a = "adr C + 0x10000" and ?n = "(bsize C - 0x10000) div PAGE_SIZE"
    have free: "bfree C" using m by (auto simp: merged_def Let_def split: prod.splits)
    have asc: "ascending (around L l u xs' C ys' R)" and inv: "page_inv (page_state h1)"
      using ok1 by (simp_all add: heap_ok_def heap_frame_def pages_kept_def)
    note pl = block_place [OF asc]
    have big: "0x11000 \<le> unat (bsize C)" using g by (simp add: gives_def)
    have n: "unat ?n = (unat (bsize C) - 0x10000) div 4096"
      using big by (simp add: unat_div unat_sub word_le_nat_alt PAGE_SIZE_def)
    have a: "unat ?a = unat (adr C) + 0x10000" using pl(3,4) big by (simp add: unat_plus_if_size word_size)
    have "unat ?n * 4096 \<le> unat (bsize C) - 0x10000" unfolding n by simp
    then have "unat ?a + unat ?n * 4096 \<le> 2 ^ 32" using a pl(3,4) big by linarith
    moreover have "4096 dvd unat ?a" using al by (simp add: a)
    moreover have "?n \<noteq> 0" "?a \<noteq> 0" using n a big by (auto simp flip: unat_0_iff)
    ultimately have "unat ?a div 4096 \<in> avail (PageFreePages ?a ?n (page_state h1))"
      using pg.release_law [OF inv, of ?a ?n] by (simp add: unat_gt_0)
    then show ?thesis
      using give_back_cut [OF ok1 free g] by (auto simp: joint_def free_list_def elim!: returns_weaken intro!: exI)
  qed
  ultimately show ?thesis using put_back_law [OF ok assms(2) m] by (auto elim!: returns_bind)
qed

subsection \<open>Initialisation\<close>

lemma HeapInit_law:
  assumes "page_inv pgs" and "PAGE_COUNT - 1 \<notin> avail pgs"
  shows "\<exists>h segs. HeapInit (boot_heap m pgs) = Some h \<and> heap_ok h segs \<and> coalesced segs \<and>
    (segs = [] \<or> (\<exists>l B. segs = [(l, l + 16 * 4096, [B])] \<and> bfree B))"
proof -
  let ?h = "boot_heap m pgs"
  have ok: "heap_ok ?h []" by (rule boot_heap_ok [OF assms])
  have h: "?h\<lparr>FreeListHead := 0\<rparr> = ?h" by (simp add: boot_heap_def)
  show ?thesis
  proof (cases "grow_spec HEAP_GROW_PAGES pgs []")
    case None
    then have "HeapInit ?h = Some ?h" using HeapGrow_law [OF ok, of HEAP_GROW_PAGES] by (simp add: HeapInit_def h) (simp add: boot_heap_def)
    then show ?thesis using ok by (intro exI [of _ ?h] exI [of _ "[]"]) (simp add: coalesced_def)
  next
    case (Some r)
    then obtain T ps where g: "grow_spec HEAP_GROW_PAGES (page_state ?h) [] = Some (T, ps)" by (cases r) (simp add: boot_heap_def)
    then obtain b h' where h': "HeapGrow HEAP_GROW_PAGES ?h = Some (b, h')" "heap_ok h' [T]"
      using HeapGrow_law [OF ok, of HEAP_GROW_PAGES] by (auto simp: returns_def)
    obtain a where T: "T = (unat a, unat a + 16 * 4096, [Blk a (16 * PAGE_SIZE) True])"
      using g by (auto simp: grow_spec_def HEAP_GROW_PAGES_def split: prod.splits if_splits)
    have "HeapInit ?h = Some h'" by (simp add: HeapInit_def h h'(1))
    then show ?thesis using h'(2) T by (intro exI [of _ h'] exI [of _ "[T]"]) (auto simp: coalesced_def)
  qed
qed

subsection \<open>Properties\<close>



text \<open>
  C22: What \<^verbatim>\<open>kmalloc\<close> hands out is a block of at least the size asked for, aligned to 8 bytes, inside
  the address space, and overlaps no block that is live; every live block stays live. When it
  returns 0, the live blocks are the same as before.
\<close>
theorem kmalloc_fresh:
  assumes "heap_inv h"
  shows "\<exists>p h'. kmalloc n h = Some (p, h') \<and> heap_inv h' \<and> live h \<subseteq> live h' \<and> (p = 0 \<longrightarrow> live h' = live h) \<and>
    (p \<noteq> 0 \<longrightarrow> (\<exists>k. (p, k) \<in> live h' \<and> unat n \<le> k \<and> 8 dvd unat p \<and> unat p + k < 2 ^ 32 \<and>
      (\<forall>(q, j) \<in> live h. unat p + k \<le> unat q \<or> unat q + j \<le> unat p)))"
  using kheap.malloc_fresh [OF assms, of n] by (auto simp: returns_def)

theorem kmalloc_fresh_witness:
  "heap_inv demo_heap \<and> (\<exists>p h'. kmalloc 100 demo_heap = Some (p, h') \<and> heap_inv h' \<and> live demo_heap \<subseteq> live h')"
proof -
  have inv: "heap_inv demo_heap" using demo_heap_ok(1) by (auto simp: heap_inv_def)
  with kmalloc_fresh [OF inv, of 100] show ?thesis by blast
qed

text \<open>
  C24: \<^verbatim>\<open>kmalloc\<close> fails exactly when it is asked for nothing, for more than the address space can
  hold, or when no free block is large enough and the heap can not grow: all segments are in use, or
  there is no run of free pages of that length above the heap. A failed call changes nothing.
\<close>
theorem kmalloc_fails:
  assumes "heap_ok h segs"
  shows "\<exists>p h'. kmalloc n h = Some (p, h') \<and> (p = 0 \<longrightarrow> h' = h) \<and>
    (p = 0 \<longleftrightarrow> n = 0 \<or> unat n > 2 ^ 32 - 25 \<or>
       (\<forall>B \<in> set (blocks segs). bfree B \<longrightarrow> bsize B < block_size n) \<and>
       (length segs = 8 \<or> (block_size n + PAGE_SIZE - 1) div PAGE_SIZE = 0 \<or>
        free_runs (page_state h) (heap_top segs div 4096) (unat ((block_size n + PAGE_SIZE - 1) div PAGE_SIZE)) = {}))"
proof -
  obtain p h' segs' where r: "kmalloc n h = Some (p, h')" "malloc_spec n (page_state h) segs = (p, page_state h', segs')" "heap_ok h' segs'"
    using kmalloc_refines [OF assms, of n] by (auto simp: returns_def)
  have "unat n + 24 > 2 ^ 32 - 1 \<longleftrightarrow> unat n > 2 ^ 32 - 25" by simp
  then show ?thesis
    using malloc_spec_zero [OF assms r(2,3)] kmalloc_zero [OF assms] r(1) unfolding no_room_def by auto
qed

theorem kmalloc_fails_witness:
  "heap_ok demo_heap [] \<and> (\<exists>p h'. kmalloc 0xFFFFFFF0 demo_heap = Some (p, h') \<and> p = 0 \<and> h' = demo_heap)"
proof -
  obtain p h' where "kmalloc 0xFFFFFFF0 demo_heap = Some (p, h')" "p = 0 \<longrightarrow> h' = demo_heap" "p = 0"
    using kmalloc_fails [OF demo_heap_ok(1), of "0xFFFFFFF0"] by auto
  with demo_heap_ok(1) show ?thesis by blast
qed





text \<open>
  The heap and its users do not get in each other's way: a store anywhere inside a live block
  leaves the heap in order, with the same blocks.
\<close>
theorem live_store_harmless:
  assumes "heap_ok h segs" and "(p, k) \<in> live h" and "unat p \<le> unat c" and "unat c < unat p + k"
  shows "heap_ok (h\<lparr>mem := (mem h)(c := v)\<rparr>) segs"
proof -
  obtain B where B: "B \<in> used segs" "(p, k) = payload B" using assms(1,2) by (auto simp: live_used)
  have Bb: "B \<in> set (blocks segs)" and asc: "ascending segs" using B(1) assms(1) by (simp_all add: used_def heap_ok_def heap_frame_def)
  have "unat p = unat (adr B) + 16" "k = unat (bsize B) - 16" "24 \<le> unat (bsize B)"
    using payload_start [OF assms(1) Bb] B(2) block_bounds(3) [OF asc Bb] by (simp_all add: payload_def)
  then show ?thesis using assms(3,4) by (intro write_live [OF assms(1) B(1)]) auto
qed

theorem live_store_harmless_witness:
  "\<exists>h segs. heap_ok h segs \<and> (0x20010, 104) \<in> live h \<and> heap_ok (h\<lparr>mem := (mem h)(0x20014 := 7)\<rparr>) segs"
proof -
  obtain pgs where m: "malloc_spec 100 demo_free [] =
      (0x20010, pgs, [(0x20000, 0x21000, [Blk 0x20000 120 False, Blk 0x20078 3976 True])])" using demo_malloc by blast
  let ?segs = "[(0x20000, 0x21000, [Blk 0x20000 120 False, Blk 0x20078 3976 True])]"
  have "spec_run [Malloc 100] (page_state demo_heap) [] = Some ([0x20010], pgs, ?segs)" by (simp add: demo_heap_ok(2) m)
  from heap_run_refines [OF demo_heap_ok(1) this] obtain h where h: "heap_ok h ?segs" by (auto simp: returns_def)
  have "(0x20010, 104) = payload (Blk 0x20000 120 False)" "Blk 0x20000 120 False \<in> used ?segs"
    by (simp_all add: used_def blocks_def payload_def META_SIZE_def)
  then have "(0x20010, 104) \<in> live h" unfolding live_used [OF h] by (metis imageI)
  from live_store_harmless [OF h this, of "0x20014" 7] this h show ?thesis by fastforce
qed

text \<open>
  C26: What \<^verbatim>\<open>kfree\<close> does where it gives pages back, to a merged block \<open>C\<close> of 17 pages or more that starts
  at a page boundary and does not end its segment: it puts the memory past the sixteenth page of
  \<open>C\<close> on the free list and also makes its first page available in the page allocator, so that two
  owners can be given the same memory.
\<close>
theorem kfree_gives_listed_pages:
  assumes "heap_ok h (L @ (l, u, xs @ B # ys) # R)" and "\<not> bfree B" and "merged xs B ys = (xs', C, ys')"
    and "ys' \<noteq> []" and "17 * 4096 \<le> unat (bsize C)" and "4096 dvd unat (adr C)"
  shows "\<exists>h' F. kfree (adr B + META_SIZE) h = Some h' \<and> free_list h' F \<and> adr C + 0x10000 \<in> set F \<and>
    unat (adr C + 0x10000) div 4096 \<in> avail (page_state h')"
proof -
  have "gives C ys'" using assms(4,5) by (simp add: gives_def)
  from give_back_listed [OF assms(1-3) this assms(6)] show ?thesis by (auto simp: returns_def)
qed

theorem kfree_gives_listed_pages_witness:
  "\<exists>h ps h' F. heap_run [Malloc 100000, Malloc 100] demo_heap = Some (ps, h) \<and> kfree 0x20010 h = Some h' \<and>
     free_list h' F \<and> 0x30000 \<in> set F \<and> 48 \<in> avail (page_state h')"
proof -
  obtain pgs where g: "PageAllocPagesAt 0 25 demo_free = (0x20000, pgs)" using demo_grow [of 25] by auto
  have bs: "block_size 100000 = 100016" "block_size 100 = 120"
    by (simp_all add: block_size_def HEAP_ALIGN_UP_def HEAP_ALIGN_def META_SIZE_def)
  let ?B = "Blk 0x20000 100016 False" and ?ys = "[Blk 0x386B0 120 False, Blk 0x38728 2264 True]"
  have "spec_run [Malloc 100000, Malloc 100] (page_state demo_heap) [] =
      Some ([0x20010, 0x386C0], pgs, [] @ (0x20000, 0x39000, [] @ ?B # ?ys) # [])"
    by (simp add: demo_heap_ok(2) malloc_spec_def grow_spec_def heap_top_def bs g PAGE_SIZE_def META_SIZE_def carve_def)
  from heap_run_refines [OF demo_heap_ok(1) this] obtain h where run: "heap_run [Malloc 100000, Malloc 100] demo_heap = Some ([0x20010, 0x386C0], h)"
    and ok: "heap_ok h ([] @ (0x20000, 0x39000, [] @ ?B # ?ys) # [])" by (auto simp: returns_def)
  have m: "merged [] ?B ?ys = ([], Blk 0x20000 100016 True, ?ys)" by (simp add: merged_def join_left_def join_right_def)
  from kfree_gives_listed_pages [OF ok _ m] run show ?thesis by (simp add: META_SIZE_def)
qed

end
