(* ===== verification/Paging.thy ===== *)
theory Paging
  imports Page_Laws
begin

text \<open>
  Two-level paging, \<^verbatim>\<open>src/mm/paging.c\<close>. The state is the page directory, the 1024 page tables,
  the flag \<^verbatim>\<open>PagingEnabled\<close> and the part of the processor that the assembly of the file touches:
  the control registers \<open>cr0\<close> and \<open>cr3\<close> and the translation cache, which the processor fills on
  accesses and which \<^verbatim>\<open>invlpg\<close> and a load of \<open>cr3\<close> invalidate. \<open>pd\<close> and \<open>pt\<close> are the addresses
  at which the linker places \<^verbatim>\<open>PageDirectory\<close> and \<^verbatim>\<open>PageTables\<close>. \<open>walk\<close> and \<open>translate\<close> are what
  the processor does with the tables (two-level walk, present bit, cache first).

  The specification is a map from page numbers to table entries; \<open>mmu_ok\<close> relates it to the
  state, every operation preserves the relation, and in related states the processor
  translates by the map, cached or not. The operations promise the laws of the locale
  \<open>address_space\<close>.
\<close>

definition PAGING_PRESENT :: u32 where
  "PAGING_PRESENT = 0x001"

definition PAGING_WRITABLE :: u32 where
  "PAGING_WRITABLE = 0x002"

definition PAGING_USER :: u32 where
  "PAGING_USER = 0x004"

definition PAGE_TABLE_ENTRIES :: nat where
  "PAGE_TABLE_ENTRIES = 1024"

definition PAGE_DIRECTORY_FLAGS :: u32 where
  "PAGE_DIRECTORY_FLAGS = PAGING_PRESENT OR PAGING_WRITABLE"

record mmu =
  PageDirectory :: "nat \<Rightarrow> u32"
  PageTables :: "nat \<Rightarrow> nat \<Rightarrow> u32"
  PagingEnabled :: bool
  cr0 :: u32
  cr3 :: u32
  tlb :: "nat \<Rightarrow> u32 option"

subsection \<open>Operations\<close>

definition PageDirectoryIndex :: "u32 \<Rightarrow> u32" where
  "PageDirectoryIndex address = drop_bit 22 address"

definition PageTableIndex :: "u32 \<Rightarrow> u32" where
  "PageTableIndex address = drop_bit 12 address AND 0x3ff"

definition invlpg :: "u32 \<Rightarrow> mmu \<Rightarrow> mmu" where
  "invlpg v s = s\<lparr>tlb := (tlb s)(unat v div 4096 := None)\<rparr>"

definition PagingMap :: "u32 \<Rightarrow> u32 \<Rightarrow> u32 \<Rightarrow> u32 \<Rightarrow> mmu \<Rightarrow> mmu" where
  "PagingMap pt VirtualAddress PhysicalAddress Flags s =
     (let v = VirtualAddress AND NOT 0xFFF;
          p = PhysicalAddress AND NOT 0xFFF;
          d = unat (PageDirectoryIndex v);
          t = unat (PageTableIndex v);
          s = s\<lparr>PageDirectory := (PageDirectory s)(d := ((pt + of_nat d * 4096) AND NOT 0xFFF) OR PAGE_DIRECTORY_FLAGS)\<rparr>;
          s = s\<lparr>PageTables := (PageTables s)(d := (PageTables s d)(t := p OR Flags))\<rparr>
      in invlpg v s)"

definition PagingUnmap :: "u32 \<Rightarrow> mmu \<Rightarrow> mmu" where
  "PagingUnmap VirtualAddress s =
     (let v = VirtualAddress AND NOT 0xFFF;
          d = unat (PageDirectoryIndex v);
          t = unat (PageTableIndex v)
      in invlpg v (s\<lparr>PageTables := (PageTables s)(d := (PageTables s d)(t := 0))\<rparr>))"

text \<open>The two nested loops of \<^verbatim>\<open>PagingInit\<close>: one table, and all tables with the directory.\<close>

definition init_table :: "nat \<Rightarrow> mmu \<Rightarrow> mmu" where
  "init_table d s = fold (\<lambda>t s. s\<lparr>PageTables := (PageTables s)(d := (PageTables s d)
       (t := (push_bit 22 (of_nat d) OR push_bit 12 (of_nat t)) OR PAGE_DIRECTORY_FLAGS))\<rparr>) [0..<PAGE_TABLE_ENTRIES] s"

definition init_directory :: "u32 \<Rightarrow> mmu \<Rightarrow> mmu" where
  "init_directory pt s = fold (\<lambda>d s. init_table d (s\<lparr>PageDirectory := (PageDirectory s)
       (d := ((pt + of_nat d * 4096) AND NOT 0xFFF) OR PAGE_DIRECTORY_FLAGS)\<rparr>)) [0..<PAGE_TABLE_ENTRIES] s"

definition PagingInit :: "u32 \<Rightarrow> u32 \<Rightarrow> mmu \<Rightarrow> mmu" where
  "PagingInit pd pt s =
     (let s = init_directory pt s;
          s = s\<lparr>cr3 := pd, tlb := (\<lambda>_. None)\<rparr>;
          s = s\<lparr>cr0 := cr0 s OR 0x80000000\<rparr>
      in s\<lparr>PagingEnabled := True\<rparr>)"

definition PagingIsEnabled :: "mmu \<Rightarrow> bool" where
  "PagingIsEnabled s = PagingEnabled s"

subsection \<open>The processor\<close>

definition frame :: "u32 \<Rightarrow> u32 \<Rightarrow> u32" where
  "frame pte v = (pte AND NOT 0xFFF) OR (v AND 0xFFF)"

text \<open>
  A walk reads the directory entry, finds the table it points to and reads the table entry;
  both must be present. An entry that points outside the array of tables is never written by
  this code; the walk is then a fault.
\<close>

definition walk :: "u32 \<Rightarrow> mmu \<Rightarrow> u32 \<Rightarrow> u32 option" where
  "walk pt s v =
     (let pde = PageDirectory s (unat (PageDirectoryIndex v));
          k = unat ((pde AND NOT 0xFFF) - pt) div 4096;
          pte = PageTables s k (unat (PageTableIndex v))
      in if bit pde 0 \<and> k < PAGE_TABLE_ENTRIES \<and> bit pte 0 then Some pte else None)"

definition translate :: "u32 \<Rightarrow> mmu \<Rightarrow> u32 \<Rightarrow> u32 option" where
  "translate pt s v =
     (if bit (cr0 s) 31
      then map_option (\<lambda>pte. frame pte v) (case tlb s (unat v div 4096) of Some pte \<Rightarrow> Some pte | None \<Rightarrow> walk pt s v)
      else Some v)"

text \<open>An access may leave the entry it used in the cache.\<close>

definition access :: "u32 \<Rightarrow> u32 \<Rightarrow> mmu \<Rightarrow> mmu" where
  "access pt v s = (case tlb s (unat v div 4096) of
     Some _ \<Rightarrow> s
   | None \<Rightarrow> s\<lparr>tlb := (tlb s)(unat v div 4096 := walk pt s v)\<rparr>)"

subsection \<open>Addresses and indices\<close>

lemma unat_align32: "unat ((x :: u32) AND - 4096) = unat x div 4096 * 4096"
proof -
  have "(- 4096 :: u32) = NOT (mask 12)" by (simp add: mask_eq_exp_minus_1)
  then have "unat (x AND - 4096) = unat (push_bit 12 (drop_bit 12 x))" by (simp only: align_down)
  also have "\<dots> = (unat x div 4096 * 4096) mod 2 ^ 32"
    by (simp add: push_bit_eq_mult drop_bit_eq_div unat_word_ariths unat_div mod_mult_left_eq)
  also have "\<dots> = unat x div 4096 * 4096"
    using u32_less [of x] div_times_less_eq_dividend [of "unat x" 4096] by simp
  finally show ?thesis .
qed

lemma directory_index: "unat (PageDirectoryIndex v) = unat v div 4096 div 1024"
  by (simp add: PageDirectoryIndex_def drop_bit_eq_div unat_div div_mult2_eq [symmetric])

lemma table_index: "unat (PageTableIndex v) = unat v div 4096 mod 1024"
proof -
  have "PageTableIndex v = take_bit 10 (drop_bit 12 v)"
    by (simp add: PageTableIndex_def take_bit_eq_mask mask_eq_exp_minus_1)
  then show ?thesis by (simp add: take_bit_eq_mod unat_mod drop_bit_eq_div unat_div)
qed

lemma page_number: "unat (v :: u32) div 4096 < PAGE_COUNT" "unat v div 4096 div 1024 < 1024"
  using u32_less [of v] by (simp_all add: PAGE_COUNT_def div_mult2_eq [symmetric])

lemma aligned_page: "unat ((v :: u32) AND - 4096) div 4096 = unat v div 4096"
  by (simp add: unat_align32)

lemma aligned_and: "4096 dvd unat x \<Longrightarrow> (x :: u32) AND - 4096 = x"
  by (rule unsigned_word_eqI [where ?'a = nat]) (simp add: unat_align32)

lemma and_low_bits: "(x AND - 4096 :: u32) AND 0xFFF = 0"
  by (simp add: and.assoc)

text \<open>The directory entry for table \<open>d\<close> leads to that table.\<close>

definition tables_placed :: "u32 \<Rightarrow> bool" where
  "tables_placed pt \<longleftrightarrow> 4096 dvd unat pt \<and> unat pt + 0x400000 \<le> 2 ^ 32"

definition directory_entry :: "u32 \<Rightarrow> nat \<Rightarrow> u32" where
  "directory_entry pt d = ((pt + of_nat d * 4096) AND NOT 0xFFF) OR PAGE_DIRECTORY_FLAGS"

lemma table_address:
  assumes "tables_placed pt" and "d < 1024"
  shows "unat (pt + of_nat d * 4096) = unat pt + d * 4096" and "(pt + of_nat d * 4096) AND - 4096 = pt + of_nat d * 4096"
proof -
  have "of_nat d * 4096 = (of_nat (d * 4096) :: u32)" by simp
  then have d: "unat (of_nat d * 4096 :: u32) = d * 4096"
    using assms(2) unat_of_nat_u32 [of "d * 4096"] by simp
  then show u: "unat (pt + of_nat d * 4096) = unat pt + d * 4096"
    using assms by (simp add: unat_plus_if_size word_size tables_placed_def)
  show "(pt + of_nat d * 4096) AND - 4096 = pt + of_nat d * 4096"
    by (rule aligned_and) (use assms u in \<open>simp add: tables_placed_def\<close>)
qed

lemma directory_entry_walk:
  assumes "tables_placed pt" and "d < 1024"
  shows "bit (directory_entry pt d) 0" and "unat ((directory_entry pt d AND - 4096) - pt) div 4096 = d"
proof -
  let ?a = "pt + of_nat d * 4096"
  have e: "directory_entry pt d = ?a OR 3"
    by (simp add: directory_entry_def table_address(2) [OF assms] PAGE_DIRECTORY_FLAGS_def PAGING_PRESENT_def PAGING_WRITABLE_def)
  show "bit (directory_entry pt d) 0" by (simp add: e bit_or_iff)
  have "directory_entry pt d AND - 4096 = ?a"
    by (simp add: e bit.conj_disj_distrib2 table_address(2) [OF assms])
  moreover have "?a - pt = of_nat (d * 4096)" by simp
  ultimately show "unat ((directory_entry pt d AND - 4096) - pt) div 4096 = d"
    using assms(2) unat_of_nat_u32 [of "d * 4096"] by simp
qed

subsection \<open>The specification\<close>

text \<open>A map from page numbers to table entries; an entry whose lowest bit is clear maps nothing.\<close>

type_synonym page_map = "nat \<Rightarrow> u32"

definition identity_map :: page_map where
  "identity_map n = of_nat n * 4096 OR PAGE_DIRECTORY_FLAGS"

definition spec_map :: "u32 \<Rightarrow> u32 \<Rightarrow> u32 \<Rightarrow> page_map \<Rightarrow> page_map" where
  "spec_map v p flags m = m(unat v div 4096 := (p AND NOT 0xFFF) OR flags)"

definition spec_unmap :: "u32 \<Rightarrow> page_map \<Rightarrow> page_map" where
  "spec_unmap v m = m(unat v div 4096 := 0)"

definition spec_translate :: "page_map \<Rightarrow> u32 \<Rightarrow> u32 option" where
  "spec_translate m v = (let pte = m (unat v div 4096) in if bit pte 0 then Some (frame pte v) else None)"

text \<open>
  The relation: the directory leads to the tables, the tables hold the map, the cache holds
  nothing else, and paging is on.
\<close>

definition mmu_ok :: "u32 \<Rightarrow> page_map \<Rightarrow> mmu \<Rightarrow> bool" where
  "mmu_ok pt m s \<longleftrightarrow> bit (cr0 s) 31 \<and> PagingEnabled s \<and>
     (\<forall>d < 1024. PageDirectory s d = directory_entry pt d) \<and>
     (\<forall>n < PAGE_COUNT. PageTables s (n div 1024) (n mod 1024) = m n) \<and>
     (\<forall>n pte. tlb s n = Some pte \<longrightarrow> pte = m n \<and> bit pte 0)"

lemma walk_spec:
  assumes "tables_placed pt" and "mmu_ok pt m s"
  shows "walk pt s v = (if bit (m (unat v div 4096)) 0 then Some (m (unat v div 4096)) else None)"
proof -
  let ?n = "unat v div 4096"
  note n = page_number [of v]
  have "PageDirectory s (?n div 1024) = directory_entry pt (?n div 1024)"
    and "PageTables s (?n div 1024) (?n mod 1024) = m ?n"
    using assms(2) n by (auto simp: mmu_ok_def)
  then show ?thesis
    using directory_entry_walk [OF assms(1) n(2)] n(2)
    by (simp add: walk_def Let_def directory_index table_index PAGE_TABLE_ENTRIES_def)
qed

lemma translate_spec:
  assumes "tables_placed pt" and "mmu_ok pt m s"
  shows "translate pt s v = spec_translate m v"
proof -
  have "tlb s (unat v div 4096) = Some pte \<Longrightarrow> pte = m (unat v div 4096) \<and> bit pte 0" for pte
    using assms(2) by (auto simp: mmu_ok_def)
  moreover have "bit (cr0 s) 31" using assms(2) by (simp add: mmu_ok_def)
  ultimately show ?thesis
    by (auto simp: translate_def spec_translate_def walk_spec [OF assms] Let_def split: option.split)
qed

lemma access_ok:
  assumes "tables_placed pt" and "mmu_ok pt m s"
  shows "mmu_ok pt m (access pt v s)"
proof (cases "tlb s (unat v div 4096)")
  case None
  with assms(2) show ?thesis
    unfolding access_def by (auto simp: mmu_ok_def walk_spec [OF assms] split: if_splits)
qed (use assms in \<open>simp add: access_def\<close>)

lemma page_split:
  fixes n k :: nat
  shows "n div 1024 = k div 1024 \<and> n mod 1024 = k mod 1024 \<longleftrightarrow> n = k"
  by (metis div_mult_mod_eq)

lemma table_update:
  fixes T :: "nat \<Rightarrow> nat \<Rightarrow> u32"
  shows "(T(k div 1024 := (T (k div 1024))(k mod 1024 := e))) (n div 1024) (n mod 1024) =
    (if n = k then e else T (n div 1024) (n mod 1024))"
  using page_split [of n k] by auto

lemma PagingMap_ok:
  assumes "mmu_ok pt m s"
  shows "mmu_ok pt (spec_map v p flags m) (PagingMap pt v p flags s)"
  using assms
  by (auto simp: mmu_ok_def PagingMap_def spec_map_def invlpg_def Let_def directory_index table_index aligned_page
      directory_entry_def table_update simp del: fun_upd_apply) (auto simp: fun_upd_def split: if_splits)

lemma PagingUnmap_ok:
  assumes "mmu_ok pt m s"
  shows "mmu_ok pt (spec_unmap v m) (PagingUnmap v s)"
  using assms
  by (auto simp: mmu_ok_def PagingUnmap_def spec_unmap_def invlpg_def Let_def directory_index table_index aligned_page
      table_update simp del: fun_upd_apply) (auto simp: fun_upd_def split: if_splits)

subsection \<open>Initialisation\<close>

lemma init_table_tables:
  "PageTables (init_table d s) = (PageTables s)(d := (\<lambda>t. if t < 1024
     then (push_bit 22 (of_nat d) OR push_bit 12 (of_nat t)) OR PAGE_DIRECTORY_FLAGS else PageTables s d t)) \<and>
   PageDirectory (init_table d s) = PageDirectory s"
proof -
  let ?w = "\<lambda>t s. s\<lparr>PageTables := (PageTables s)(d := (PageTables s d)
       (t := (push_bit 22 (of_nat d) OR push_bit 12 (of_nat t)) OR PAGE_DIRECTORY_FLAGS))\<rparr>"
  have "PageTables (fold ?w [0..<k] s) = (PageTables s)(d := (\<lambda>t. if t < k
     then (push_bit 22 (of_nat d) OR push_bit 12 (of_nat t)) OR PAGE_DIRECTORY_FLAGS else PageTables s d t)) \<and>
     PageDirectory (fold ?w [0..<k] s) = PageDirectory s" for k
    by (induction k) (auto simp: fun_eq_iff less_Suc_eq)
  then show ?thesis by (simp only: init_table_def PAGE_TABLE_ENTRIES_def)
qed

lemma init_directory_law:
  "(\<forall>d < 1024. PageDirectory (init_directory pt s) d = directory_entry pt d) \<and>
   (\<forall>d < 1024. \<forall>t < 1024. PageTables (init_directory pt s) d t =
      (push_bit 22 (of_nat d) OR push_bit 12 (of_nat t)) OR PAGE_DIRECTORY_FLAGS)"
proof -
  let ?w = "\<lambda>d s. init_table d (s\<lparr>PageDirectory := (PageDirectory s)
       (d := ((pt + of_nat d * 4096) AND NOT 0xFFF) OR PAGE_DIRECTORY_FLAGS)\<rparr>)"
  have "(\<forall>d < k. PageDirectory (fold ?w [0..<k] s) d = directory_entry pt d) \<and>
     (\<forall>d < k. \<forall>t < 1024. PageTables (fold ?w [0..<k] s) d t =
      (push_bit 22 (of_nat d) OR push_bit 12 (of_nat t)) OR PAGE_DIRECTORY_FLAGS)" for k
    by (induction k) (auto simp: init_table_tables less_Suc_eq directory_entry_def)
  then show ?thesis by (simp only: init_directory_def PAGE_TABLE_ENTRIES_def)
qed

lemma bit_small:
  assumes "t < 1024" and "bit (of_nat t :: u32) j"
  shows "j < 10"
proof -
  have "(of_nat t :: u32) = take_bit 10 (of_nat t)"
    by (rule unsigned_word_eqI [where ?'a = nat])
      (use assms(1) unat_of_nat_u32 [of t] in \<open>simp add: take_bit_eq_mod unat_mod\<close>)
  with assms(2) show ?thesis by (metis bit_take_bit_iff)
qed

lemma index_address:
  assumes "t < 1024"
  shows "push_bit 22 (of_nat d) OR push_bit 12 (of_nat t) = (of_nat (d * 1024 + t) * 4096 :: u32)"
proof -
  have "push_bit 22 (of_nat d :: u32) AND push_bit 12 (of_nat t) = 0"
    using bit_small [OF assms] by (intro bit_eqI) (fastforce simp: bit_and_iff bit_push_bit_iff)
  then have "push_bit 22 (of_nat d :: u32) OR push_bit 12 (of_nat t) = push_bit 22 (of_nat d) + push_bit 12 (of_nat t)"
    by (simp only: disjunctive_add_eq_or)
  then show ?thesis by (simp add: push_bit_eq_mult algebra_simps)
qed

lemma PagingInit_ok: "mmu_ok pt identity_map (PagingInit pd pt s)"
proof -
  have "PageTables (init_directory pt s) (n div 1024) (n mod 1024) = identity_map n" if "n < PAGE_COUNT" for n
  proof -
    have "n div 1024 < 1024" using that by (simp add: PAGE_COUNT_def div_less_iff_less_mult)
    then show ?thesis
      using init_directory_law [of pt s] index_address [of "n mod 1024" "n div 1024"]
      by (simp add: identity_map_def)
  qed
  moreover have "bit (x OR 0x80000000 :: u32) 31" for x
  proof -
    have "(0x80000000 :: u32) = 2 ^ 31" by simp
    then show ?thesis by (simp only: bit_or_iff bit_exp_iff) simp
  qed
  ultimately show ?thesis
    using init_directory_law [of pt s] by (simp add: PagingInit_def mmu_ok_def Let_def)
qed

subsection \<open>The interface of an address space\<close>

lemma frame_entry:
  assumes "flags AND - 4096 = 0"
  shows "frame ((p AND - 4096) OR flags) v = (p AND - 4096) OR (v AND 0xFFF)"
  using assms by (simp add: frame_def bit.conj_disj_distrib2 and.assoc)

lemma identity_frame:
  assumes "n = unat v div 4096"
  shows "frame (identity_map n) v = v" and "bit (identity_map n) 0"
proof -
  have n: "of_nat n * 4096 = (v AND - 4096)"
  proof (rule unsigned_word_eqI [where ?'a = nat])
    have "unat (of_nat n * PAGE_SIZE) = n * 4096" using assms page_number(1) by (intro page_addr) simp
    then show "unat (of_nat n * 4096 :: u32) = unat (v AND - 4096)" by (simp add: unat_align32 assms PAGE_SIZE_def)
  qed
  have "v = (v AND - 4096) OR (v AND 0xFFF)"
  proof -
    have "v = v AND (- 4096 OR 0xFFF)" by simp
    also have "\<dots> = (v AND - 4096) OR (v AND 0xFFF)" by (rule bit.conj_disj_distrib)
    finally show ?thesis .
  qed
  then show "frame (identity_map n) v = v"
    by (simp add: frame_def identity_map_def n bit.conj_disj_distrib2 and.assoc PAGE_DIRECTORY_FLAGS_def
        PAGING_PRESENT_def PAGING_WRITABLE_def)
  show "bit (identity_map n) 0"
    by (simp add: identity_map_def bit_or_iff PAGE_DIRECTORY_FLAGS_def PAGING_PRESENT_def PAGING_WRITABLE_def)
qed

definition same_page :: "u32 \<Rightarrow> u32 \<Rightarrow> bool" where
  "same_page v w \<longleftrightarrow> unat v div 4096 = unat w div 4096"

locale address_space =
  fixes ok :: "'s \<Rightarrow> bool" and tr :: "'s \<Rightarrow> u32 \<Rightarrow> u32 option"
    and map_page :: "u32 \<Rightarrow> u32 \<Rightarrow> u32 \<Rightarrow> 's \<Rightarrow> 's" and unmap_page :: "u32 \<Rightarrow> 's \<Rightarrow> 's"
  assumes map_law: "ok s \<Longrightarrow> flags AND - 4096 = 0 \<Longrightarrow> ok (map_page v p flags s) \<and>
      tr (map_page v p flags s) w = (if same_page w v
        then if bit flags 0 then Some ((p AND - 4096) OR (w AND 0xFFF)) else None else tr s w)"
    and unmap_law: "ok s \<Longrightarrow> ok (unmap_page v s) \<and>
      tr (unmap_page v s) w = (if same_page w v then None else tr s w)"
begin

text \<open>A mapping that is removed again leaves every other page as it was.\<close>

lemma map_unmap:
  assumes "ok s" and "flags AND - 4096 = 0"
  shows "tr (unmap_page v (map_page v p flags s)) w = (if same_page w v then None else tr s w)"
  using assms map_law unmap_law by auto

text \<open>Two pages mapped to one frame are two names of the same memory.\<close>

lemma shared_frame:
  assumes "ok s" and "bit flags 0" and "flags AND - 4096 = 0" and "\<not> same_page v v'"
    and "same_page a v" and "same_page b v'" and "a AND 0xFFF = b AND 0xFFF"
  shows "tr (map_page v' p flags (map_page v p flags s)) a = tr (map_page v' p flags (map_page v p flags s)) b"
proof -
  have "\<not> same_page a v'" using assms(4,5) by (simp add: same_page_def)
  with assms map_law show ?thesis by simp
qed

end

interpretation space: address_space "\<lambda>s. tables_placed pt \<and> (\<exists>m. mmu_ok pt m s)" "translate pt" "PagingMap pt" PagingUnmap
  for pt
proof
  fix s flags v p w
  assume "tables_placed pt \<and> (\<exists>m. mmu_ok pt m s)" and f: "(flags :: u32) AND - 4096 = 0"
  then obtain m where m: "tables_placed pt" "mmu_ok pt m s" by blast
  note ok = PagingMap_ok [OF m(2), of v p flags]
  have "translate pt (PagingMap pt v p flags s) w = spec_translate (spec_map v p flags m) w"
    by (rule translate_spec [OF m(1) ok])
  moreover have "bit ((p AND - 4096) OR flags) 0 \<longleftrightarrow> bit flags 0"
    by (simp add: bit_or_iff bit_and_iff)
  ultimately show "(tables_placed pt \<and> (\<exists>m. mmu_ok pt m (PagingMap pt v p flags s))) \<and>
      translate pt (PagingMap pt v p flags s) w = (if same_page w v
        then if bit flags 0 then Some ((p AND - 4096) OR (w AND 0xFFF)) else None else translate pt s w)"
    using m ok frame_entry [OF f, of p w] translate_spec [OF m, of w]
    by (auto simp: spec_translate_def spec_map_def same_page_def Let_def)
next
  fix s v w
  assume "tables_placed pt \<and> (\<exists>m. mmu_ok pt m s)"
  then obtain m where m: "tables_placed pt" "mmu_ok pt m s" by blast
  note ok = PagingUnmap_ok [OF m(2), of v]
  show "(tables_placed pt \<and> (\<exists>m. mmu_ok pt m (PagingUnmap v s))) \<and>
      translate pt (PagingUnmap v s) w = (if same_page w v then None else translate pt s w)"
    using m ok translate_spec [OF m(1) ok, of w] translate_spec [OF m, of w]
    by (auto simp: spec_translate_def spec_unmap_def same_page_def Let_def)
qed

subsection \<open>Properties\<close>

datatype paging_call = CallMap u32 u32 u32 | CallUnmap u32 | Access u32

fun paging_step :: "u32 \<Rightarrow> paging_call \<Rightarrow> mmu \<Rightarrow> mmu" where
  "paging_step pt (CallMap v p flags) s = PagingMap pt v p flags s"
| "paging_step pt (CallUnmap v) s = PagingUnmap v s"
| "paging_step pt (Access v) s = access pt v s"

fun map_step :: "paging_call \<Rightarrow> page_map \<Rightarrow> page_map" where
  "map_step (CallMap v p flags) m = spec_map v p flags m"
| "map_step (CallUnmap v) m = spec_unmap v m"
| "map_step (Access v) m = m"

lemma paging_steps_ok:
  assumes "tables_placed pt" and "mmu_ok pt m s"
  shows "mmu_ok pt (fold map_step cs m) (fold (paging_step pt) cs s)"
  using assms(2)
proof (induction cs arbitrary: m s)
  case (Cons c cs)
  then have "mmu_ok pt (map_step c m) (paging_step pt c s)"
    by (cases c) (auto simp: PagingMap_ok PagingUnmap_ok access_ok [OF assms(1)])
  with Cons.IH show ?case by simp
qed simp

text \<open>
  After \<^verbatim>\<open>PagingInit\<close>, whatever the tables, the control registers and the translation cache
  held before, paging is on and the processor translates every address to itself.
\<close>
theorem PagingInit_identity:
  assumes "tables_placed pt"
  shows "translate pt (PagingInit pd pt s) v = Some v \<and> PagingIsEnabled (PagingInit pd pt s)"
  using translate_spec [OF assms PagingInit_ok, of pd s v] identity_frame [of "unat v div 4096" v]
  by (simp add: spec_translate_def PagingIsEnabled_def PagingInit_def Let_def)

definition blank_mmu :: mmu where
  "blank_mmu = \<lparr>PageDirectory = (\<lambda>_. 0), PageTables = (\<lambda>_ _. 0), PagingEnabled = False, cr0 = 0x11, cr3 = 0,
     tlb = (\<lambda>_. None)\<rparr>"

theorem PagingInit_identity_witness:
  "tables_placed 0x400000 \<and> translate 0x400000 (PagingInit 0x3FF000 0x400000 blank_mmu) 0xB8123 = Some 0xB8123"
proof -
  have t: "tables_placed 0x400000" by (simp add: tables_placed_def)
  then show ?thesis using PagingInit_identity [OF t, of "0x3FF000" blank_mmu "0xB8123"] by simp
qed



text \<open>
  \<^verbatim>\<open>PagingMap\<close> with flags of at most twelve bits makes every address of the page reach the
  given frame at the same offset (or fault, when the flags lack the present bit) and changes
  the translation of no other page; \<^verbatim>\<open>PagingUnmap\<close> takes it away again.
\<close>
theorem PagingMap_lookup:
  assumes "tables_placed pt" and "flags AND - 4096 = 0" and "s' = fold (paging_step pt) cs (PagingInit pd pt s)"
  shows "translate pt (PagingMap pt v p flags s') w =
      (if unat w div 4096 = unat v div 4096
       then if bit flags 0 then Some ((p AND - 4096) OR (w AND 0xFFF)) else None
       else translate pt s' w) \<and>
    translate pt (PagingUnmap v (PagingMap pt v p flags s')) w =
      (if unat w div 4096 = unat v div 4096 then None else translate pt s' w)"
proof -
  have ok: "tables_placed pt \<and> (\<exists>m. mmu_ok pt m s')"
    using assms(1) paging_steps_ok [OF assms(1) PagingInit_ok] by (auto simp: assms(3))
  show ?thesis
    using space.map_law [OF ok assms(2), of v p w] space.map_unmap [OF ok assms(2), of v p w]
    by (simp add: same_page_def)
qed

theorem PagingMap_lookup_witness:
  "translate 0x400000 (PagingMap 0x400000 0x5010 0x9000 3 (fold (paging_step 0x400000) [] (PagingInit 0x3FF000 0x400000 blank_mmu))) 0x5123
     = Some 0x9123"
proof -
  have t: "tables_placed 0x400000" by (simp add: tables_placed_def)
  show ?thesis using PagingMap_lookup [OF t _ refl, of 3 "0x5010" "0x9000" "[]" "0x3FF000" blank_mmu "0x5123"] by simp
qed

end
