(* ===== verification/Boot.thy ===== *)
theory Boot
  imports Hw_Init Heap_Props Paging
begin

text \<open>
  The start of the kernel: \<^verbatim>\<open>kernel_main\<close> of \<^verbatim>\<open>src/init/main.c\<close> up to the point where the scheduler is running, with the self
  tests of the heap. The state \<open>system\<close> puts together what this code works on: the kernel of theory \<open>Irq\<close>, the
  heap (with the page allocator inside) and the memory management unit. One definition stands for each group of
  statements, in the order of the code; \<open>kernel_main_boot\<close> is their sequence. The memory the boot loader filled, the bounds
  of the kernel image and the addresses of the page tables are arguments.
\<close>

record system =
  krn :: kernel
  hp :: heap
  vm :: mmu

text \<open>A format string and its newline.\<close>

definition line :: "string \<Rightarrow> u8 list" where
  "line text = ascii text @ [10]"

text \<open>\<^verbatim>\<open>kprintf\<close>, \<^verbatim>\<open>kmalloc\<close> and \<^verbatim>\<open>kfree\<close> on the whole state.\<close>

definition say :: "u8 list \<Rightarrow> arg list \<Rightarrow> system \<Rightarrow> system option" where
  "say fmt args s = do { c \<leftarrow> kprintf fmt args (con (krn s)); Some (s\<lparr>krn := (krn s)\<lparr>con := c\<rparr>\<rparr>) }"

definition sys_kmalloc :: "u32 \<Rightarrow> system \<Rightarrow> (u32 \<times> system) option" where
  "sys_kmalloc n s = do { (p, h) \<leftarrow> kmalloc n (hp s); Some (p, s\<lparr>hp := h\<rparr>) }"

definition sys_kfree :: "u32 \<Rightarrow> system \<Rightarrow> system option" where
  "sys_kfree p s = do { h \<leftarrow> kfree p (hp s); Some (s\<lparr>hp := h\<rparr>) }"

abbreviation free_count :: "system \<Rightarrow> u32" where
  "free_count s \<equiv> PageAllocFreeCount (page_state (hp s))"

subsection \<open>The sections of the code\<close>

definition boot_report :: "boot_info option \<Rightarrow> system \<Rightarrow> system option" where
  "boot_report boot s =
     do { let s = s\<lparr>krn := (krn s)\<lparr>con := console_clear (con (krn s))\<rparr>\<rparr>;
          s \<leftarrow> say (line ''NoviumOS'' @ [10]) [] s;
          (case boot of
             Some b \<Rightarrow>
               if multiboot_magic b = MULTIBOOT_BOOTLOADER_MAGIC then
                 do { s \<leftarrow> say (line ''OK: Multiboot info valid.'') [] s;
                      if memory_map_length b \<noteq> 0 then say (line ''OK: Memory map available.'') [] s
                      else say (line ''WARNING: no memory map available.'') [] s }
               else say (line ''WARNING: no valid boot info'') [] s
           | None \<Rightarrow> say (line ''WARNING: no valid boot info'') [] s) }"

definition memory_start :: "bytes \<Rightarrow> u32 \<Rightarrow> u32 \<Rightarrow> u32 \<Rightarrow> u32 \<Rightarrow> boot_info option \<Rightarrow> system \<Rightarrow> system option" where
  "memory_start m kernel_start kernel_end pd pt boot s =
     do { ps \<leftarrow> PageAllocInit m kernel_start kernel_end boot (page_state (hp s));
          h \<leftarrow> HeapInit ((hp s)\<lparr>page_state := ps\<rparr>);
          let s = s\<lparr>hp := h\<rparr>;
          s \<leftarrow> say (line ''OK: %u physical pages available.'') [IntArg (free_count s)] s;
          let s = s\<lparr>vm := PagingInit pd pt (vm s)\<rparr>;
          say (line ''OK: 4 GiB paging enabled with 4 KiB pages.'') [] s }"

definition heap_test_reuse :: "u32 \<Rightarrow> system \<Rightarrow> system option" where
  "heap_test_reuse HeapPagesBefore s =
     do { (HeapTestMemory, s) \<leftarrow> sys_kmalloc (PAGE_SIZE + 1) s;
          if HeapTestMemory = 0 then say (line ''ERROR: multi-page kmalloc test failed.'') [] s
          else
            do { s \<leftarrow> say (line ''OK: kmalloc(PAGE_SIZE + 1) returned 0x%x.'') [IntArg HeapTestMemory] s;
                 s \<leftarrow> (if free_count s = HeapPagesBefore
                       then say (line ''OK: kmalloc reused a free block, no pages taken.'') [] s
                       else say (line ''WARNING: kmalloc took new pages, free list was empty.'') [] s);
                 sys_kfree HeapTestMemory s } }"

definition heap_test_merge :: "system \<Rightarrow> system option" where
  "heap_test_merge s =
     do { (MergeA, s) \<leftarrow> sys_kmalloc (PAGE_SIZE * 2) s;
          (MergeB, s) \<leftarrow> sys_kmalloc (PAGE_SIZE * 2) s;
          if MergeA = 0 \<or> MergeB = 0 then say (line ''ERROR: merge test could not allocate two blocks.'') [] s
          else
            do { s \<leftarrow> say (line ''OK: two 2 page blocks allocated at 0x%x and 0x%x.'') [IntArg MergeA, IntArg MergeB] s;
                 s \<leftarrow> sys_kfree MergeA s;
                 s \<leftarrow> sys_kfree MergeB s;
                 (MergeBig, s) \<leftarrow> sys_kmalloc (PAGE_SIZE * 4) s;
                 if MergeBig \<noteq> 0 then
                   do { s \<leftarrow> say (line ''OK: two freed blocks coalesced into one 4 page block.'') [] s;
                        sys_kfree MergeBig s }
                 else say (line ''WARNING: two freed blocks did not coalesce.'') [] s } }"

definition heap_test_double_free :: "system \<Rightarrow> system option" where
  "heap_test_double_free s =
     do { (DoubleFreeA, s) \<leftarrow> sys_kmalloc (PAGE_SIZE * 2) s;
          (DoubleFreeB, s) \<leftarrow> sys_kmalloc (PAGE_SIZE * 2) s;
          if DoubleFreeA = 0 \<or> DoubleFreeB = 0 then say (line ''ERROR: double free test could not allocate two blocks.'') [] s
          else
            do { s \<leftarrow> sys_kfree DoubleFreeA s;
                 s \<leftarrow> sys_kfree DoubleFreeB s;
                 s \<leftarrow> sys_kfree DoubleFreeA s;
                 (AfterDoubleFree, s) \<leftarrow> sys_kmalloc (PAGE_SIZE * 4) s;
                 if AfterDoubleFree \<noteq> 0 then
                   do { s \<leftarrow> say (line ''OK: double free did not corrupt the heap.'') [] s;
                        sys_kfree AfterDoubleFree s }
                 else say (line ''ERROR: double free corrupted the heap.'') [] s } }"

definition heap_report :: "u32 \<Rightarrow> system \<Rightarrow> system option" where
  "heap_report HeapPagesBefore s =
     (let PagesAfterMerge = free_count s in
      if PagesAfterMerge > HeapPagesBefore then say (line ''OK: heap returned pages to the page allocator.'') [] s
      else if PagesAfterMerge = HeapPagesBefore
      then say (line ''OK: heap kept its pages, nothing large enough to return.'') [] s
      else say (line ''ERROR: heap lost pages, %u before and %u after.'') [IntArg HeapPagesBefore, IntArg PagesAfterMerge] s)"

definition sched_start :: "system \<Rightarrow> system option" where
  "sched_start s =
     do { let s = s\<lparr>krn := (krn s)\<lparr>sch := SchedInit (sch (krn s))\<rparr>\<rparr>;
          say (line ''OK: Scheduling Init Succesfull'' @ [10]) [] s }"

definition kernel_main_boot :: "bytes \<Rightarrow> u32 \<Rightarrow> u32 \<Rightarrow> u32 \<Rightarrow> u32 \<Rightarrow> boot_info option \<Rightarrow> system \<Rightarrow> system option" where
  "kernel_main_boot m kernel_start kernel_end pd pt boot s =
     do { s \<leftarrow> boot_report boot s;
          s \<leftarrow> memory_start m kernel_start kernel_end pd pt boot s;
          let HeapPagesBefore = free_count s;
          s \<leftarrow> heap_test_reuse HeapPagesBefore s;
          s \<leftarrow> heap_test_merge s;
          s \<leftarrow> heap_test_double_free s;
          s \<leftarrow> heap_report HeapPagesBefore s;
          sched_start s }"

end
