(* ===== verification/Boot_Props.thy ===== *)
theory Boot_Props
  imports Boot
begin

text \<open>
  The start of the kernel succeeds: every section of \<^verbatim>\<open>kernel_main\<close> up to the start of the scheduler is followed with
  the text it prints and the heap it leaves, and the self tests of the heap are shown to pass.
\<close>

subsection \<open>What a section shows and leaves\<close>

text \<open>
  The text printed so far, the pages the page allocator offers and the blocks of the heap. The memory management unit
  and the scheduler are given as they are.
\<close>

definition stands :: "bytes \<Rightarrow> u8 list \<Rightarrow> pages \<Rightarrow> segment list \<Rightarrow> mmu \<Rightarrow> sched \<Rightarrow> system \<Rightarrow> bool" where
  "stands m0 text ps segs mm sc s \<longleftrightarrow>
     displays m0 (con (krn s)) (fold (term_put False) text blank_terminal) \<and> \<not> console_line_echo (con (krn s)) \<and>
     page_state (hp s) = ps \<and> heap_ok (hp s) segs \<and> vm s = mm \<and> sch (krn s) = sc"

lemma standsD: "stands m0 text ps segs mm sc s \<Longrightarrow> page_state (hp s) = ps"
  by (simp add: stands_def)

lemma say_stands:
  assumes "stands m0 text ps segs mm sc s" and "format_text fmt args = Some cs"
  shows "returns (say fmt args s) (stands m0 (text @ cs) ps segs mm sc)"
proof -
  from write_displays [of m0 "con (krn s)" "fold (term_put False) text blank_terminal" cs] assms(1)
  obtain c where "console_write cs (con (krn s)) = Some c"
      "displays m0 c (fold (term_put False) cs (fold (term_put False) text blank_terminal))" "\<not> console_line_echo c"
    by (auto simp: stands_def)
  then show ?thesis using assms(1) by (simp add: say_def kprintf_writes [OF assms(2)] stands_def)
qed

lemma malloc_stands:
  assumes "stands m0 text ps segs mm sc s" and "malloc_spec n ps segs = (p, ps', segs')"
  shows "returns (sys_kmalloc n s) (\<lambda>(q, s'). q = p \<and> stands m0 text ps' segs' mm sc s')"
proof -
  have "heap_ok (hp s) segs" "page_state (hp s) = ps" using assms(1) by (simp_all add: stands_def)
  with kmalloc_refines [of "hp s" segs n] assms(2) obtain h where "kmalloc n (hp s) = Some (p, h)" "page_state h = ps'" "heap_ok h segs'"
    by (auto simp: returns_def)
  then show ?thesis using assms(1) by (simp add: sys_kmalloc_def stands_def)
qed

lemma free_stands:
  assumes "stands m0 text ps segs mm sc s" and "free_spec p segs = Some segs'"
  shows "returns (sys_kfree p s) (stands m0 text ps segs' mm sc)"
proof -
  have "heap_ok (hp s) segs" "page_state (hp s) = ps" using assms(1) by (simp_all add: stands_def)
  with kfree_refines [of "hp s" segs p segs'] assms(2) obtain h where "kfree p (hp s) = Some h" "page_state h = ps" "heap_ok h segs'"
    by (auto simp: returns_def)
  then show ?thesis using assms(1) by (simp add: sys_kfree_def stands_def)
qed

text \<open>Releasing a block that is free already changes nothing.\<close>

lemma free_again_stands:
  assumes "stands m0 text ps segs mm sc s" and "B \<in> set (blocks segs)" and "bfree B" and "p = adr B + META_SIZE"
  shows "returns (sys_kfree p s) (stands m0 text ps segs mm sc)"
proof -
  have ok: "heap_ok (hp s) segs" using assms(1) by (simp add: stands_def)
  obtain S where S: "S \<in> set segs" "B \<in> set (blocks_of S)" using assms(2) by (auto simp: blocks_def)
  then obtain xs ys where "blocks_of S = xs @ B # ys" by (auto simp: in_set_conv_decomp)
  with ok S(1) hdrs_at [of "mem (hp s)" 0 xs B ys] have "hdr (mem (hp s)) (last_size 0 xs) B"
    by (force simp: heap_ok_def heap_hdrs_def)
  then have "kfree p (hp s) = Some (hp s)" using assms(3,4) by (simp add: kfree_def Let_def hdr_def)
  then show ?thesis using assms(1) by (simp add: sys_kfree_def)
qed

subsection \<open>The self tests of the heap\<close>

text \<open>The first segment of the heap, cut into blocks; \<open>fresh_heap\<close> is one free block of sixteen pages.\<close>

definition first_segment :: "u32 \<Rightarrow> blk list \<Rightarrow> segment list" where
  "first_segment a bs = [(unat a, unat a + 0x10000, bs)]"

definition fresh_heap :: "u32 \<Rightarrow> segment list" where
  "fresh_heap a = first_segment a [Blk a 0x10000 True]"

lemma test_sizes:
  "block_size (PAGE_SIZE + 1) = 4120" "block_size (PAGE_SIZE * 2) = 8208" "block_size (PAGE_SIZE * 4) = 16400"
  by (simp_all add: block_size_def HEAP_ALIGN_UP_def HEAP_ALIGN_def META_SIZE_def PAGE_SIZE_def)

lemma test_mallocs:
  "malloc_spec (PAGE_SIZE + 1) ps (fresh_heap a) = (a + 16, ps, first_segment a [Blk a 4120 False, Blk (a + 4120) 61416 True])"
  "malloc_spec (PAGE_SIZE * 2) ps (fresh_heap a) = (a + 16, ps, first_segment a [Blk a 8208 False, Blk (a + 8208) 57328 True])"
  "malloc_spec (PAGE_SIZE * 2) ps (first_segment a [Blk a 8208 False, Blk (a + 8208) 57328 True]) =
     (a + 8224, ps, first_segment a [Blk a 8208 False, Blk (a + 8208) 8208 False, Blk (a + 16416) 49120 True])"
  "malloc_spec (PAGE_SIZE * 4) ps (fresh_heap a) = (a + 16, ps, first_segment a [Blk a 16400 False, Blk (a + 16400) 49136 True])"
  by (simp_all add: malloc_spec_def test_sizes fresh_heap_def first_segment_def carve_def META_SIZE_def) (simp_all add: PAGE_SIZE_def)

lemma test_frees:
  "free_spec (a + 16) (first_segment a [Blk a 4120 False, Blk (a + 4120) 61416 True]) = Some (fresh_heap a)"
  "free_spec (a + 16) (first_segment a [Blk a 8208 False, Blk (a + 8208) 8208 False, Blk (a + 16416) 49120 True]) =
     Some (first_segment a [Blk a 8208 True, Blk (a + 8208) 8208 False, Blk (a + 16416) 49120 True])"
  "free_spec (a + 8224) (first_segment a [Blk a 8208 True, Blk (a + 8208) 8208 False, Blk (a + 16416) 49120 True]) =
     Some (fresh_heap a)"
  "free_spec (a + 16) (first_segment a [Blk a 16400 False, Blk (a + 16400) 49136 True]) = Some (fresh_heap a)"
  by (simp_all add: free_spec_def fresh_heap_def first_segment_def META_SIZE_def merged_def join_left_def join_right_def gives_def)

lemma format_plain: "37 \<notin> set fmt \<Longrightarrow> format_text fmt args = Some fmt"
  by (induction fmt) (simp_all add: format_text_Cons)

lemma say_plain:
  "stands m0 text ps segs mm sc s \<Longrightarrow> 37 \<notin> set fmt \<Longrightarrow> returns (say fmt [] s) (stands m0 (text @ fmt) ps segs mm sc)"
  by (rule say_stands [OF _ format_plain])

abbreviation hex :: "u32 \<Rightarrow> u8 list" where
  "hex v \<equiv> number v 16 lower_digits"

lemma test_addresses:
  assumes "stands m0 text ps segs mm sc s" and "segs = first_segment a bs"
  shows "a + 16 \<noteq> 0" "a + 8224 \<noteq> 0"
proof -
  have "unat a + 0x10000 < 2 ^ 32"
    using assms by (simp add: stands_def heap_ok_def heap_frame_def ascending_def seg_ok_def first_segment_def)
  then have "unat (a + 16) = unat a + 16" "unat (a + 8224) = unat a + 8224" by (simp_all add: unat_plus_if_size word_size)
  then show "a + 16 \<noteq> 0" "a + 8224 \<noteq> 0" by auto
qed

definition reuse_text :: "u32 \<Rightarrow> u8 list" where
  "reuse_text a = ascii ''OK: kmalloc(PAGE_SIZE + 1) returned 0x'' @ hex (a + 16) @ line ''.'' @
     line ''OK: kmalloc reused a free block, no pages taken.''"

definition merge_text :: "u32 \<Rightarrow> u8 list" where
  "merge_text a = ascii ''OK: two 2 page blocks allocated at 0x'' @ hex (a + 16) @ ascii '' and 0x'' @ hex (a + 8224) @ line ''.'' @
     line ''OK: two freed blocks coalesced into one 4 page block.''"

lemma test_formats:
  "format_text (line ''OK: kmalloc(PAGE_SIZE + 1) returned 0x%x.'') [IntArg v] =
     Some (ascii ''OK: kmalloc(PAGE_SIZE + 1) returned 0x'' @ hex v @ line ''.'')"
  "format_text (line ''OK: two 2 page blocks allocated at 0x%x and 0x%x.'') [IntArg v, IntArg w] =
     Some (ascii ''OK: two 2 page blocks allocated at 0x'' @ hex v @ ascii '' and 0x'' @ hex w @ line ''.'')"
  "format_text (line ''OK: %u physical pages available.'') [IntArg v] =
     Some (ascii ''OK: '' @ decimal (unat v) @ line '' physical pages available.'')"
  by (simp_all add: line_def ascii_def format_text_Cons conv_text_def)

text \<open>The steps of a test, as equations for the state after them.\<close>

lemmas malloc_runs = malloc_stands [unfolded returns_def, simplified split_paired_Ex, simplified]

lemmas free_runs_to = free_stands [unfolded returns_def] free_again_stands [unfolded returns_def]

lemmas say_runs = say_stands [unfolded returns_def] say_plain [unfolded returns_def]

lemma reuse_passes:
  assumes "stands m0 text ps (fresh_heap a) mm sc s"
  shows "returns (heap_test_reuse (PageAllocFreeCount ps) s) (stands m0 (text @ reuse_text a) ps (fresh_heap a) mm sc)"
proof -
  obtain s1 where 1: "sys_kmalloc (PAGE_SIZE + 1) s = Some (a + 16, s1)"
      "stands m0 text ps (first_segment a [Blk a 4120 False, Blk (a + 4120) 61416 True]) mm sc s1"
    using malloc_runs [OF assms test_mallocs(1)] by blast
  obtain s2 where 2: "say (line ''OK: kmalloc(PAGE_SIZE + 1) returned 0x%x.'') [IntArg (a + 16)] s1 = Some s2"
      "stands m0 (text @ ascii ''OK: kmalloc(PAGE_SIZE + 1) returned 0x'' @ hex (a + 16) @ line ''.'') ps
         (first_segment a [Blk a 4120 False, Blk (a + 4120) 61416 True]) mm sc s2"
    using say_runs(1) [OF 1(2) test_formats(1)] by blast
  obtain s3 where 3: "say (line ''OK: kmalloc reused a free block, no pages taken.'') [] s2 = Some s3"
      "stands m0 (text @ reuse_text a) ps (first_segment a [Blk a 4120 False, Blk (a + 4120) 61416 True]) mm sc s3"
    using say_runs(2) [OF 2(2), of "line ''OK: kmalloc reused a free block, no pages taken.''"]
    by (auto simp: reuse_text_def line_def ascii_def)
  obtain s4 where 4: "sys_kfree (a + 16) s3 = Some s4" "stands m0 (text @ reuse_text a) ps (fresh_heap a) mm sc s4"
    using free_runs_to(1) [OF 3(2) test_frees(1)] by blast
  have "free_count s2 = PageAllocFreeCount ps" using standsD [OF 2(2)] by simp
  with 1 2(1) 3(1) 4 test_addresses(1) [OF 1(2) refl] show ?thesis by (simp add: heap_test_reuse_def)
qed

text \<open>The blocks after two allocations of two pages each.\<close>

abbreviation two_blocks :: "bool \<Rightarrow> u32 \<Rightarrow> segment list" where
  "two_blocks fr a \<equiv> first_segment a [Blk a 8208 fr, Blk (a + 8208) 8208 False, Blk (a + 16416) 49120 True]"

lemma two_blocks_taken:
  assumes "stands m0 text ps (fresh_heap a) mm sc s"
  obtains s1 s2 where "sys_kmalloc (PAGE_SIZE * 2) s = Some (a + 16, s1)" and "sys_kmalloc (PAGE_SIZE * 2) s1 = Some (a + 8224, s2)"
    and "stands m0 text ps (two_blocks False a) mm sc s2" and "a + 16 \<noteq> 0" and "a + 8224 \<noteq> 0"
proof -
  obtain s1 where 1: "sys_kmalloc (PAGE_SIZE * 2) s = Some (a + 16, s1)"
      "stands m0 text ps (first_segment a [Blk a 8208 False, Blk (a + 8208) 57328 True]) mm sc s1"
    using malloc_runs [OF assms test_mallocs(2)] by blast
  obtain s2 where 2: "sys_kmalloc (PAGE_SIZE * 2) s1 = Some (a + 8224, s2)" "stands m0 text ps (two_blocks False a) mm sc s2"
    using malloc_runs [OF 1(2) test_mallocs(3)] by blast
  with 1(1) test_addresses [OF 2(2) refl] that show thesis by blast
qed

lemma two_blocks_freed:
  assumes "stands m0 text ps (two_blocks False a) mm sc s"
  obtains s1 s2 where "sys_kfree (a + 16) s = Some s1" and "sys_kfree (a + 8224) s1 = Some s2" and "stands m0 text ps (fresh_heap a) mm sc s2"
proof -
  obtain s1 where 1: "sys_kfree (a + 16) s = Some s1" "stands m0 text ps (two_blocks True a) mm sc s1"
    using free_runs_to(1) [OF assms test_frees(2)] by blast
  with free_runs_to(1) [OF 1(2) test_frees(3)] that show thesis by blast
qed

lemma big_block_taken:
  assumes "stands m0 text ps (fresh_heap a) mm sc s" and "37 \<notin> set fmt"
  obtains s1 s2 s3 where "sys_kmalloc (PAGE_SIZE * 4) s = Some (a + 16, s1)" and "say fmt [] s1 = Some s2" and "sys_kfree (a + 16) s2 = Some s3"
    and "stands m0 (text @ fmt) ps (fresh_heap a) mm sc s3"
proof -
  obtain s1 where 1: "sys_kmalloc (PAGE_SIZE * 4) s = Some (a + 16, s1)"
      "stands m0 text ps (first_segment a [Blk a 16400 False, Blk (a + 16400) 49136 True]) mm sc s1"
    using malloc_runs [OF assms(1) test_mallocs(4)] by blast
  obtain s2 where 2: "say fmt [] s1 = Some s2"
      "stands m0 (text @ fmt) ps (first_segment a [Blk a 16400 False, Blk (a + 16400) 49136 True]) mm sc s2"
    using say_runs(2) [OF 1(2) assms(2)] by blast
  with 1(1) free_runs_to(1) [OF 2(2) test_frees(4)] that show thesis by blast
qed

lemma merge_passes:
  assumes "stands m0 text ps (fresh_heap a) mm sc s"
  shows "returns (heap_test_merge s) (stands m0 (text @ merge_text a) ps (fresh_heap a) mm sc)"
proof -
  let ?l = "line ''OK: two freed blocks coalesced into one 4 page block.''"
  let ?t = "ascii ''OK: two 2 page blocks allocated at 0x'' @ hex (a + 16) @ ascii '' and 0x'' @ hex (a + 8224) @ line ''.''"
  obtain s1 s2 where 2: "sys_kmalloc (PAGE_SIZE * 2) s = Some (a + 16, s1)" "sys_kmalloc (PAGE_SIZE * 2) s1 = Some (a + 8224, s2)"
      "stands m0 text ps (two_blocks False a) mm sc s2" "a + 16 \<noteq> 0" "a + 8224 \<noteq> 0" using two_blocks_taken [OF assms] .
  obtain s3 where 3: "say (line ''OK: two 2 page blocks allocated at 0x%x and 0x%x.'') [IntArg (a + 16), IntArg (a + 8224)] s2 = Some s3"
      "stands m0 (text @ ?t) ps (two_blocks False a) mm sc s3" using say_runs(1) [OF 2(3) test_formats(2)] by blast
  obtain s4 s5 where 4: "sys_kfree (a + 16) s3 = Some s4" "sys_kfree (a + 8224) s4 = Some s5" "stands m0 (text @ ?t) ps (fresh_heap a) mm sc s5"
    using two_blocks_freed [OF 3(2)] .
  have "37 \<notin> set ?l" by (simp add: line_def ascii_def)
  then obtain s6 s7 s8 where 5: "sys_kmalloc (PAGE_SIZE * 4) s5 = Some (a + 16, s6)" "say ?l [] s6 = Some s7" "sys_kfree (a + 16) s7 = Some s8"
    "stands m0 ((text @ ?t) @ ?l) ps (fresh_heap a) mm sc s8" using big_block_taken [OF 4(3)] by blast
  from 5(4) have "stands m0 (text @ merge_text a) ps (fresh_heap a) mm sc s8" by (simp add: merge_text_def)
  with 2(1,2,4,5) 3(1) 4(1,2) 5(1-3) show ?thesis by (simp add: heap_test_merge_def)
qed

lemma double_free_passes:
  assumes "stands m0 text ps (fresh_heap a) mm sc s"
  shows "returns (heap_test_double_free s)
    (stands m0 (text @ line ''OK: double free did not corrupt the heap.'') ps (fresh_heap a) mm sc)"
proof -
  let ?l = "line ''OK: double free did not corrupt the heap.''"
  obtain s1 s2 where 2: "sys_kmalloc (PAGE_SIZE * 2) s = Some (a + 16, s1)" "sys_kmalloc (PAGE_SIZE * 2) s1 = Some (a + 8224, s2)"
      "stands m0 text ps (two_blocks False a) mm sc s2" "a + 16 \<noteq> 0" "a + 8224 \<noteq> 0" using two_blocks_taken [OF assms] .
  obtain s3 s4 where 3: "sys_kfree (a + 16) s2 = Some s3" "sys_kfree (a + 8224) s3 = Some s4" "stands m0 text ps (fresh_heap a) mm sc s4"
    using two_blocks_freed [OF 2(3)] .
  obtain s5 where 4: "sys_kfree (a + 16) s4 = Some s5" "stands m0 text ps (fresh_heap a) mm sc s5"
    using free_runs_to(2) [OF 3(3), of "Blk a 0x10000 True" "a + 16"]
    by (auto simp: fresh_heap_def first_segment_def blocks_def META_SIZE_def)
  have "37 \<notin> set ?l" by (simp add: line_def ascii_def)
  then obtain s6 s7 s8 where 5: "sys_kmalloc (PAGE_SIZE * 4) s5 = Some (a + 16, s6)" "say ?l [] s6 = Some s7" "sys_kfree (a + 16) s7 = Some s8"
    "stands m0 (text @ ?l) ps (fresh_heap a) mm sc s8" using big_block_taken [OF 4(2)] by blast
  with 2(1,2,4,5) 3(1,2) 4(1) show ?thesis by (simp add: heap_test_double_free_def)
qed

lemma report_passes:
  assumes "stands m0 text ps segs mm sc s"
  shows "returns (heap_report (PageAllocFreeCount ps) s)
    (stands m0 (text @ line ''OK: heap kept its pages, nothing large enough to return.'') ps segs mm sc)"
  using say_plain [OF assms, of "line ''OK: heap kept its pages, nothing large enough to return.''"] standsD [OF assms]
  by (simp add: heap_report_def Let_def line_def ascii_def)

subsection \<open>The whole start\<close>

lemma HeapInit_fresh:
  assumes inv: "page_inv ps" "PAGE_COUNT - 1 \<notin> avail ps" and run: "free_runs ps 0 16 \<noteq> {}"
  defines "p \<equiv> Min (free_runs ps 0 16)"
  shows "returns (HeapInit (boot_heap m ps)) (\<lambda>h. heap_ok h (fresh_heap (of_nat p * PAGE_SIZE)) \<and>
    unat (PageAllocFreeCount (page_state h)) = card (avail ps) - 16)"
proof -
  let ?h = "boot_heap m ps" and ?a = "of_nat p * PAGE_SIZE :: u32"
  have ok: "heap_ok ?h []" by (rule boot_heap_ok [OF inv])
  have h: "?h\<lparr>FreeListHead := 0\<rparr> = ?h" "page_state ?h = ps" by (simp_all add: boot_heap_def)
  have p: "p \<in> free_runs ps 0 16" unfolding p_def by (rule free_runs_Min [OF run])
  then have pr: "p + 16 \<le> PAGE_COUNT" "{p..<p + 16} \<subseteq> avail ps" by (simp_all add: free_runs_def)
  then have "p \<in> avail ps" by auto
  then have "0 < p" using inv(1) by (auto simp: page_inv_def intro: gr0I)
  then have "unat ?a \<noteq> 0" using page_addr [of p] pr(1) by simp
  then have a: "?a \<noteq> 0" by auto
  have al: "PageAllocPagesAt 0 16 ps = (?a, set_run p 16 PageStateUsed ps)"
    using PageAllocPagesAt_law [of ps 16 0] inv(1) run by (simp add: page_inv_def p_def)
  have g: "grow_spec HEAP_GROW_PAGES (page_state ?h) [] = Some (hd (fresh_heap ?a), set_run p 16 PageStateUsed ps)"
    using a by (simp add: grow_spec_def heap_top_def HEAP_GROW_PAGES_def h(2) al fresh_heap_def first_segment_def PAGE_SIZE_def)
  note sr = set_run_law [OF pr(1), where st = PageStateUsed and ps = ps]
  have "unat (PageAllocFreeCount (set_run p 16 PageStateUsed ps)) = card (avail ps - {p..<p + 16})"
    using sr inv(1) by (simp add: page_inv_def pages_ok_def PageAllocFreeCount_def)
  also have "\<dots> = card (avail ps) - 16" using pr(2) by (subst card_Diff_subset) simp_all
  finally have n: "unat (PageAllocFreeCount (set_run p 16 PageStateUsed ps)) = card (avail ps) - 16" .
  show ?thesis
    using HeapGrow_law [OF ok, of HEAP_GROW_PAGES] g n
    by (auto simp: HeapInit_def h fresh_heap_def first_segment_def elim!: returns_bind)
qed

text \<open>What the screen shows: the free pages left are \<open>n\<close> and the heap starts at \<open>a\<close>.\<close>

definition start_text :: "nat \<Rightarrow> u8 list" where
  "start_text n = line ''NoviumOS'' @ [10] @ line ''OK: Multiboot info valid.'' @ line ''OK: Memory map available.'' @
     ascii ''OK: '' @ decimal n @ line '' physical pages available.'' @ line ''OK: 4 GiB paging enabled with 4 KiB pages.''"

definition boot_text :: "nat \<Rightarrow> u32 \<Rightarrow> u8 list" where
  "boot_text n a = start_text n @ reuse_text a @ merge_text a @ line ''OK: double free did not corrupt the heap.'' @
     line ''OK: heap kept its pages, nothing large enough to return.'' @ line ''OK: Scheduling Init Succesfull'' @ [10]"

text \<open>The report on the boot loader, which comes before the memory is set up.\<close>

definition printed :: "bytes \<Rightarrow> u8 list \<Rightarrow> system \<Rightarrow> system \<Rightarrow> bool" where
  "printed m0 text s0 s \<longleftrightarrow> displays m0 (con (krn s)) (fold (term_put False) text blank_terminal) \<and>
     \<not> console_line_echo (con (krn s)) \<and> hp s = hp s0 \<and> vm s = vm s0 \<and> sch (krn s) = sch (krn s0)"

lemma say_printed:
  assumes "printed m0 text s0 s" and "37 \<notin> set fmt"
  shows "\<exists>s'. say fmt [] s = Some s' \<and> printed m0 (text @ fmt) s0 s'"
proof -
  from write_displays [of m0 "con (krn s)" "fold (term_put False) text blank_terminal" fmt] assms(1)
  obtain c where "console_write fmt (con (krn s)) = Some c"
      "displays m0 c (fold (term_put False) fmt (fold (term_put False) text blank_terminal))" "\<not> console_line_echo c"
    by (auto simp: printed_def)
  then show ?thesis using assms(1) by (simp add: say_def kprintf_writes [OF format_plain [OF assms(2)]] printed_def)
qed

lemma boot_report_prints:
  assumes "multiboot_magic b = MULTIBOOT_BOOTLOADER_MAGIC" and "memory_map_length b \<noteq> 0" and "\<not> console_line_echo (con (krn s))"
  shows "returns (boot_report (Some b) s) (printed (memory (con (krn s)))
    (line ''NoviumOS'' @ [10] @ line ''OK: Multiboot info valid.'' @ line ''OK: Memory map available.'') s)"
proof -
  let ?s = "s\<lparr>krn := (krn s)\<lparr>con := console_clear (con (krn s))\<rparr>\<rparr>" and ?m = "memory (con (krn s))"
  have 0: "printed ?m [] s ?s" using clear_displays [of "con (krn s)"] assms(3) by (simp add: printed_def blank_terminal_def clear_echo)
  obtain s1 where 1: "say (line ''NoviumOS'' @ [10]) [] ?s = Some s1" "printed ?m (line ''NoviumOS'' @ [10]) s s1"
    using say_printed [OF 0, of "line ''NoviumOS'' @ [10]"] by (auto simp: line_def ascii_def)
  obtain s2 where 2: "say (line ''OK: Multiboot info valid.'') [] s1 = Some s2"
      "printed ?m (line ''NoviumOS'' @ [10] @ line ''OK: Multiboot info valid.'') s s2"
    using say_printed [OF 1(2), of "line ''OK: Multiboot info valid.''"] by (auto simp: line_def ascii_def)
  obtain s3 where 3: "say (line ''OK: Memory map available.'') [] s2 = Some s3"
      "printed ?m (line ''NoviumOS'' @ [10] @ line ''OK: Multiboot info valid.'' @ line ''OK: Memory map available.'') s s3"
    using say_printed [OF 2(2), of "line ''OK: Memory map available.''"] by (auto simp: line_def ascii_def)
  from 1(1) 2(1) 3 assms(1,2) show ?thesis by (simp add: boot_report_def Let_def)
qed

lemma memory_start_prints:
  assumes pr: "printed m0 text s0 s" and al: "PageAllocInit m ks ke boot (page_state (hp s0)) = Some ps" and h: "hp s0 = boot_heap m' ps0"
    and inv: "page_inv ps" "PAGE_COUNT - 1 \<notin> avail ps" "free_runs ps 0 16 \<noteq> {}"
  defines "a \<equiv> of_nat (Min (free_runs ps 0 16)) * PAGE_SIZE"
  shows "returns (memory_start m ks ke pd pt boot s) (\<lambda>s'. \<exists>ps'.
    stands m0 (text @ ascii ''OK: '' @ decimal (card (avail ps) - 16) @ line '' physical pages available.'' @
      line ''OK: 4 GiB paging enabled with 4 KiB pages.'') ps' (fresh_heap a) (PagingInit pd pt (vm s0)) (sch (krn s0)) s')"
proof -
  have hs: "hp s = boot_heap m' ps0" "(hp s)\<lparr>page_state := ps\<rparr> = boot_heap m' ps" using pr h by (simp_all add: printed_def boot_heap_def)
  obtain h1 where h1: "HeapInit (boot_heap m' ps) = Some h1" "heap_ok h1 (fresh_heap a)"
      "unat (PageAllocFreeCount (page_state h1)) = card (avail ps) - 16"
    using HeapInit_fresh [OF inv, of m'] by (auto simp: returns_def a_def)
  let ?s1 = "s\<lparr>hp := h1\<rparr>" and ?sc = "sch (krn s0)"
  let ?t = "text @ ascii ''OK: '' @ decimal (card (avail ps) - 16) @ line '' physical pages available.''"
  have "stands m0 text (page_state h1) (fresh_heap a) (vm s0) ?sc ?s1" using pr h1(2) by (simp add: printed_def stands_def)
  from say_runs(1) [OF this test_formats(3) [of "free_count ?s1"]] h1(3)
  obtain s2 where 2: "say (line ''OK: %u physical pages available.'') [IntArg (free_count ?s1)] ?s1 = Some s2"
      "stands m0 ?t (page_state h1) (fresh_heap a) (vm s0) ?sc s2" by auto
  let ?s3 = "s2\<lparr>vm := PagingInit pd pt (vm s2)\<rparr>"
  have "stands m0 ?t (page_state h1) (fresh_heap a) (PagingInit pd pt (vm s0)) ?sc ?s3" using 2(2) by (simp add: stands_def)
  from say_runs(2) [OF this, of "line ''OK: 4 GiB paging enabled with 4 KiB pages.''"]
  obtain s4 where 4: "say (line ''OK: 4 GiB paging enabled with 4 KiB pages.'') [] ?s3 = Some s4"
    "stands m0 (?t @ line ''OK: 4 GiB paging enabled with 4 KiB pages.'') (page_state h1) (fresh_heap a) (PagingInit pd pt (vm s0)) ?sc s4"
    by (auto simp: line_def ascii_def)
  have "PageAllocInit m ks ke boot (page_state (hp s)) = Some ps" using al pr by (simp add: printed_def)
  then show ?thesis using h1(1) 2(1) 4 hs(2) by (auto simp: memory_start_def)
qed

lemma sched_start_prints:
  assumes "stands m0 text ps segs mm sc s"
  shows "returns (sched_start s) (stands m0 (text @ line ''OK: Scheduling Init Succesfull'' @ [10]) ps segs mm (SchedInit sc))"
proof -
  let ?s = "s\<lparr>krn := (krn s)\<lparr>sch := SchedInit (sch (krn s))\<rparr>\<rparr>"
  have "stands m0 text ps segs mm (SchedInit sc) ?s" using assms by (simp add: stands_def)
  from say_plain [OF this, of "line ''OK: Scheduling Init Succesfull'' @ [10]"] show ?thesis
    by (simp add: sched_start_def Let_def line_def ascii_def)
qed

subsection \<open>Properties\<close>

text \<open>The pages that the memory map leaves to the kernel, and the lowest place for the heap's first sixteen.\<close>

definition usable_pages :: "bytes \<Rightarrow> boot_info \<Rightarrow> u32 \<Rightarrow> u32 \<Rightarrow> nat set" where
  "usable_pages m b kernel_start kernel_end = offered m (memory_map_addr b) (memory_map_length b) 0 - {..<256} -
     touched_pages (unat kernel_start) (unat kernel_end - unat kernel_start)"

definition heap_places :: "nat set \<Rightarrow> nat set" where
  "heap_places F = {p. p + 16 \<le> PAGE_COUNT \<and> {p..<p + 16} \<subseteq> F}"

text \<open>
  C34: The kernel starts. When the boot loader handed over a memory map with room for sixteen pages in a row (and without the
  last page of the address space), \<^verbatim>\<open>kernel_main\<close> runs through to the start of the scheduler and every self test of the heap
  passes: the screen shows exactly the lines that report success, with the number of pages left and the addresses
  of the test blocks at the lowest place that fits; afterwards the heap is again one free block of sixteen pages, the
  address space is mapped onto itself, and the scheduler runs the idle task.
\<close>

theorem kernel_main_boots:
  fixes m :: bytes and m' :: memory and ks ke pd pt :: u32 and b :: boot_info
  defines "F \<equiv> usable_pages m b ks ke" and "a \<equiv> of_nat (Min (heap_places (usable_pages m b ks ke))) * PAGE_SIZE"
  assumes b: "multiboot_magic b = 0x2BADB002" "memory_map_addr b \<noteq> 0" "memory_map_length b \<noteq> 0" "memory_map_length b \<le> 0xFFFFFFFB"
    and k: "ks \<le> ke" and F: "PAGE_COUNT - 1 \<notin> F" "heap_places F \<noteq> {}"
    and s: "hp s = boot_heap m' ps0" "\<not> console_line_echo (con (krn s))" "length (Tasks (sch (krn s))) = SchedMaxTasks"
  shows "returns (kernel_main_boot m ks ke pd pt (Some b) s) (\<lambda>s'.
    displays (memory (con (krn s))) (con (krn s')) (fold (term_put False) (boot_text (card F - 16) a) blank_terminal) \<and>
    heap_ok (hp s') (fresh_heap a) \<and> mmu_ok pt identity_map (vm s') \<and> sched_inv (sch (krn s')) \<and> CurrentTask (sch (krn s')) = Some 0)"
proof -
  let ?m0 = "memory (con (krn s))" and ?mm = "PagingInit pd pt (vm s)" and ?sc = "sch (krn s)"
  let ?t0 = "line ''NoviumOS'' @ [10] @ line ''OK: Multiboot info valid.'' @ line ''OK: Memory map available.''"
  have "unat (memory_map_length b) \<le> 0xFFFFFFFB" using b(4) by (simp add: word_le_nat_alt)
  from PageAllocInit_law [OF b(2,3) this k, of m "page_state (hp s)"]
  obtain ps where ps: "PageAllocInit m ks ke (Some b) (page_state (hp s)) = Some ps" "pages_ok ps" "avail ps = F"
    by (auto simp: F_def usable_pages_def)
  have inv: "page_inv ps" using ps(2,3) by (simp add: page_inv_def F_def usable_pages_def)
  have run: "free_runs ps 0 16 = heap_places F" by (simp add: free_runs_def heap_places_def ps(3))
  have a: "a = of_nat (Min (free_runs ps 0 16)) * PAGE_SIZE" by (simp add: a_def run F_def)
  obtain s1 where 1: "boot_report (Some b) s = Some s1" "printed ?m0 ?t0 s s1"
    using boot_report_prints [of b s] b s(2) by (auto simp: returns_def MULTIBOOT_BOOTLOADER_MAGIC_def)
  have "PAGE_COUNT - 1 \<notin> avail ps" "free_runs ps 0 16 \<noteq> {}" using F by (simp_all add: ps(3) run)
  from memory_start_prints [OF 1(2) ps(1) s(1) inv this, of pd pt]
  obtain s2 ps' where 2: "memory_start m ks ke pd pt (Some b) s1 = Some s2"
      "stands ?m0 (start_text (card F - 16)) ps' (fresh_heap a) ?mm ?sc s2"
    by (auto simp: returns_def start_text_def ps(3) a)
  obtain s3 where 3: "heap_test_reuse (free_count s2) s2 = Some s3" "stands ?m0 (start_text (card F - 16) @ reuse_text a) ps' (fresh_heap a) ?mm ?sc s3"
    using reuse_passes [OF 2(2)] standsD [OF 2(2)] by (auto simp: returns_def)
  obtain s4 where 4: "heap_test_merge s3 = Some s4"
      "stands ?m0 ((start_text (card F - 16) @ reuse_text a) @ merge_text a) ps' (fresh_heap a) ?mm ?sc s4"
    using merge_passes [OF 3(2)] by (auto simp: returns_def)
  from double_free_passes [OF 4(2)] obtain s5 where 5: "heap_test_double_free s4 = Some s5"
      "stands ?m0 (((start_text (card F - 16) @ reuse_text a) @ merge_text a) @ line ''OK: double free did not corrupt the heap.'')
         ps' (fresh_heap a) ?mm ?sc s5" by (auto simp: returns_def)
  from report_passes [OF 5(2)] standsD [OF 2(2)] obtain s6 where 6: "heap_report (free_count s2) s5 = Some s6"
      "stands ?m0 ((((start_text (card F - 16) @ reuse_text a) @ merge_text a) @ line ''OK: double free did not corrupt the heap.'') @
         line ''OK: heap kept its pages, nothing large enough to return.'') ps' (fresh_heap a) ?mm ?sc s6" by (auto simp: returns_def)
  from sched_start_prints [OF 6(2)] obtain s7 where 7: "sched_start s6 = Some s7"
      "stands ?m0 (boot_text (card F - 16) a) ps' (fresh_heap a) ?mm (SchedInit ?sc) s7" by (auto simp: returns_def boot_text_def)
  have "kernel_main_boot m ks ke pd pt (Some b) s = Some s7"
    using 1(1) 2(1) 3(1) 4(1) 5(1) 6(1) 7(1) by (simp add: kernel_main_boot_def)
  moreover have "CurrentTask (SchedInit ?sc) = Some 0" by (simp add: SchedInit_def Let_def)
  ultimately show ?thesis using 7(2) PagingInit_ok [of pt pd "vm s"] SchedInit_inv [OF s(3)] by (simp add: stands_def)
qed

definition demo_system :: system where
  "demo_system = \<lparr>krn = demo_kernel, hp = boot_heap (\<lambda>_. 0) no_pages,
     vm = \<lparr>PageDirectory = (\<lambda>_. 0), PageTables = (\<lambda>_ _. 0), PagingEnabled = False, cr0 = 0, cr3 = 0, tlb = (\<lambda>_. None)\<rparr>\<rparr>"

theorem kernel_main_boots_witness:
  "\<exists>s'. kernel_main_boot demo_map 0x100000 0x104321 0x400000 0x401000 (Some demo_boot) demo_system = Some s' \<and>
     displays (memory (con demo_kernel)) (con (krn s')) (fold (term_put False) (boot_text 235 0x105000) blank_terminal) \<and>
     heap_ok (hp s') (fresh_heap 0x105000)"
proof -
  have F: "usable_pages demo_map demo_boot 0x100000 0x104321 = {261..<512}"
    by (auto simp: usable_pages_def demo_boot_def demo_offered demo_kernel)
  have P: "heap_places {261..<512} = {261..496}" by (auto simp: heap_places_def PAGE_COUNT_def ivl_subset)
  have M: "Min {261..496::nat} = 261" by (rule Min_eqI) auto
  have s: "hp demo_system = boot_heap (\<lambda>_. 0) no_pages" "\<not> console_line_echo (con (krn demo_system))" "length (Tasks (sch (krn demo_system))) = SchedMaxTasks"
    by (simp_all add: demo_system_def demo_kernel_def clear_echo) (simp add: blank_console_def)
  have b: "multiboot_magic demo_boot = 0x2BADB002" "memory_map_addr demo_boot \<noteq> 0" "memory_map_length demo_boot \<noteq> 0"
    "memory_map_length demo_boot \<le> 0xFFFFFFFB" by (simp_all add: demo_boot_def)
  have c: "con (krn demo_system) = con demo_kernel" by (simp add: demo_system_def)
  have "(0x100000 :: u32) \<le> 0x104321" by simp
  from kernel_main_boots [OF b this _ _ s, of demo_map "0x400000" "0x401000"] show ?thesis
    by (auto simp: F P M c returns_def PAGE_COUNT_def PAGE_SIZE_def)
qed

end
