(* ===== verification/Ipc_Port.thy ===== *)
theory Ipc_Port
  imports Ipc_Park Ring
begin

text \<open>
  Message ports, \<^verbatim>\<open>src/ipc/message.c\<close>: a ring of sixteen messages with a wait queue for
  senders and one for receivers. A null pointer is \<^const>\<open>None\<close>; the \<open>_at\<close> functions are the
  operations on a port that is there. The port's \<^verbatim>\<open>out\<close> argument becomes part of the result.
  The blocking calls return \<open>Suspended\<close> when the caller goes to sleep, and continue with
  their \<open>_resume\<close> function.

  \<open>messages\<close> is the list of queued messages, oldest first. The ring is an instance of
  \<open>bounded_fifo\<close>, and the two wait queues with their tests are instances of \<open>waitable\<close>.
\<close>

definition IpcMessageWords :: nat where
  "IpcMessageWords = 8"

definition IpcPortCapacity :: nat where
  "IpcPortCapacity = 16"

definition PORT_MAGIC :: u32 where
  "PORT_MAGIC = 0x504F5254"

record IpcMessage =
  Length :: u32
  Sender :: u32
  Data :: "u32 list"

record IpcPort =
  Magic :: u32
  Head :: u32
  PCount :: u32
  Slots :: "IpcMessage list"
  Senders :: IpcWait
  Receivers :: IpcWait

subsection \<open>Operations\<close>

definition PortReset :: "IpcPort \<Rightarrow> IpcPort" where
  "PortReset p = p\<lparr>Head := 0, PCount := 0, Senders := wait_reset (Senders p),
     Receivers := wait_reset (Receivers p), Slots := map (\<lambda>m. m\<lparr>Length := 0, Sender := 0\<rparr>) (Slots p)\<rparr>"

definition IpcPortIsCreated :: "IpcPort option \<Rightarrow> bool" where
  "IpcPortIsCreated port \<longleftrightarrow> (case port of None \<Rightarrow> False | Some p \<Rightarrow> Magic p = PORT_MAGIC)"

definition IpcPortCreate :: "IpcPort option \<Rightarrow> sched \<Rightarrow> IpcStatus \<times> IpcPort option \<times> sched" where
  "IpcPortCreate port s =
     (case port of
        None \<Rightarrow> (IpcErrInvalid, port, s)
      | Some p \<Rightarrow>
          (let (was_enabled, s) = SchedLockIrq s in
           if Magic p = PORT_MAGIC then (IpcErrInvalid, port, SchedUnlockIrq was_enabled s)
           else (IpcOk, Some (PortReset (p\<lparr>Magic := PORT_MAGIC\<rparr>)), SchedUnlockIrq was_enabled s)))"

definition IpcPortDestroy :: "IpcPort option \<Rightarrow> sched \<Rightarrow> IpcStatus \<times> IpcPort option \<times> sched" where
  "IpcPortDestroy port s =
     (case port of
        None \<Rightarrow> (IpcErrInvalid, port, s)
      | Some p \<Rightarrow>
          if \<not> IpcPortIsCreated port then (IpcErrInvalid, port, s)
          else
            (let (was_enabled, s) = SchedLockIrq s in
             if WCount (Senders p) \<noteq> 0 \<or> WCount (Receivers p) \<noteq> 0
             then (IpcErrBusy, port, SchedUnlockIrq was_enabled s)
             else (IpcOk, Some ((PortReset p)\<lparr>Magic := 0\<rparr>), SchedUnlockIrq was_enabled s)))"

definition IpcPortQueued :: "IpcPort option \<Rightarrow> u32" where
  "IpcPortQueued port =
     (if \<not> IpcPortIsCreated port then 0 else (case port of None \<Rightarrow> 0 | Some p \<Rightarrow> PCount p))"

definition PortHasRoom :: "IpcPort \<Rightarrow> bool" where
  "PortHasRoom p \<longleftrightarrow> PCount p < of_nat IpcPortCapacity"

definition PortHasMessage :: "IpcPort \<Rightarrow> bool" where
  "PortHasMessage p \<longleftrightarrow> PCount p > 0"

definition PortPush :: "u32 \<Rightarrow> IpcMessage \<Rightarrow> IpcPort \<Rightarrow> IpcPort" where
  "PortPush self m p =
     (let tail = (Head p + PCount p) mod of_nat IpcPortCapacity
      in p\<lparr>Slots := (Slots p)[unat tail := m\<lparr>Sender := self\<rparr>], PCount := PCount p + 1\<rparr>)"

definition PortPop :: "IpcPort \<Rightarrow> IpcMessage \<times> IpcPort" where
  "PortPop p =
     (Slots p ! unat (Head p),
      p\<lparr>Head := (Head p + 1) mod of_nat IpcPortCapacity, PCount := PCount p - 1\<rparr>)"

definition IpcTrySend_at :: "IpcMessage \<Rightarrow> IpcPort \<Rightarrow> sched \<Rightarrow> (IpcStatus \<times> IpcPort \<times> sched) option" where
  "IpcTrySend_at m p s =
     (if \<not> IpcPortIsCreated (Some p) then Some (IpcErrInvalid, p, s)
      else if Length m > of_nat IpcMessageWords then Some (IpcErrInvalid, p, s)
      else
        (let (was_enabled, s) = SchedLockIrq s;
             (status, p) = (if PCount p = of_nat IpcPortCapacity then (IpcErrFull, p)
                            else (IpcOk, PortPush (IpcSelfId s) m p));
             s = SchedUnlockIrq was_enabled s
         in if status = IpcOk
            then do { (w, s) \<leftarrow> IpcWakeOne (Receivers p) s; Some (status, p\<lparr>Receivers := w\<rparr>, s) }
            else Some (status, p, s)))"

definition IpcTrySend ::
  "IpcPort option \<Rightarrow> IpcMessage option \<Rightarrow> sched \<Rightarrow> (IpcStatus \<times> IpcPort option \<times> sched) option" where
  "IpcTrySend port msg s =
     (case (port, msg) of
        (Some p, Some m) \<Rightarrow> do { (status, p, s) \<leftarrow> IpcTrySend_at m p s; Some (status, Some p, s) }
      | _ \<Rightarrow> Some (IpcErrInvalid, port, s))"

abbreviation put_senders :: "IpcWait \<Rightarrow> IpcPort \<Rightarrow> IpcPort" where
  "put_senders w p \<equiv> p\<lparr>Senders := w\<rparr>"

abbreviation put_receivers :: "IpcWait \<Rightarrow> IpcPort \<Rightarrow> IpcPort" where
  "put_receivers w p \<equiv> p\<lparr>Receivers := w\<rparr>"

partial_function (option) IpcSend_loop ::
  "IpcMessage \<Rightarrow> IpcPort \<Rightarrow> sched \<Rightarrow> (IpcStatus outcome \<times> IpcPort \<times> sched) option" where
  "IpcSend_loop m p s =
     do { (status, p, s) \<leftarrow> IpcTrySend_at m p s;
          if status \<noteq> IpcErrFull then Some (Done status, p, s)
          else
            do { (r, p, s) \<leftarrow> IpcPark Senders put_senders PortHasRoom p s;
                 (case r of
                    Suspended e \<Rightarrow> Some (Suspended e, p, s)
                  | Done status \<Rightarrow>
                      if status \<noteq> IpcOk then Some (Done status, p, s) else IpcSend_loop m p s) } }"

definition IpcSend ::
  "IpcPort option \<Rightarrow> IpcMessage option \<Rightarrow> sched \<Rightarrow> (IpcStatus outcome \<times> IpcPort option \<times> sched) option" where
  "IpcSend port msg s =
     (case (port, msg) of
        (Some p, Some m) \<Rightarrow>
          if \<not> IpcPortIsCreated port then Some (Done IpcErrInvalid, port, s)
          else if Length m > of_nat IpcMessageWords then Some (Done IpcErrInvalid, port, s)
          else do { (r, p, s) \<leftarrow> IpcSend_loop m p s; Some (r, Some p, s) }
      | _ \<Rightarrow> Some (Done IpcErrInvalid, port, s))"

definition IpcSend_resume ::
  "IpcMessage \<Rightarrow> u32 \<Rightarrow> nat \<Rightarrow> bool \<Rightarrow> IpcPort \<Rightarrow> sched \<Rightarrow> (IpcStatus outcome \<times> IpcPort \<times> sched) option" where
  "IpcSend_resume m self i e p s =
     do { (r, p, s) \<leftarrow> IpcPark_resume Senders put_senders PortHasRoom self i e p s;
          (case r of
             Suspended e \<Rightarrow> Some (Suspended e, p, s)
           | Done status \<Rightarrow>
               if status \<noteq> IpcOk then Some (Done status, p, s) else IpcSend_loop m p s) }"

text \<open>The receiver's buffer is the message the call hands back, when there is one.\<close>

definition IpcTryReceive_at ::
  "IpcPort \<Rightarrow> sched \<Rightarrow> (IpcStatus \<times> IpcMessage option \<times> IpcPort \<times> sched) option" where
  "IpcTryReceive_at p s =
     (if \<not> IpcPortIsCreated (Some p) then Some (IpcErrInvalid, None, p, s)
      else
        (let (was_enabled, s) = SchedLockIrq s;
             (status, out, p) = (if PCount p = 0 then (IpcErrEmpty, None, p)
                                 else (let (m, p) = PortPop p in (IpcOk, Some m, p)));
             s = SchedUnlockIrq was_enabled s
         in if status = IpcOk
            then do { (w, s) \<leftarrow> IpcWakeOne (Senders p) s; Some (status, out, p\<lparr>Senders := w\<rparr>, s) }
            else Some (status, out, p, s)))"

definition IpcTryReceive ::
  "IpcPort option \<Rightarrow> bool \<Rightarrow> sched \<Rightarrow> (IpcStatus \<times> IpcMessage option \<times> IpcPort option \<times> sched) option" where
  "IpcTryReceive port out_nonnull s =
     (case port of
        None \<Rightarrow> Some (IpcErrInvalid, None, port, s)
      | Some p \<Rightarrow>
          if \<not> out_nonnull then Some (IpcErrInvalid, None, port, s)
          else do { (status, out, p, s) \<leftarrow> IpcTryReceive_at p s; Some (status, out, Some p, s) })"

partial_function (option) IpcReceive_loop ::
  "IpcPort \<Rightarrow> sched \<Rightarrow> (IpcStatus outcome \<times> IpcMessage option \<times> IpcPort \<times> sched) option" where
  "IpcReceive_loop p s =
     do { (status, out, p, s) \<leftarrow> IpcTryReceive_at p s;
          if status \<noteq> IpcErrEmpty then Some (Done status, out, p, s)
          else
            do { (r, p, s) \<leftarrow> IpcPark Receivers put_receivers PortHasMessage p s;
                 (case r of
                    Suspended e \<Rightarrow> Some (Suspended e, None, p, s)
                  | Done status \<Rightarrow>
                      if status \<noteq> IpcOk then Some (Done status, None, p, s) else IpcReceive_loop p s) } }"

definition IpcReceive ::
  "IpcPort option \<Rightarrow> bool \<Rightarrow> sched \<Rightarrow>
     (IpcStatus outcome \<times> IpcMessage option \<times> IpcPort option \<times> sched) option" where
  "IpcReceive port out_nonnull s =
     (case port of
        None \<Rightarrow> Some (Done IpcErrInvalid, None, port, s)
      | Some p \<Rightarrow>
          if \<not> IpcPortIsCreated port \<or> \<not> out_nonnull then Some (Done IpcErrInvalid, None, port, s)
          else do { (r, out, p, s) \<leftarrow> IpcReceive_loop p s; Some (r, out, Some p, s) })"

definition IpcReceive_resume ::
  "u32 \<Rightarrow> nat \<Rightarrow> bool \<Rightarrow> IpcPort \<Rightarrow> sched \<Rightarrow>
     (IpcStatus outcome \<times> IpcMessage option \<times> IpcPort \<times> sched) option" where
  "IpcReceive_resume self i e p s =
     do { (r, p, s) \<leftarrow> IpcPark_resume Receivers put_receivers PortHasMessage self i e p s;
          (case r of
             Suspended e \<Rightarrow> Some (Suspended e, None, p, s)
           | Done status \<Rightarrow>
               if status \<noteq> IpcOk then Some (Done status, None, p, s) else IpcReceive_loop p s) }"

declare IpcSend_loop.simps [code] IpcReceive_loop.simps [code]

subsection \<open>The ring\<close>

definition messages :: "IpcPort \<Rightarrow> IpcMessage list" where
  "messages p = ring_list (Slots p) (unat (Head p)) (unat (PCount p))"

definition port_ok :: "IpcPort \<Rightarrow> bool" where
  "port_ok p \<longleftrightarrow> Magic p = PORT_MAGIC \<and> length (Slots p) = IpcPortCapacity \<and>
     unat (Head p) < IpcPortCapacity \<and> unat (PCount p) \<le> IpcPortCapacity \<and>
     wait_ok (Senders p) \<and> wait_ok (Receivers p)"

lemma port_okD:
  assumes "port_ok p"
  shows "Magic p = PORT_MAGIC" "length (Slots p) = 16" "unat (Head p) < 16" "unat (PCount p) \<le> 16"
    "wait_ok (Senders p)" "wait_ok (Receivers p)" "length (messages p) = unat (PCount p)"
  using assms by (simp_all add: port_ok_def IpcPortCapacity_def messages_def)

lemma PortPush_law:
  assumes "port_ok p" and "length (messages p) < IpcPortCapacity"
  shows "port_ok (PortPush self m p) \<and> messages (PortPush self m p) = messages p @ [m\<lparr>Sender := self\<rparr>]"
proof -
  note ok = port_okD [OF assms(1)]
  have c: "unat (PCount p) < 16" using assms(2) ok(7) by (simp add: IpcPortCapacity_def)
  have n: "unat (PCount p + 1) = Suc (unat (PCount p))" using c by (simp add: unat_succ_bound)
  have s: "unat (Head p + PCount p) = unat (Head p) + unat (PCount p)"
    using ok(3) c by (simp add: unat_plus_if_size word_size)
  have t: "unat ((Head p + PCount p) mod 16) = (unat (Head p) + unat (PCount p)) mod length (Slots p)"
    by (simp add: unat_mod s ok(2))
  have "port_ok (PortPush self m p)"
    using assms(1) c n by (simp add: port_ok_def PortPush_def Let_def IpcPortCapacity_def)
  moreover have "messages (PortPush self m p) = messages p @ [m\<lparr>Sender := self\<rparr>]"
    using ring_list_push [of "unat (PCount p)" "Slots p" "unat (Head p)" "m\<lparr>Sender := self\<rparr>"] c ok(2)
    by (simp add: messages_def PortPush_def Let_def IpcPortCapacity_def t n)
  ultimately show ?thesis ..
qed

lemma PortPop_law:
  assumes "port_ok p" and "messages p = m # ms"
  shows "fst (PortPop p) = m \<and> port_ok (snd (PortPop p)) \<and> messages (snd (PortPop p)) = ms"
proof -
  note ok = port_okD [OF assms(1)]
  have c: "0 < unat (PCount p)" using assms(2) ok(7) by simp
  have n: "unat (PCount p - 1) = unat (PCount p) - 1" using c by (intro unat_minus_one') auto
  have h: "unat ((Head p + 1) mod 16) = (unat (Head p) + 1) mod length (Slots p)"
    using ok(3) by (simp add: unat_mod unat_succ_bound ok(2))
  have r: "messages p = Slots p ! unat (Head p) #
      ring_list (Slots p) ((unat (Head p) + 1) mod length (Slots p)) (unat (PCount p) - 1)"
    unfolding messages_def using c ok(2,3) by (intro ring_list_pop) simp_all
  have "port_ok (snd (PortPop p))"
    using assms(1) n h ok(2,4) by (auto simp: port_ok_def PortPop_def IpcPortCapacity_def)
  moreover have "messages (snd (PortPop p)) = ms"
    using r assms(2) by (simp add: messages_def PortPop_def IpcPortCapacity_def n h)
  moreover have "fst (PortPop p) = m" using r assms(2) by (simp add: PortPop_def)
  ultimately show ?thesis by simp
qed

interpretation port_ring: bounded_fifo port_ok messages IpcPortCapacity "\<lambda>m. PortPush (Sender m) m" PortPop
proof unfold_locales
  show "port_ok b \<Longrightarrow> length (messages b) \<le> IpcPortCapacity" for b
    by (simp add: port_ok_def messages_def)
  show "port_ok b \<Longrightarrow> length (messages b) < IpcPortCapacity \<Longrightarrow>
      port_ok (PortPush (Sender x) x b) \<and> messages (PortPush (Sender x) x b) = messages b @ [x]" for b x
    using PortPush_law [of b "Sender x" x] by simp
  show "port_ok b \<Longrightarrow> messages b = x # xs \<Longrightarrow>
      fst (PortPop b) = x \<and> port_ok (snd (PortPop b)) \<and> messages (snd (PortPop b)) = xs" for b x xs
    by (rule PortPop_law)
qed

interpretation port_senders: waitable Senders put_senders PortHasRoom
  by unfold_locales (simp_all add: PortHasRoom_def)

interpretation port_receivers: waitable Receivers put_receivers PortHasMessage
  by unfold_locales (simp_all add: PortHasMessage_def)

subsection \<open>Sending and receiving\<close>

lemma IpcTrySend_full:
  assumes "port_ok p" and "Length m \<le> 8" and "unat (PCount p) = 16"
  shows "IpcTrySend_at m p s = Some (IpcErrFull, p, s)"
proof -
  obtain e s1 where lk: "SchedLockIrq s = (e, s1)" by fastforce
  have "PCount p = 16" using assms(3) by (simp add: word_unat_eq_iff)
  with assms lk irq_roundtripD [OF lk] show ?thesis
    by (simp add: IpcTrySend_at_def IpcPortIsCreated_def port_ok_def IpcMessageWords_def IpcPortCapacity_def)
qed

lemma IpcTrySend_room:
  assumes "port_ok p" and "Length m \<le> 8" and "unat (PCount p) < 16" and "refines s a" and "ainv a"
  obtains p' s' where "IpcTrySend_at m p s = Some (IpcOk, p', s')" and "port_ok p'"
    and "messages p' = messages p @ [m\<lparr>Sender := IpcSelfId s\<rparr>]" and "Senders p' = Senders p"
    and "wakes s a (Receivers p) s' (Receivers p')"
proof -
  obtain e s1 where lk: "SchedLockIrq s = (e, s1)" by fastforce
  let ?q = "PortPush (IpcSelfId s) m p"
  have n: "PCount p \<noteq> 16" using assms(3) by auto
  have q: "port_ok ?q" "messages ?q = messages p @ [m\<lparr>Sender := IpcSelfId s\<rparr>]"
    using PortPush_law [OF assms(1)] port_okD(7) [OF assms(1)] assms(3) by (simp_all add: IpcPortCapacity_def)
  have f: "Receivers ?q = Receivers p" "Senders ?q = Senders p" by (simp_all add: PortPush_def Let_def)
  obtain w' s' where w': "IpcWakeOne (Receivers p) s = Some (w', s')" "wakes s a (Receivers p) s' w'"
    using IpcWakeOne_wakes [OF assms(4,5) port_okD(6) [OF assms(1)]] .
  have "IpcTrySend_at m p s = Some (IpcOk, ?q\<lparr>Receivers := w'\<rparr>, s')"
    using assms(1,2) n lk irq_roundtripD [OF lk] lock_irq_self [OF lk] w'(1) f
    by (simp add: IpcTrySend_at_def IpcPortIsCreated_def port_ok_def IpcMessageWords_def
        IpcPortCapacity_def not_less)
  moreover have "port_ok (?q\<lparr>Receivers := w'\<rparr>)" using q(1) w'(2) by (simp add: port_ok_def wakes_def)
  moreover have "messages (?q\<lparr>Receivers := w'\<rparr>) = messages ?q" by (simp add: messages_def)
  ultimately show thesis using q f w'(2) by (intro that [of "?q\<lparr>Receivers := w'\<rparr>" s']) simp_all
qed

lemma IpcTryReceive_empty:
  assumes "port_ok p" and "messages p = []"
  shows "IpcTryReceive_at p s = Some (IpcErrEmpty, None, p, s)"
proof -
  obtain e s1 where lk: "SchedLockIrq s = (e, s1)" by fastforce
  have "PCount p = 0" using port_okD(7) [OF assms(1)] assms(2) by (simp add: unat_eq_0)
  with assms lk irq_roundtripD [OF lk] show ?thesis
    by (simp add: IpcTryReceive_at_def IpcPortIsCreated_def port_ok_def)
qed

lemma IpcTryReceive_some:
  assumes "port_ok p" and "messages p = m # ms" and "refines s a" and "ainv a"
  obtains p' s' where "IpcTryReceive_at p s = Some (IpcOk, Some m, p', s')" and "port_ok p'"
    and "messages p' = ms" and "Receivers p' = Receivers p"
    and "wakes s a (Senders p) s' (Senders p')"
proof -
  obtain e s1 where lk: "SchedLockIrq s = (e, s1)" by fastforce
  obtain q where q: "PortPop p = (m, q)" "port_ok q" "messages q = ms"
    using PortPop_law [OF assms(1,2)] by (cases "PortPop p") simp
  then have f: "Receivers q = Receivers p" "Senders q = Senders p" by (auto simp: PortPop_def)
  have n: "PCount p \<noteq> 0" using port_okD(7) [OF assms(1)] assms(2) by auto
  obtain w' s' where w': "IpcWakeOne (Senders p) s = Some (w', s')" "wakes s a (Senders p) s' w'"
    using IpcWakeOne_wakes [OF assms(3,4) port_okD(5) [OF assms(1)]] .
  have "IpcTryReceive_at p s = Some (IpcOk, Some m, q\<lparr>Senders := w'\<rparr>, s')"
    using assms(1) n lk irq_roundtripD [OF lk] w'(1) f q(1)
    by (simp add: IpcTryReceive_at_def IpcPortIsCreated_def port_ok_def)
  moreover have "port_ok (q\<lparr>Senders := w'\<rparr>)" using q(2) w'(2) by (simp add: port_ok_def wakes_def)
  moreover have "messages (q\<lparr>Senders := w'\<rparr>) = messages q" by (simp add: messages_def)
  ultimately show thesis using q f w'(2) by (intro that [of "q\<lparr>Senders := w'\<rparr>" s']) simp_all
qed

end
