(* ===== verification/Ipc_Sync.thy ===== *)
theory Ipc_Sync
  imports Ipc_Park
begin

text \<open>
  Semaphores and mutexes, \<^verbatim>\<open>src/ipc/sync.c\<close>. As for the ports, a null pointer is \<^const>\<open>None\<close>,
  the \<open>_at\<close> functions work on an object that is there, and a blocking call that goes to sleep
  continues with its \<open>_resume\<close> function.
\<close>

record IpcSemaphore =
  SCount :: u32
  Limit :: u32
  SWait :: IpcWait

record IpcMutex =
  Locked :: bool
  Owner :: u32
  MWait :: IpcWait

subsection \<open>Semaphores\<close>

definition SemInit :: "IpcSemaphore option \<Rightarrow> u32 \<Rightarrow> u32 \<Rightarrow> IpcSemaphore option" where
  "SemInit sem initial limit =
     (case sem of
        None \<Rightarrow> None
      | Some m \<Rightarrow>
          (let initial = (if limit \<noteq> 0 \<and> initial > limit then limit else initial)
           in Some (m\<lparr>SCount := initial, Limit := limit, SWait := wait_reset (SWait m)\<rparr>)))"

definition SemHasPermit :: "IpcSemaphore \<Rightarrow> bool" where
  "SemHasPermit m \<longleftrightarrow> SCount m > 0"

definition SemTryWait_at :: "IpcSemaphore \<Rightarrow> sched \<Rightarrow> IpcStatus \<times> IpcSemaphore \<times> sched" where
  "SemTryWait_at m s =
     (let (was_enabled, s) = SchedLockIrq s;
          (status, m) = (if SCount m = 0 then (IpcErrEmpty, m) else (IpcOk, m\<lparr>SCount := SCount m - 1\<rparr>))
      in (status, m, SchedUnlockIrq was_enabled s))"

definition SemTryWait :: "IpcSemaphore option \<Rightarrow> sched \<Rightarrow> IpcStatus \<times> IpcSemaphore option \<times> sched" where
  "SemTryWait sem s =
     (case sem of
        None \<Rightarrow> (IpcErrInvalid, None, s)
      | Some m \<Rightarrow> (let (status, m, s) = SemTryWait_at m s in (status, Some m, s)))"

abbreviation put_swait :: "IpcWait \<Rightarrow> IpcSemaphore \<Rightarrow> IpcSemaphore" where
  "put_swait w m \<equiv> m\<lparr>SWait := w\<rparr>"

partial_function (option) SemWait_loop ::
  "IpcSemaphore \<Rightarrow> sched \<Rightarrow> (IpcStatus outcome \<times> IpcSemaphore \<times> sched) option" where
  "SemWait_loop m s =
     (let (status, m, s) = SemTryWait_at m s in
      if status \<noteq> IpcErrEmpty then Some (Done status, m, s)
      else
        do { (r, m, s) \<leftarrow> IpcPark SWait put_swait SemHasPermit m s;
             (case r of
                Suspended e \<Rightarrow> Some (Suspended e, m, s)
              | Done status \<Rightarrow>
                  if status \<noteq> IpcOk then Some (Done status, m, s) else SemWait_loop m s) })"

definition SemWait ::
  "IpcSemaphore option \<Rightarrow> sched \<Rightarrow> (IpcStatus outcome \<times> IpcSemaphore option \<times> sched) option" where
  "SemWait sem s =
     (case sem of
        None \<Rightarrow> Some (Done IpcErrInvalid, None, s)
      | Some m \<Rightarrow> do { (r, m, s) \<leftarrow> SemWait_loop m s; Some (r, Some m, s) })"

definition SemWait_resume ::
  "u32 \<Rightarrow> nat \<Rightarrow> bool \<Rightarrow> IpcSemaphore \<Rightarrow> sched \<Rightarrow> (IpcStatus outcome \<times> IpcSemaphore \<times> sched) option" where
  "SemWait_resume self i e m s =
     do { (r, m, s) \<leftarrow> IpcPark_resume SWait put_swait SemHasPermit self i e m s;
          (case r of
             Suspended e \<Rightarrow> Some (Suspended e, m, s)
           | Done status \<Rightarrow>
               if status \<noteq> IpcOk then Some (Done status, m, s) else SemWait_loop m s) }"

definition SemPost_at :: "IpcSemaphore \<Rightarrow> sched \<Rightarrow> (IpcStatus \<times> IpcSemaphore \<times> sched) option" where
  "SemPost_at m s =
     (let (was_enabled, s) = SchedLockIrq s;
          (status, m) = (if Limit m \<noteq> 0 \<and> SCount m \<ge> Limit m then (IpcErrFull, m)
                         else (IpcOk, m\<lparr>SCount := SCount m + 1\<rparr>));
          s = SchedUnlockIrq was_enabled s
      in if status = IpcOk
         then do { (w, s) \<leftarrow> IpcWakeOne (SWait m) s; Some (status, m\<lparr>SWait := w\<rparr>, s) }
         else Some (status, m, s))"

definition SemPost :: "IpcSemaphore option \<Rightarrow> sched \<Rightarrow> (IpcStatus \<times> IpcSemaphore option \<times> sched) option" where
  "SemPost sem s =
     (case sem of
        None \<Rightarrow> Some (IpcErrInvalid, None, s)
      | Some m \<Rightarrow> do { (status, m, s) \<leftarrow> SemPost_at m s; Some (status, Some m, s) })"

definition SemCount :: "IpcSemaphore option \<Rightarrow> u32" where
  "SemCount sem = (case sem of None \<Rightarrow> 0 | Some m \<Rightarrow> SCount m)"

subsection \<open>Mutexes\<close>

definition MutexInit :: "IpcMutex option \<Rightarrow> IpcMutex option" where
  "MutexInit mutex =
     map_option (\<lambda>m. m\<lparr>Locked := False, Owner := 0, MWait := wait_reset (MWait m)\<rparr>) mutex"

definition MutexHeldByCaller :: "IpcMutex option \<Rightarrow> 'a sched_core_scheme \<Rightarrow> bool" where
  "MutexHeldByCaller mutex s \<longleftrightarrow>
     (case mutex of None \<Rightarrow> False | Some m \<Rightarrow> if \<not> Locked m then False else Owner m = IpcSelfId s)"

definition MutexIsFree :: "IpcMutex \<Rightarrow> bool" where
  "MutexIsFree m \<longleftrightarrow> \<not> Locked m"

definition MutexTryLock_at :: "IpcMutex \<Rightarrow> sched \<Rightarrow> IpcStatus \<times> IpcMutex \<times> sched" where
  "MutexTryLock_at m s =
     (let (was_enabled, s) = SchedLockIrq s;
          (status, m) = (if Locked m then (IpcErrBusy, m)
                         else (IpcOk, m\<lparr>Locked := True, Owner := IpcSelfId s\<rparr>))
      in (status, m, SchedUnlockIrq was_enabled s))"

definition MutexTryLock :: "IpcMutex option \<Rightarrow> sched \<Rightarrow> IpcStatus \<times> IpcMutex option \<times> sched" where
  "MutexTryLock mutex s =
     (case mutex of
        None \<Rightarrow> (IpcErrInvalid, None, s)
      | Some m \<Rightarrow> (let (status, m, s) = MutexTryLock_at m s in (status, Some m, s)))"

abbreviation put_mwait :: "IpcWait \<Rightarrow> IpcMutex \<Rightarrow> IpcMutex" where
  "put_mwait w m \<equiv> m\<lparr>MWait := w\<rparr>"

partial_function (option) MutexLock_loop ::
  "IpcMutex \<Rightarrow> sched \<Rightarrow> (IpcStatus outcome \<times> IpcMutex \<times> sched) option" where
  "MutexLock_loop m s =
     (let (status, m, s) = MutexTryLock_at m s in
      if status = IpcErrBusy \<and> MutexHeldByCaller (Some m) s then Some (Done IpcOk, m, s)
      else if status \<noteq> IpcErrBusy then Some (Done status, m, s)
      else
        do { (r, m, s) \<leftarrow> IpcPark MWait put_mwait MutexIsFree m s;
             (case r of
                Suspended e \<Rightarrow> Some (Suspended e, m, s)
              | Done status \<Rightarrow>
                  if status \<noteq> IpcOk then Some (Done status, m, s) else MutexLock_loop m s) })"

definition MutexLock ::
  "IpcMutex option \<Rightarrow> sched \<Rightarrow> (IpcStatus outcome \<times> IpcMutex option \<times> sched) option" where
  "MutexLock mutex s =
     (case mutex of
        None \<Rightarrow> Some (Done IpcErrInvalid, None, s)
      | Some m \<Rightarrow>
          if MutexHeldByCaller mutex s then Some (Done IpcErrOwner, mutex, s)
          else do { (r, m, s) \<leftarrow> MutexLock_loop m s; Some (r, Some m, s) })"

definition MutexLock_resume ::
  "u32 \<Rightarrow> nat \<Rightarrow> bool \<Rightarrow> IpcMutex \<Rightarrow> sched \<Rightarrow> (IpcStatus outcome \<times> IpcMutex \<times> sched) option" where
  "MutexLock_resume self i e m s =
     do { (r, m, s) \<leftarrow> IpcPark_resume MWait put_mwait MutexIsFree self i e m s;
          (case r of
             Suspended e \<Rightarrow> Some (Suspended e, m, s)
           | Done status \<Rightarrow>
               if status \<noteq> IpcOk then Some (Done status, m, s) else MutexLock_loop m s) }"

definition MutexUnlock_at :: "IpcMutex \<Rightarrow> sched \<Rightarrow> (IpcStatus \<times> IpcMutex \<times> sched) option" where
  "MutexUnlock_at m s =
     (let (was_enabled, s) = SchedLockIrq s;
          (status, next, m) =
            (if \<not> Locked m \<or> Owner m \<noteq> IpcSelfId s then (IpcErrOwner, 0, m)
             else
               (let (next, w) = IpcWaitTakeLive s (MWait m); m = m\<lparr>MWait := w\<rparr>
                in if next \<noteq> 0 then (IpcOk, next, m\<lparr>Owner := next\<rparr>)
                   else (IpcOk, next, m\<lparr>Locked := False, Owner := 0\<rparr>)));
          s = SchedUnlockIrq was_enabled s
      in if status = IpcOk \<and> next \<noteq> 0
         then do { s \<leftarrow> SchedWakeTask next s; Some (status, m, s) }
         else Some (status, m, s))"

definition MutexUnlock :: "IpcMutex option \<Rightarrow> sched \<Rightarrow> (IpcStatus \<times> IpcMutex option \<times> sched) option" where
  "MutexUnlock mutex s =
     (case mutex of
        None \<Rightarrow> Some (IpcErrInvalid, None, s)
      | Some m \<Rightarrow> do { (status, m, s) \<leftarrow> MutexUnlock_at m s; Some (status, Some m, s) })"

declare SemWait_loop.simps [code] MutexLock_loop.simps [code]

subsection \<open>The wait queues\<close>

interpretation sem_wait: waitable SWait put_swait SemHasPermit
  by unfold_locales (simp_all add: SemHasPermit_def)

interpretation mutex_wait: waitable MWait put_mwait MutexIsFree
  by unfold_locales (simp_all add: MutexIsFree_def)

subsection \<open>Without waiting\<close>

lemma SemTryWait_at_eq:
  "SemTryWait_at m s =
     (if SCount m = 0 then (IpcErrEmpty, m, s) else (IpcOk, m\<lparr>SCount := SCount m - 1\<rparr>, s))"
  by (cases "SchedLockIrq s") (simp add: SemTryWait_at_def irq_roundtripD)

lemma MutexTryLock_at_eq:
  "MutexTryLock_at m s =
     (if Locked m then (IpcErrBusy, m, s)
      else (IpcOk, m\<lparr>Locked := True, Owner := IpcSelfId s\<rparr>, s))"
  by (cases "SchedLockIrq s") (simp add: MutexTryLock_at_def irq_roundtripD lock_irq_self)

lemma SemPost_at_eq:
  "SemPost_at m s =
     (if Limit m \<noteq> 0 \<and> SCount m \<ge> Limit m then Some (IpcErrFull, m, s)
      else do { (w, s) \<leftarrow> IpcWakeOne (SWait m) s;
                Some (IpcOk, m\<lparr>SCount := SCount m + 1, SWait := w\<rparr>, s) })"
  by (cases "SchedLockIrq s") (simp add: SemPost_at_def irq_roundtripD)

text \<open>Unlocking by the holder: the first live waiter gets the lock, or it becomes free.\<close>

lemma MutexUnlock_holder:
  assumes "Locked m" and "Owner m = IpcSelfId s" and "wait_ok (MWait m)" and "refines s a" and "ainv a"
  obtains (handoff) x w s' where "MutexUnlock_at m s = Some (IpcOk, m\<lparr>Owner := x, MWait := w\<rparr>, s')"
      "x \<in> waiters (MWait m)" "x \<noteq> 0" "IpcWaitIsLive s x" "wait_ok w" "waiters w = waiters (MWait m) - {x}"
      "refines s' (awake_task x a)"
  | (free) w where "MutexUnlock_at m s = Some (IpcOk, m\<lparr>Locked := False, Owner := 0, MWait := w\<rparr>, s)"
      "\<forall>x \<in> waiters (MWait m). \<not> IpcWaitIsLive s x" "wait_ok w" "waiters w = {}"
proof -
  obtain e s1 where lk: "SchedLockIrq s = (e, s1)" by fastforce
  have r1: "refines s1 a" using assms(4) refines_lock_irq [of s a] lk by simp
  have lv: "IpcWaitIsLive s1 x \<longleftrightarrow> IpcWaitIsLive s x" for x
    using live_sim [OF r1 assms(5)] live_sim [OF assms(4,5)] by simp
  note eq = lk irq_roundtripD [OF lk] lock_irq_self [OF lk]
  show thesis
  proof (cases rule: IpcWaitTakeLive_cases [OF assms(3), of s1])
    case (1 x w)
    obtain s' where s': "SchedWakeTask x s = Some s'" "refines s' (awake_task x a)"
      using SchedWakeTask_sim [OF assms(4,5), of x] by (auto simp: returns_def)
    with 1 assms(1,2) eq have "MutexUnlock_at m s = Some (IpcOk, m\<lparr>Owner := x, MWait := w\<rparr>, s')"
      by (simp add: MutexUnlock_at_def)
    with 1 lv s'(2) show thesis by (intro handoff) simp_all
  next
    case (2 w)
    with assms(1,2) eq have "MutexUnlock_at m s = Some (IpcOk, m\<lparr>Locked := False, Owner := 0, MWait := w\<rparr>, s)"
      by (simp add: MutexUnlock_at_def)
    with 2 lv show thesis by (intro free) simp_all
  qed
qed

lemma MutexUnlock_other:
  assumes "\<not> Locked m \<or> Owner m \<noteq> IpcSelfId s"
  shows "MutexUnlock_at m s = Some (IpcErrOwner, m, s)"
  using assms by (cases "SchedLockIrq s") (auto simp: MutexUnlock_at_def irq_roundtripD lock_irq_self)

end
