(* ===== verification/Ipc_Props.thy ===== *)
theory Ipc_Props
  imports Ipc_Port Ipc_Sync Sched_Props
begin

text \<open>
  The properties of the inter-process communication: order of messages, the bounds of ports
  and semaphores, ownership of mutexes, and that a sleeper is woken by the other side. The
  theorem on the mutex hand-over records a defect: the task that is handed the lock goes back
  to sleep.
\<close>

subsection \<open>Concrete objects\<close>

definition demo_wait :: IpcWait where
  "demo_wait = \<lparr>Ids = replicate 16 0, WCount = 0\<rparr>"

definition demo_message :: "u32 \<Rightarrow> IpcMessage" where
  "demo_message x = \<lparr>Length = 1, Sender = 1, Data = [x, 0, 0, 0, 0, 0, 0, 0]\<rparr>"

definition demo_port :: IpcPort where
  "demo_port = \<lparr>Magic = PORT_MAGIC, Head = 14, PCount = 0, Slots = replicate 16 (demo_message 0),
     Senders = demo_wait, Receivers = demo_wait\<rparr>"

definition demo_sem :: "u32 \<Rightarrow> u32 \<Rightarrow> IpcSemaphore" where
  "demo_sem c l = \<lparr>SCount = c, Limit = l, SWait = demo_wait\<rparr>"

definition demo_mutex :: "bool \<Rightarrow> u32 \<Rightarrow> IpcMutex" where
  "demo_mutex l o' = \<lparr>Locked = l, Owner = o', MWait = demo_wait\<rparr>"

lemma demo_wait_ok [simp]: "wait_ok demo_wait" "waiters demo_wait = {}" "WCount demo_wait = 0"
  by (simp_all add: demo_wait_def wait_ok_def entries_def IpcMaxWaiters_def)

lemma demo_port_ok [simp]: "port_ok demo_port" "messages demo_port = []" "PCount demo_port = 0"
  "Senders demo_port = demo_wait" "Receivers demo_port = demo_wait"
  by (simp_all add: demo_port_def port_ok_def messages_def IpcPortCapacity_def ring_list_def)

lemma demo_self [simp]: "IpcSelfId demo = 1"
  by (simp add: IpcSelfId_def SchedCurrent_def)

subsection \<open>Ports\<close>

text \<open>
  A port delivers messages in the order they were queued. From an empty port, up to
  sixteen pushes followed by as many pops give back exactly the messages pushed, wherever in
  the ring the port started.
\<close>

theorem port_fifo:
  assumes "port_ok p" and "messages p = []" and "length ms \<le> IpcPortCapacity"
  shows "fst (drain PortPop (length ms) (fold (\<lambda>m. PortPush (Sender m) m) ms p)) = ms"
  by (rule port_ring.fifo_order [OF assms])

theorem port_fifo_witness:
  "fst (drain PortPop 3 (fold (\<lambda>m. PortPush (Sender m) m) [demo_message 7, demo_message 8, demo_message 9] demo_port)) =
     [demo_message 7, demo_message 8, demo_message 9]"
  using port_fifo [of demo_port "[demo_message 7, demo_message 8, demo_message 9]"]
  by (simp add: IpcPortCapacity_def eval_nat_numeral)



lemma receiver_sleeps:
  assumes "refines s a" and "ainv a" and "lck a = 0" and "cur a = Some i" and "i \<noteq> 0"
    and "State (tab a ! i) = TaskRunning" and "port_ok p" and "messages p = []"
    and "waiters (Receivers p) = {}"
  obtains w s' where "IpcReceive_loop p s = Some (Suspended (fst (SchedLockIrq s)), None, p\<lparr>Receivers := w\<rparr>, s')"
    and "wait_ok w" and "waiters w = {TaskId (tab a ! i)}" and "State (task s' i) = TaskBlocked"
    and "refines s' (fst (ayield (ablock i a)))" and "ainv (fst (ayield (ablock i a)))"
proof -
  note ok = port_okD [OF assms(7)]
  have nr: "\<not> PortHasMessage p" using ok(7) assms(8) by (simp add: PortHasMessage_def unat_eq_0 word_gt_0)
  have "WCount (Receivers p) = 0" using assms(9) wait_okD(5) [OF ok(6)] by (simp add: unat_eq_0)
  then obtain w s' where w: "IpcPark_loop Receivers put_receivers PortHasMessage (TaskId (tab a ! i)) p s =
      Some (Suspended (fst (SchedLockIrq s)), p\<lparr>Receivers := w\<rparr>, s')" "wait_ok w"
    "waiters w = insert (TaskId (tab a ! i)) (waiters (Receivers p))" "State (task s' i) = TaskBlocked"
    "refines s' (fst (ayield (ablock i a)))" "ainv (fst (ayield (ablock i a)))"
    using port_receivers.loop_sleeps [OF assms(1-6) nr ok(6)] by auto
  have lv: "live a i" using ainvD(2) [OF assms(2)] assms(4) by (simp add: current_ok_def)
  have "IpcSelfId s = TaskId (tab a ! i)" "TaskId (tab a ! i) \<noteq> 0"
    using IpcSelfId_sim [OF assms(1,2,4)] zero_id_idle [OF ainvD(3) [OF assms(2)] lv] assms(5) by simp_all
  then have "IpcReceive_loop p s = Some (Suspended (fst (SchedLockIrq s)), None, p\<lparr>Receivers := w\<rparr>, s')"
    using IpcTryReceive_empty [OF assms(7,8)] w(1)
    by (subst IpcReceive_loop.simps) (simp add: IpcPark_def)
  with w assms(9) show thesis by (intro that) simp_all
qed

text \<open>
  C14: no wakeup is lost on a port. A receiver that finds the port empty goes to sleep on its
  wait queue; a later send makes it ready; and when it runs again it returns with exactly the
  message that was sent.
\<close>

theorem port_rendezvous:
  assumes "refines s a" and "ainv a" and "lck a = 0" and "cur a = Some i" and "i \<noteq> 0"
    and "State (tab a ! i) = TaskRunning" and "port_ok p" and "messages p = []"
    and "waiters (Receivers p) = {}" and "Length m \<le> 8"
  shows "\<exists>e p1 s1 p2 s2. IpcReceive_loop p s = Some (Suspended e, None, p1, s1) \<and>
    State (task s1 i) = TaskBlocked \<and> IpcTrySend_at m p1 s1 = Some (IpcOk, p2, s2) \<and>
    State (task s2 i) = TaskReady \<and>
    (\<forall>s3 a3. refines s3 a3 \<and> ainv a3 \<and> State (task s3 i) = TaskRunning \<longrightarrow>
      (\<exists>p4 s4. IpcReceive_resume (TaskId (tab a ! i)) i e p2 s3 =
         Some (Done IpcOk, Some (m\<lparr>Sender := IpcSelfId s1\<rparr>), p4, s4) \<and> messages p4 = []))"
proof -
  let ?b = "fst (ayield (ablock i a))"
  obtain w s1 where w: "IpcReceive_loop p s = Some (Suspended (fst (SchedLockIrq s)), None, p\<lparr>Receivers := w\<rparr>, s1)"
    "wait_ok w" "waiters w = {TaskId (tab a ! i)}" "State (task s1 i) = TaskBlocked" "refines s1 ?b" "ainv ?b"
    using receiver_sleeps [OF assms(1-9)] .
  have i: "i < SchedMaxTasks" using ainvD(2) [OF assms(2)] assms(4) by (simp add: current_ok_def live_def)
  have st: "State (tab ?b ! i) = TaskBlocked"
    using refines_nth [OF w(5)] refines_current(1) [OF w(5,6)] i w(4) by simp
  have ws: "waiters w = {TaskId (tab ?b ! i)}"
    using w(3) sleeper_id [OF assms(2,4-6)] by simp
  let ?p1 = "p\<lparr>Receivers := w\<rparr>"
  have p1: "port_ok ?p1" "messages ?p1 = []" "unat (PCount ?p1) < 16"
    using assms(7,8) w(2) port_okD(7) [OF assms(7)] by (simp_all add: port_ok_def messages_def)
  obtain p2 s2 where p2: "IpcTrySend_at m ?p1 s1 = Some (IpcOk, p2, s2)" "port_ok p2"
    "messages p2 = messages ?p1 @ [m\<lparr>Sender := IpcSelfId s1\<rparr>]" "wakes s1 ?b (Receivers ?p1) s2 (Receivers p2)"
    using IpcTrySend_room [OF p1(1) assms(10) p1(3) w(5,6)] by blast
  have "State (task s2 i) = TaskReady"
    using wakes_sleeper(3) [OF p2(4) w(5,6) _ i assms(5) st] ws by simp
  moreover have "\<exists>p4 s4. IpcReceive_resume (TaskId (tab a ! i)) i e p2 s3 =
         Some (Done IpcOk, Some (m\<lparr>Sender := IpcSelfId s1\<rparr>), p4, s4) \<and> messages p4 = []"
    if s3: "refines s3 a3" "ainv a3" "State (task s3 i) = TaskRunning" for s3 a3 e
  proof -
    let ?v = "IpcWaitRemove (TaskId (tab a ! i)) (Receivers p2)"
    have rd: "PortHasMessage p2"
      using port_okD(7) [OF p2(2)] p2(3) by (auto simp: PortHasMessage_def word_gt_0)
    let ?s = "SchedUnlockIrq e (snd (SchedLockIrq s3))"
    have rs: "refines ?s a3" using s3(1) by (simp add: irq_simps)
    have pk: "port_ok (p2\<lparr>Receivers := ?v\<rparr>)"
      "messages (p2\<lparr>Receivers := ?v\<rparr>) = m\<lparr>Sender := IpcSelfId s1\<rparr> # []"
      using p2(2,3) p1(2) IpcWaitRemove_law(2) [OF port_okD(6) [OF p2(2)]]
      by (simp_all add: port_ok_def messages_def)
    obtain p4 s4 where p4: "IpcTryReceive_at (p2\<lparr>Receivers := ?v\<rparr>) ?s =
        Some (IpcOk, Some (m\<lparr>Sender := IpcSelfId s1\<rparr>), p4, s4)" "messages p4 = []"
      using IpcTryReceive_some [OF pk rs s3(2)] by blast
    have "IpcReceive_resume (TaskId (tab a ! i)) i e p2 s3 = IpcReceive_loop (p2\<lparr>Receivers := ?v\<rparr>) ?s"
      using port_receivers.resume_ready [of s3 i p2, OF _ rd] s3(3) by (simp add: IpcReceive_resume_def)
    also have "\<dots> = Some (Done IpcOk, Some (m\<lparr>Sender := IpcSelfId s1\<rparr>), p4, s4)"
      by (subst IpcReceive_loop.simps) (simp add: p4(1))
    finally show ?thesis using p4(2) by blast
  qed
  ultimately show ?thesis using w(1,4) p2(1) by blast
qed

theorem port_rendezvous_witness:
  "\<exists>e p1 s1 p2 s2. IpcReceive_loop demo_port demo = Some (Suspended e, None, p1, s1) \<and>
     State (task s1 1) = TaskBlocked \<and> IpcTrySend_at (demo_message 7) p1 s1 = Some (IpcOk, p2, s2) \<and>
     State (task s2 1) = TaskReady"
  using port_rendezvous [OF demo_refines ademo_inv, of 1 demo_port "demo_message 7"]
  by (auto simp: demo_message_def)

subsection \<open>Semaphores\<close>

definition sem_ok :: "IpcSemaphore \<Rightarrow> bool" where
  "sem_ok m \<longleftrightarrow> wait_ok (SWait m) \<and> (Limit m \<noteq> 0 \<longrightarrow> SCount m \<le> Limit m)"

text \<open>
  C16: the count of a semaphore with a limit stays within it: initialisation establishes it,
  taking a permit, waiting for one (whether the call returns or sleeps) and posting keep it,
  and a post at the limit is refused and changes nothing.
\<close>

theorem semaphore_limit:
  assumes "refines s a" and "ainv a" and "sem_ok m" and "length (Ids (SWait m0)) = IpcMaxWaiters"
  shows "(\<exists>m'. SemInit (Some m0) initial limit = Some m' \<and> sem_ok m') \<and>
    sem_ok (fst (snd (SemTryWait_at m s))) \<and>
    (\<exists>m' s'. SemPost_at m s = Some
       (if Limit m \<noteq> 0 \<and> SCount m = Limit m then IpcErrFull else IpcOk, m', s') \<and> sem_ok m' \<and>
       SCount m' = (if Limit m \<noteq> 0 \<and> SCount m = Limit m then SCount m else SCount m + 1)) \<and>
    (\<forall>r m' s'. IpcPark SWait put_swait SemHasPermit m s = Some (r, m', s') \<longrightarrow> SCount m' = SCount m \<and> Limit m' = Limit m)"
proof -
  have "\<exists>m'. SemInit (Some m0) initial limit = Some m' \<and> sem_ok m'"
    using wait_reset_law [OF assms(4)] by (simp add: SemInit_def sem_ok_def Let_def not_less)
  moreover have "sem_ok (fst (snd (SemTryWait_at m s)))"
  proof (cases "SCount m = 0")
    case True
    with assms(3) show ?thesis by (simp add: SemTryWait_at_eq)
  next
    case False
    then have "SCount m - 1 \<le> SCount m" by (simp add: word_le_nat_alt unat_minus_one')
    with False assms(3) show ?thesis by (auto simp: SemTryWait_at_eq sem_ok_def intro: order_trans)
  qed
  moreover have "\<exists>m' s'. SemPost_at m s = Some
       (if Limit m \<noteq> 0 \<and> SCount m = Limit m then IpcErrFull else IpcOk, m', s') \<and> sem_ok m' \<and>
       SCount m' = (if Limit m \<noteq> 0 \<and> SCount m = Limit m then SCount m else SCount m + 1)"
  proof (cases "Limit m \<noteq> 0 \<and> SCount m = Limit m")
    case True
    with assms(3) show ?thesis by (simp add: SemPost_at_eq)
  next
    case False
    have ok: "wait_ok (SWait m)" using assms(3) by (simp add: sem_ok_def)
    obtain w' s' where w': "IpcWakeOne (SWait m) s = Some (w', s')" "wakes s a (SWait m) s' w'"
      using IpcWakeOne_wakes [OF assms(1,2) ok] .
    have lt: "SCount m < Limit m" if "Limit m \<noteq> 0" using False assms(3) that by (simp add: sem_ok_def order_le_less)
    then have "SCount m + 1 \<le> Limit m" if "Limit m \<noteq> 0"
      using that inc_le [of "SCount m" "Limit m"] by simp
    with False lt w' show ?thesis by (auto simp: SemPost_at_eq sem_ok_def wakes_def not_le)
  qed
  moreover have "SCount m' = SCount m \<and> Limit m' = Limit m"
    if "IpcPark SWait put_swait SemHasPermit m s = Some (r, m', s')" for r m' s'
    using that sem_wait.loop_frame(1) by (fastforce simp: IpcPark_def Let_def split: if_splits)
  ultimately show ?thesis by blast
qed

theorem semaphore_limit_witness:
  "\<exists>m' s'. SemPost_at (demo_sem 2 3) demo = Some (IpcOk, m', s') \<and> sem_ok m' \<and> SCount m' = 3"
proof -
  have "sem_ok (demo_sem 2 3)" "length (Ids (SWait (demo_sem 2 3))) = IpcMaxWaiters"
    by (simp_all add: sem_ok_def demo_sem_def) (simp_all add: demo_wait_def IpcMaxWaiters_def word_le_nat_alt)
  from semaphore_limit [OF demo_refines ademo_inv this] show ?thesis by (auto simp: demo_sem_def)
qed

text \<open>
  Waiting on a semaphore without permits, posting and waking up again. The waiter sleeps;
  the post raises the count to one and makes the waiter ready; when the waiter runs again it
  takes the permit and returns \<^verbatim>\<open>IpcOk\<close>, leaving no permit and no entry on the wait queue.
\<close>

theorem semaphore_handshake:
  assumes "refines s a" and "ainv a" and "lck a = 0" and "cur a = Some i" and "i \<noteq> 0"
    and "State (tab a ! i) = TaskRunning" and "sem_ok m" and "SCount m = 0" and "waiters (SWait m) = {}"
  shows "\<exists>e m1 s1 m2 s2. SemWait_loop m s = Some (Suspended e, m1, s1) \<and> State (task s1 i) = TaskBlocked \<and>
    SemPost_at m1 s1 = Some (IpcOk, m2, s2) \<and> SCount m2 = 1 \<and> State (task s2 i) = TaskReady \<and>
    (\<forall>s3. State (task s3 i) = TaskRunning \<longrightarrow>
      (\<exists>m4 s4. SemWait_resume (TaskId (tab a ! i)) i e m2 s3 = Some (Done IpcOk, m4, s4) \<and>
        SCount m4 = 0 \<and> waiters (SWait m4) = {}))"
proof -
  let ?b = "fst (ayield (ablock i a))"
  have ok: "wait_ok (SWait m)" using assms(7) by (simp add: sem_ok_def)
  have nr: "\<not> SemHasPermit m" using assms(8) by (simp add: SemHasPermit_def)
  have c0: "unat (WCount (SWait m)) < 16" using assms(9) wait_okD(5) [OF ok] by simp
  have lv: "live a i" using ainvD(2) [OF assms(2)] assms(4) by (simp add: current_ok_def)
  have i: "i < SchedMaxTasks" using lv by (simp add: live_def)
  have self: "IpcSelfId s = TaskId (tab a ! i)" "TaskId (tab a ! i) \<noteq> 0"
    using IpcSelfId_sim [OF assms(1,2,4)] zero_id_idle [OF ainvD(3) [OF assms(2)] lv] assms(5) by simp_all
  obtain w s1 where w: "IpcPark_loop SWait put_swait SemHasPermit (TaskId (tab a ! i)) m s =
      Some (Suspended (fst (SchedLockIrq s)), m\<lparr>SWait := w\<rparr>, s1)" "wait_ok w"
    "waiters w = insert (TaskId (tab a ! i)) (waiters (SWait m))" "State (task s1 i) = TaskBlocked"
    "refines s1 ?b" "ainv ?b"
    using sem_wait.loop_sleeps [OF assms(1-6) nr ok c0] .
  let ?m1 = "m\<lparr>SWait := w\<rparr>"
  have l1: "SemWait_loop m s = Some (Suspended (fst (SchedLockIrq s)), ?m1, s1)"
    using w(1) self assms(8) by (subst SemWait_loop.simps) (simp add: SemTryWait_at_eq IpcPark_def)
  have st: "State (tab ?b ! i) = TaskBlocked"
    using refines_nth [OF w(5)] refines_current(1) [OF w(5,6)] i w(4) by simp
  have ids: "TaskId (tab ?b ! i) = TaskId (tab a ! i)"
    by (rule sleeper_id [OF assms(2,4-6)])
  obtain w' s2 where w': "IpcWakeOne w s1 = Some (w', s2)" "wakes s1 ?b w s2 w'"
    using IpcWakeOne_wakes [OF w(5,6,2)] .
  note k = wakes_sleeper [OF w'(2) w(5,6) _ i assms(5) st]
  let ?m2 = "?m1\<lparr>SCount := 1, SWait := w'\<rparr>"
  have "SemPost_at ?m1 s1 = Some (IpcOk, ?m2, s2)"
    using w'(1) assms(8) by (simp add: SemPost_at_eq)
  moreover have "State (task s2 i) = TaskReady" "waiters w' = {}"
    using k(3,4) w(3) assms(9) ids by simp_all
  moreover have "\<exists>m4 s4. SemWait_resume (TaskId (tab a ! i)) i e ?m2 s3 = Some (Done IpcOk, m4, s4) \<and>
        SCount m4 = 0 \<and> waiters (SWait m4) = {}" if "State (task s3 i) = TaskRunning" for s3 e
  proof -
    have "wait_ok w'" using w'(2) by (simp add: wakes_def)
    moreover have "SemWait_resume (TaskId (tab a ! i)) i e ?m2 s3 =
        SemWait_loop (?m2\<lparr>SWait := IpcWaitRemove (TaskId (tab a ! i)) w'\<rparr>) (SchedUnlockIrq e (snd (SchedLockIrq s3)))"
      using sem_wait.resume_ready [of s3 i ?m2] that by (simp add: SemWait_resume_def SemHasPermit_def)
    ultimately show ?thesis
      using IpcWaitRemove_law(1) [of w' "TaskId (tab a ! i)"] \<open>waiters w' = {}\<close>
      by (subst (asm) SemWait_loop.simps) (simp add: SemTryWait_at_eq)
  qed
  moreover have "SCount ?m2 = 1" by simp
  ultimately show ?thesis using l1 w(4) by blast
qed

theorem semaphore_handshake_witness:
  "\<exists>e m1 s1 m2 s2. SemWait_loop (demo_sem 0 0) demo = Some (Suspended e, m1, s1) \<and>
     State (task s1 1) = TaskBlocked \<and> SemPost_at m1 s1 = Some (IpcOk, m2, s2) \<and> SCount m2 = 1 \<and>
     State (task s2 1) = TaskReady"
proof -
  have "sem_ok (demo_sem 0 0)" "SCount (demo_sem 0 0) = 0" "waiters (SWait (demo_sem 0 0)) = {}"
    by (simp_all add: sem_ok_def demo_sem_def)
  from semaphore_handshake [OF demo_refines ademo_inv _ _ _ _ this, of 1] show ?thesis by auto
qed

subsection \<open>Mutexes\<close>

text \<open>
  C17: a held mutex cannot be stolen. While a task holds it, no try, no blocking lock (whether
  it returns or sleeps) and no unlock by another task changes the lock or its owner; the try
  is refused as busy, the unlock as not the owner's, and a blocking lock does not report
  success.
\<close>

theorem mutex_not_stolen:
  assumes "Locked m" and "Owner m \<noteq> IpcSelfId s"
  shows "MutexTryLock_at m s = (IpcErrBusy, m, s) \<and> MutexUnlock_at m s = Some (IpcErrOwner, m, s) \<and>
    (\<forall>r m' s'. MutexLock (Some m) s = Some (r, Some m', s') \<longrightarrow>
       Locked m' \<and> Owner m' = Owner m \<and> r \<noteq> Done IpcOk)"
proof -
  have "Locked m' \<and> Owner m' = Owner m \<and> r \<noteq> Done IpcOk"
    if l: "MutexLock (Some m) s = Some (r, Some m', s')" for r m' s'
  proof -
    have nh: "\<not> MutexHeldByCaller (Some m) s" using assms(2) by (simp add: MutexHeldByCaller_def)
    then have "MutexLock_loop m s = Some (r, m', s')"
      using l by (auto simp: MutexLock_def bind_eq_Some_conv)
    then obtain r1 m1 s1 where p: "IpcPark MWait put_mwait MutexIsFree m s = Some (r1, m1, s1)"
      "(case r1 of Suspended e \<Rightarrow> Some (Suspended e, m1, s1)
        | Done status \<Rightarrow> if status \<noteq> IpcOk then Some (Done status, m1, s1) else MutexLock_loop m1 s1) = Some (r, m', s')"
      using assms(1) nh by (subst (asm) MutexLock_loop.simps) (auto simp: MutexTryLock_at_eq bind_eq_Some_conv)
    have f: "(\<exists>w. m1 = m\<lparr>MWait := w\<rparr>) \<and> (r1 = Done IpcOk \<longrightarrow> MutexIsFree m1)"
    proof (cases "IpcSelfId s = 0")
      case True
      with p(1) have "r1 = Done IpcErrNoTask" "m1 = m\<lparr>MWait := MWait m\<rparr>" by (auto simp: IpcPark_def)
      then show ?thesis by blast
    next
      case False
      with p(1) mutex_wait.loop_frame show ?thesis by (fastforce simp: IpcPark_def)
    qed
    then obtain w where w: "m1 = m\<lparr>MWait := w\<rparr>" by blast
    then have nok: "r1 \<noteq> Done IpcOk" using f assms(1) by (simp add: MutexIsFree_def)
    with p(2) have "m' = m1" "r = r1" by (cases r1; simp)+
    with w nok assms(1) show ?thesis by simp
  qed
  moreover have "MutexTryLock_at m s = (IpcErrBusy, m, s)" "MutexUnlock_at m s = Some (IpcErrOwner, m, s)"
    using assms by (simp_all add: MutexTryLock_at_eq MutexUnlock_other)
  ultimately show ?thesis by blast
qed

theorem mutex_not_stolen_witness:
  "MutexTryLock_at (demo_mutex True 2) demo = (IpcErrBusy, demo_mutex True 2, demo) \<and>
     MutexUnlock_at (demo_mutex True 2) demo = Some (IpcErrOwner, demo_mutex True 2, demo)"
  using mutex_not_stolen [of "demo_mutex True 2" demo] by (simp add: demo_mutex_def)

text \<open>
  Unlocking by the holder either hands the lock to a live waiter, which leaves the wait
  queue and is made ready while the mutex stays locked under its identifier, or, when no
  waiter is alive, frees the mutex and empties the wait queue. Locking a free mutex makes the
  caller the owner, and the caller can then unlock it again.
\<close>

theorem mutex_unlock_spec:
  assumes "refines s a" and "ainv a" and "wait_ok (MWait m)" and "Locked m" and "Owner m = IpcSelfId s"
  shows "(\<exists>x \<in> waiters (MWait m). \<exists>m' s'. IpcWaitIsLive s x \<and> MutexUnlock (Some m) s = Some (IpcOk, Some m', s') \<and>
      Locked m' \<and> Owner m' = x \<and> waiters (MWait m') = waiters (MWait m) - {x} \<and> refines s' (awake_task x a)) \<or>
    ((\<forall>x \<in> waiters (MWait m). \<not> IpcWaitIsLive s x) \<and>
     (\<exists>m'. MutexUnlock (Some m) s = Some (IpcOk, Some m', s) \<and> \<not> Locked m' \<and> waiters (MWait m') = {} \<and>
       MutexTryLock_at m' s = (IpcOk, m'\<lparr>Locked := True, Owner := IpcSelfId s\<rparr>, s)))"
proof (cases rule: MutexUnlock_holder [OF assms(4,5,3,1,2)])
  case (1 x w s')
  let ?m = "m\<lparr>Owner := x, MWait := w\<rparr>"
  have "MutexUnlock (Some m) s = Some (IpcOk, Some ?m, s')" using 1(1) by (simp add: MutexUnlock_def)
  moreover have "Locked ?m" "Owner ?m = x" "MWait ?m = w" using assms(4) by simp_all
  ultimately show ?thesis using 1(2,4,6,7) by metis
next
  case (2 w)
  let ?m = "m\<lparr>Locked := False, Owner := 0, MWait := w\<rparr>"
  have "MutexUnlock (Some m) s = Some (IpcOk, Some ?m, s)" using 2(1) by (simp add: MutexUnlock_def)
  moreover have "\<not> Locked ?m" "MWait ?m = w" by simp_all
  ultimately show ?thesis using 2(2,4) MutexTryLock_at_eq [of ?m s] by metis
qed

theorem mutex_unlock_spec_witness:
  "\<exists>m'. MutexUnlock (Some (demo_mutex True 1)) demo = Some (IpcOk, Some m', demo) \<and> \<not> Locked m'"
  using mutex_unlock_spec [OF demo_refines ademo_inv, of "demo_mutex True 1"] by (auto simp: demo_mutex_def)

text \<open>
  The hand-over does not wake the new owner for good. A task that was parked in
  \<^verbatim>\<open>MutexLock\<close> and has been handed the lock (the mutex is locked under its identifier) goes back
  to sleep when it runs again: \<^verbatim>\<open>IpcPark\<close> only returns when the mutex is free. It ends up
  blocked, on the wait queue of the mutex it owns, so no other task can release it.
\<close>

theorem mutex_handover_sleeps_again:
  assumes "refines s a" and "ainv a" and "lck a = 0" and "cur a = Some i" and "i \<noteq> 0"
    and "State (tab a ! i) = TaskRunning" and "wait_ok (MWait m)" and "Locked m"
    and "Owner m = TaskId (tab a ! i)" and "waiters (MWait m) = {}"
  shows "\<exists>e' m' s'. MutexLock_resume (TaskId (tab a ! i)) i e m s = Some (Suspended e', m', s') \<and>
    State (task s' i) = TaskBlocked \<and> Locked m' \<and> Owner m' = TaskId (tab a ! i) \<and>
    waiters (MWait m') = {TaskId (tab a ! i)}"
proof -
  let ?self = "TaskId (tab a ! i)"
  let ?m = "m\<lparr>MWait := IpcWaitRemove ?self (MWait m)\<rparr>"
  let ?s = "SchedUnlockIrq e (snd (SchedLockIrq s))"
  note r = IpcWaitRemove_law [OF assms(7), of ?self]
  have i: "i < SchedMaxTasks" using ainvD(2) [OF assms(2)] assms(4) by (simp add: current_ok_def live_def)
  have nb: "State (task s i) \<noteq> TaskBlocked"
    using refines_nth [OF assms(1)] refines_current(1) [OF assms(1,2)] i assms(6) by simp
  have rs: "refines ?s a" using assms(1) by (simp add: irq_simps)
  have "\<not> MutexIsFree ?m" "wait_ok (MWait ?m)" "unat (WCount (MWait ?m)) < 16"
    using assms(8,10) r wait_okD(5) [OF r(2)] by (simp_all add: MutexIsFree_def)
  from mutex_wait.loop_sleeps [OF rs assms(2-6) this]
  obtain w s' where "IpcPark_loop MWait put_mwait MutexIsFree ?self ?m ?s =
      Some (Suspended (fst (SchedLockIrq ?s)), ?m\<lparr>MWait := w\<rparr>, s')"
    "waiters w = insert ?self (waiters (MWait ?m))" "State (task s' i) = TaskBlocked" by blast
  with nb r(1) assms(8-10) show ?thesis
    by (auto simp: MutexLock_resume_def mutex_wait.resume_running IpcPark_woken_def)
qed

theorem mutex_handover_sleeps_again_witness:
  "\<exists>e' m' s'. MutexLock_resume 1 1 True (demo_mutex True 1) demo = Some (Suspended e', m', s') \<and>
     State (task s' 1) = TaskBlocked \<and> Locked m' \<and> Owner m' = 1"
  using mutex_handover_sleeps_again [OF demo_refines ademo_inv, of 1 "demo_mutex True 1" True]
  by (auto simp: demo_mutex_def)

end
