(* ===== verification/Rendezvous.thy ===== *)
theory Rendezvous
  imports Ipc_Props Sched_Props2 Keyboard
begin

text \<open>
  The two tasks of the port self test in \<^verbatim>\<open>src/init/main.c\<close>: a producer that sends forty numbered messages
  through a port of sixteen slots, and a consumer that takes them out and checks number and sender. They run under
  the scheduler's preemption: the machine can be interrupted between any two sections that run with interrupts
  off. A \<open>phase\<close> says before which such section of \<^verbatim>\<open>ipc_producer_task\<close>, \<^verbatim>\<open>IpcSend\<close>, \<^verbatim>\<open>IpcTrySend\<close>, \<^verbatim>\<open>IpcPark\<close> and
  \<^verbatim>\<open>IpcWakeOne\<close> (or their counterparts for the consumer) a task stands; \<open>producer_step\<close> and \<open>consumer_step\<close> execute the
  next section of the running task, and between them the timer and other tasks may call the scheduler.

  The invariant \<open>rendezvous_inv\<close> holds in every reachable state: messages are neither lost, duplicated nor
  reordered, and a blocked task is either on the wait queue of a port that has nothing for it, or about to be woken.
\<close>

definition IPC_TEST_MESSAGES :: nat where
  "IPC_TEST_MESSAGES = 40"

datatype phase =
    Calling nat
  | Trying nat
  | Waking nat
  | Rousing nat u32
  | Parking nat
  | Parked nat bool
  | Finished

record rendezvous =
  rsch :: sched
  TestPort :: IpcPort
  producer :: phase
  pmessage :: IpcMessage
  consumer :: phase
  cmessage :: IpcMessage
  ConsumerDone :: u32
  ProducerDone :: u32
  ConsumerBad :: u32
  ProducerId :: u32

subsection \<open>The tasks\<close>

definition producer_fails :: "rendezvous \<Rightarrow> rendezvous" where
  "producer_fails r = r\<lparr>ConsumerBad := ConsumerBad r + 1, ProducerDone := 1, producer := Finished\<rparr>"

definition consumer_fails :: "rendezvous \<Rightarrow> rendezvous" where
  "consumer_fails r = r\<lparr>ConsumerBad := ConsumerBad r + 1, ConsumerDone := 1, consumer := Finished\<rparr>"

text \<open>The check of a received message, and the next turn of the loop.\<close>

definition consumer_checks :: "nat \<Rightarrow> rendezvous \<Rightarrow> rendezvous" where
  "consumer_checks n r =
     (let r = (if Length (cmessage r) \<noteq> 1 \<or> Data (cmessage r) ! 0 \<noteq> of_nat n \<or> Sender (cmessage r) \<noteq> ProducerId r
               then r\<lparr>ConsumerBad := ConsumerBad r + 1\<rparr> else r)
      in r\<lparr>consumer := Calling (Suc n)\<rparr>)"

text \<open>The section of \<^verbatim>\<open>IpcWakeOne\<close> that takes a waiter off the queue.\<close>

definition take_waiter :: "IpcWait \<Rightarrow> sched \<Rightarrow> u32 \<times> IpcWait \<times> sched" where
  "take_waiter w s =
     (let (was_enabled, s) = SchedLockIrq s; (ident, w) = IpcWaitTakeLive s w in (ident, w, SchedUnlockIrq was_enabled s))"

lemma IpcWakeOne_sections:
  "IpcWakeOne w s = (case take_waiter w s of (x, w, s) \<Rightarrow> if x \<noteq> 0 then do { s \<leftarrow> SchedWakeTask x s; Some (w, s) } else Some (w, s))"
  by (simp add: IpcWakeOne_def take_waiter_def Let_def split: prod.split)

definition producer_step :: "nat \<Rightarrow> rendezvous \<Rightarrow> rendezvous option" where
  "producer_step i r =
     (case producer r of
        Calling n \<Rightarrow>
          if n < IPC_TEST_MESSAGES then
            (let r = r\<lparr>pmessage := (pmessage r)\<lparr>Length := 1, Data := (Data (pmessage r))[0 := of_nat n]\<rparr>\<rparr> in
             if \<not> IpcPortIsCreated (Some (TestPort r)) \<or> Length (pmessage r) > of_nat IpcMessageWords
             then Some (producer_fails r) else Some (r\<lparr>producer := Trying n\<rparr>))
          else Some (r\<lparr>ProducerDone := 1, producer := Finished\<rparr>)
      | Trying n \<Rightarrow>
          if \<not> IpcPortIsCreated (Some (TestPort r)) \<or> Length (pmessage r) > of_nat IpcMessageWords
          then Some (producer_fails r)
          else
            (let (was_enabled, s) = SchedLockIrq (rsch r) in
             if PCount (TestPort r) = of_nat IpcPortCapacity
             then Some (r\<lparr>rsch := SchedUnlockIrq was_enabled s, producer := Parking n\<rparr>)
             else Some (r\<lparr>TestPort := PortPush (IpcSelfId s) (pmessage r) (TestPort r),
                          rsch := SchedUnlockIrq was_enabled s, producer := Waking n\<rparr>))
      | Waking n \<Rightarrow>
          (let (ident, w, s) = take_waiter (Receivers (TestPort r)) (rsch r)
           in Some (r\<lparr>TestPort := put_receivers w (TestPort r), rsch := s,
                      producer := if ident \<noteq> 0 then Rousing n ident else Calling (Suc n)\<rparr>))
      | Rousing n ident \<Rightarrow>
          do { s \<leftarrow> SchedWakeTask ident (rsch r); Some (r\<lparr>rsch := s, producer := Calling (Suc n)\<rparr>) }
      | Parking n \<Rightarrow>
          do { (out, p, s) \<leftarrow> IpcPark Senders put_senders PortHasRoom (TestPort r) (rsch r);
               let r = r\<lparr>TestPort := p, rsch := s\<rparr>;
               Some (case out of
                       Suspended e \<Rightarrow> r\<lparr>producer := Parked n e\<rparr>
                     | Done status \<Rightarrow> if status \<noteq> IpcOk then producer_fails r else r\<lparr>producer := Trying n\<rparr>) }
      | Parked n e \<Rightarrow>
          do { s \<leftarrow> SchedBlockTask_resume i (SchedYield_resume False (rsch r));
               let (p, s) = IpcPark_woken Senders put_senders (TaskId (task (rsch r) i)) e (TestPort r) s;
               Some (r\<lparr>TestPort := p, rsch := s, producer := Parking n\<rparr>) }
      | Finished \<Rightarrow> None)"

definition consumer_step :: "nat \<Rightarrow> rendezvous \<Rightarrow> rendezvous option" where
  "consumer_step j r =
     (case consumer r of
        Calling n \<Rightarrow>
          if n < IPC_TEST_MESSAGES then
            (if \<not> IpcPortIsCreated (Some (TestPort r)) then Some (consumer_fails r) else Some (r\<lparr>consumer := Trying n\<rparr>))
          else Some (r\<lparr>ConsumerDone := 1, consumer := Finished\<rparr>)
      | Trying n \<Rightarrow>
          if \<not> IpcPortIsCreated (Some (TestPort r)) then Some (consumer_fails r)
          else
            (let (was_enabled, s) = SchedLockIrq (rsch r) in
             if PCount (TestPort r) = 0
             then Some (r\<lparr>rsch := SchedUnlockIrq was_enabled s, consumer := Parking n\<rparr>)
             else (let (m, p) = PortPop (TestPort r)
                   in Some (r\<lparr>TestPort := p, cmessage := m, rsch := SchedUnlockIrq was_enabled s, consumer := Waking n\<rparr>)))
      | Waking n \<Rightarrow>
          (let (ident, w, s) = take_waiter (Senders (TestPort r)) (rsch r);
               r = r\<lparr>TestPort := put_senders w (TestPort r), rsch := s\<rparr>
           in Some (if ident \<noteq> 0 then r\<lparr>consumer := Rousing n ident\<rparr> else consumer_checks n r))
      | Rousing n ident \<Rightarrow>
          do { s \<leftarrow> SchedWakeTask ident (rsch r); Some (consumer_checks n (r\<lparr>rsch := s\<rparr>)) }
      | Parking n \<Rightarrow>
          do { (out, p, s) \<leftarrow> IpcPark Receivers put_receivers PortHasMessage (TestPort r) (rsch r);
               let r = r\<lparr>TestPort := p, rsch := s\<rparr>;
               Some (case out of
                       Suspended e \<Rightarrow> r\<lparr>consumer := Parked n e\<rparr>
                     | Done status \<Rightarrow> if status \<noteq> IpcOk then consumer_fails r else r\<lparr>consumer := Trying n\<rparr>) }
      | Parked n e \<Rightarrow>
          do { s \<leftarrow> SchedBlockTask_resume j (SchedYield_resume False (rsch r));
               let (p, s) = IpcPark_woken Receivers put_receivers (TaskId (task (rsch r) j)) e (TestPort r) s;
               Some (r\<lparr>TestPort := p, rsch := s, consumer := Parking n\<rparr>) }
      | Finished \<Rightarrow> None)"

subsection \<open>Setting up\<close>

text \<open>
  The first part of \<^verbatim>\<open>ipc_test_tasks\<close>: the port is created, then the two tasks. The result is the message of an error, or
  the slots of producer and consumer with the initial state. The tasks run first when this part is over; the
  local messages of the two tasks, \<open>pm\<close> and \<open>cm\<close>, hold arbitrary values.
\<close>

definition ipc_test_setup ::
  "u32 \<Rightarrow> u32 \<Rightarrow> u32 \<Rightarrow> u32 \<Rightarrow> u32 \<Rightarrow> IpcMessage \<Rightarrow> IpcMessage \<Rightarrow> IpcPort \<Rightarrow> sched \<Rightarrow> (u8 list + nat \<times> nat \<times> rendezvous) option" where
  "ipc_test_setup stub consumer_entry consumer_stack producer_entry producer_stack pm cm port s =
     (let (status, port, s) = IpcPortCreate (Some port) s in
      case port of
        None \<Rightarrow> Some (Inl (ascii ''ERROR: ipc port could not be created.'' @ [10]))
      | Some p \<Rightarrow>
          if status \<noteq> IpcOk then Some (Inl (ascii ''ERROR: ipc port could not be created.'' @ [10]))
          else
            do { (c, s) \<leftarrow> SchedCreate stub (Some (ascii ''Consumer'')) consumer_entry consumer_stack s;
                 (d, s) \<leftarrow> SchedCreate stub (Some (ascii ''Producer'')) producer_entry producer_stack s;
                 (case (c, d) of
                    (Some j, Some i) \<Rightarrow>
                      Some (Inr (i, j, \<lparr>rsch = s, TestPort = p, producer = Calling 0, pmessage = pm, consumer = Calling 0, cmessage = cm,
                        ConsumerDone = 0, ProducerDone = 0, ConsumerBad = 0, ProducerId = TaskId (task s i)\<rparr>))
                  | _ \<Rightarrow> Some (Inl (ascii ''ERROR: ipc test tasks could not be created.'' @ [10]))) })"

subsection \<open>The system\<close>

text \<open>What the timer interrupt and the other tasks do to the scheduler, at any time and in any order.\<close>

inductive sched_event :: "sched \<Rightarrow> sched \<Rightarrow> bool" where
  tick: "sched_event s (SchedTick b s)"
| expire: "SchedWakeExpired now s = Some (n, s') \<Longrightarrow> sched_event s s'"
| preempt: "SchedPreempt s = Some (s', sw) \<Longrightarrow> sched_event s s'"
| yield: "SchedYield s = Some (s', sw) \<Longrightarrow> sched_event s s'"

definition runs :: "nat \<Rightarrow> sched \<Rightarrow> bool" where
  "runs i s \<longleftrightarrow> CurrentTask s = Some i \<and> State (task s i) = TaskRunning"

inductive rendezvous_step :: "nat \<Rightarrow> nat \<Rightarrow> rendezvous \<Rightarrow> rendezvous \<Rightarrow> bool" for i j where
  produce: "runs i (rsch r) \<Longrightarrow> producer_step i r = Some r' \<Longrightarrow> rendezvous_step i j r r'"
| consume: "runs j (rsch r) \<Longrightarrow> consumer_step j r = Some r' \<Longrightarrow> rendezvous_step i j r r'"
| event: "sched_event (rsch r) s \<Longrightarrow> rendezvous_step i j r (r\<lparr>rsch := s\<rparr>)"

end
