(* ===== verification/Rendezvous_Inv.thy ===== *)
theory Rendezvous_Inv
  imports Rendezvous
begin

text \<open>
  The invariant of the port self test, and that every step of the tasks and every scheduler event keeps it.
\<close>

subsection \<open>What a scheduler operation does to the tasks\<close>

text \<open>No task ends, is renamed or is blocked, except that those in \<open>B\<close> may be blocked.\<close>

definition keeps :: "nat set \<Rightarrow> aspec \<Rightarrow> aspec \<Rightarrow> bool" where
  "keeps B a a' \<longleftrightarrow> ainv a' \<and> lck a' = lck a \<and>
     (\<forall>j < SchedMaxTasks. TaskId (tab a' ! j) = TaskId (tab a ! j) \<and> (State (tab a' ! j) = TaskDead \<longleftrightarrow> State (tab a ! j) = TaskDead) \<and>
        (State (tab a' ! j) = TaskBlocked \<longrightarrow> j \<in> B \<or> State (tab a ! j) = TaskBlocked))"

lemma keeps_refl: "ainv a \<Longrightarrow> keeps B a a"
  by (simp add: keeps_def)

lemma keeps_trans: "keeps B a b \<Longrightarrow> keeps B b c \<Longrightarrow> keeps B a c"
  by (auto simp: keeps_def)

lemma ayield_lck [simp]: "lck (fst (ayield a)) = lck a"
  by (auto simp: ayield_def aops split: option.split)

lemma keeps_yield:
  assumes "ainv a"
  shows "keeps {} a (fst (ayield a))"
proof (cases "snd (ayield a)")
  case False
  then show ?thesis using ayield_not_switched [of a] assms by (simp add: keeps_refl)
next
  case True
  then obtain n where n: "lck a = 0" "apick a = Some n" "cur a \<noteq> Some n" by (auto simp: ayield_def split: if_splits option.splits)
  have "State (tab a ! n) = TaskReady" using apick_member [OF n(2)] queues_okD(5) [OF ainvD(1) [OF assms], of n] by simp
  then show ?thesis
    using ayield_tab(2) [OF assms n] ayield_ainv [OF assms] by (auto simp: keeps_def)
qed

lemma keeps_tick: "ainv a \<Longrightarrow> keeps {} a (atick a)"
  using atick_ainv [of a] queues_okD(1) [OF ainvD(1), of a]
  by (auto simp: keeps_def atick_def Let_def split: option.split if_splits)

lemma keeps_expire:
  assumes "ainv a"
  shows "keeps {} a (awake_expired now a)"
proof -
  note q = queues_okD [OF ainvD(1) [OF assms]]
  have d: "distinct (filter (\<lambda>i. expired now (tab a ! i)) (bq a))" using q(3) by simp
  have "lck (fold awake_one xs b) = lck b" for xs b by (induction xs arbitrary: b) (simp_all add: aops)
  then have "lck (awake_expired now a) = lck a" by (simp add: awake_expired_def)
  with awake_expired_ainv [OF assms] fold_awake_fields(3) [OF d q(1)] show ?thesis
    by (auto simp: keeps_def awake_expired_def q(6))
qed

lemma keeps_preempt:
  assumes "ainv a"
  shows "keeps {} a (fst (apreempt a))"
  using keeps_yield [of "a\<lparr>pend := False\<rparr>"] assms by (auto simp: apreempt_def keeps_def)

lemma keeps_wake:
  assumes "ainv a"
  shows "keeps {} a (awake_task ident a)"
  using awake_task_ainv [OF assms] queues_okD(1) [OF ainvD(1) [OF assms]] afind_live [of ident a]
  by (auto simp: keeps_def awake_task_def aops split: option.splits)

lemma keeps_block:
  assumes "ainv a" and "cur a = Some i" and "i \<noteq> 0" and "State (tab a ! i) = TaskRunning"
  shows "keeps {i} a (fst (ayield (ablock i a)))"
proof -
  have lv: "live a i" using ainvD(2) [OF assms(1)] assms(2) by (simp add: current_ok_def)
  have inv: "ainv (ablock i a)" using ablock_ainv [OF assms(1) lv assms(3)] assms(4) by simp
  have "keeps {i} a (ablock i a)"
    using inv queues_okD(1) [OF ainvD(1) [OF assms(1)]] lv assms(4) by (auto simp: keeps_def aops live_def)
  moreover have "keeps {i} (ablock i a) (fst (ayield (ablock i a)))"
    using keeps_yield [OF inv] by (auto simp: keeps_def)
  ultimately show ?thesis by (rule keeps_trans)
qed

lemma sched_event_keeps:
  assumes "sched_event s s'" and "refines s a" and "ainv a"
  obtains a' where "refines s' a'" and "keeps {} a a'"
  using assms(1)
proof cases
  case (tick b)
  then show thesis
    using that [OF _ keeps_tick [OF assms(3)]] SchedTick_sim [OF assms(2,3)] that [OF _ keeps_refl [OF assms(3)]] assms(2)
    by (cases b) (auto simp: SchedTick_def)
next
  case (expire now n)
  then show thesis
    using SchedWakeExpired_sim [OF assms(2,3), of now] that [OF _ keeps_expire [OF assms(3)]] by (auto simp: returns_def)
next
  case (preempt sw)
  then show thesis
    using SchedPreempt_sim [OF assms(2,3)] that [OF _ keeps_preempt [OF assms(3)]] by (auto simp: returns_def)
next
  case (yield sw)
  then show thesis
    using SchedYield_sim [OF assms(2,3)] that [OF _ keeps_yield [OF assms(3)]] by (auto simp: returns_def)
qed

subsection \<open>The invariant\<close>

fun index :: "phase \<Rightarrow> nat" where
  "index (Calling n) = n" | "index (Trying n) = n" | "index (Waking n) = n" | "index (Rousing n x) = n"
| "index (Parking n) = n" | "index (Parked n e) = n" | "index Finished = IPC_TEST_MESSAGES"

fun wakes_peer :: "phase \<Rightarrow> bool" where
  "wakes_peer (Waking n) = True" | "wakes_peer (Rousing n x) = True" | "wakes_peer ph = False"

fun is_parked :: "phase \<Rightarrow> bool" where
  "is_parked (Parked n e) = True" | "is_parked ph = False"

fun in_call :: "phase \<Rightarrow> bool" where
  "in_call (Calling n) = False" | "in_call Finished = False" | "in_call ph = True"

text \<open>How many messages a task has put into or taken out of the port.\<close>

definition moved :: "phase \<Rightarrow> nat" where
  "moved ph = index ph + (if wakes_peer ph then 1 else 0)"

definition numbered :: "IpcMessage \<Rightarrow> nat \<Rightarrow> bool" where
  "numbered m n \<longleftrightarrow> Length m = 1 \<and> Data m \<noteq> [] \<and> Data m ! 0 = of_nat n"

definition carries :: "u32 \<Rightarrow> IpcMessage \<Rightarrow> nat \<Rightarrow> bool" where
  "carries ident m n \<longleftrightarrow> numbered m n \<and> Sender m = ident"

definition in_range :: "phase \<Rightarrow> bool" where
  "in_range ph \<longleftrightarrow> index ph \<le> IPC_TEST_MESSAGES \<and> (in_call ph \<longrightarrow> index ph < IPC_TEST_MESSAGES)"

lemma phase_simps [simp]:
  "moved (Calling n) = n" "moved (Trying n) = n" "moved (Waking n) = Suc n" "moved (Rousing n x) = Suc n"
  "moved (Parking n) = n" "moved (Parked n e) = n" "moved Finished = IPC_TEST_MESSAGES"
  "in_range (Calling n) \<longleftrightarrow> n \<le> IPC_TEST_MESSAGES" "in_range (Trying n) \<longleftrightarrow> n < IPC_TEST_MESSAGES"
  "in_range (Waking n) \<longleftrightarrow> n < IPC_TEST_MESSAGES" "in_range (Rousing n x) \<longleftrightarrow> n < IPC_TEST_MESSAGES"
  "in_range (Parking n) \<longleftrightarrow> n < IPC_TEST_MESSAGES" "in_range (Parked n e) \<longleftrightarrow> n < IPC_TEST_MESSAGES" "in_range Finished"
  by (auto simp: moved_def in_range_def)

definition mail_ok :: "rendezvous \<Rightarrow> bool" where
  "mail_ok r \<longleftrightarrow> port_ok (TestPort r) \<and> in_range (producer r) \<and> in_range (consumer r) \<and> moved (consumer r) \<le> moved (producer r) \<and>
     list_all2 (carries (ProducerId r)) (messages (TestPort r)) [moved (consumer r)..<moved (producer r)] \<and>
     Data (pmessage r) \<noteq> [] \<and> (in_call (producer r) \<longrightarrow> numbered (pmessage r) (index (producer r))) \<and>
     (wakes_peer (consumer r) \<longrightarrow> carries (ProducerId r) (cmessage r) (index (consumer r))) \<and> ConsumerBad r = 0 \<and>
     (producer r = Finished \<longrightarrow> ProducerDone r = 1) \<and> (consumer r = Finished \<longrightarrow> ConsumerDone r = 1)"

text \<open>
  A task with identifier \<open>ident\<close> in phase \<open>ph\<close>, with the waiters \<open>W\<close> of its wait queue: when it is blocked, then either
  it is on the queue and the port has nothing for it (or the peer is about to look at the queue), or the peer
  has taken it off the queue and is about to wake it.
\<close>

definition resting :: "u32 \<Rightarrow> u32 set \<Rightarrow> bool \<Rightarrow> phase \<Rightarrow> phase \<Rightarrow> bool \<Rightarrow> bool" where
  "resting ident W blocked ph peer idle \<longleftrightarrow> W \<subseteq> {ident} \<and> (W \<noteq> {} \<longrightarrow> is_parked ph) \<and>
     (blocked \<longrightarrow> is_parked ph \<and> (W \<noteq> {} \<and> (idle \<or> (\<exists>n. peer = Waking n)) \<or> (\<exists>n. peer = Rousing n ident)))"

definition pair_ok :: "nat \<Rightarrow> nat \<Rightarrow> rendezvous \<Rightarrow> aspec \<Rightarrow> bool" where
  "pair_ok i j r a \<longleftrightarrow> refines (rsch r) a \<and> ainv a \<and> lck a = 0 \<and> i \<noteq> 0 \<and> j \<noteq> 0 \<and> i \<noteq> j \<and> live a i \<and> live a j \<and> TaskId (tab a ! i) = ProducerId r"

definition rests_ok :: "nat \<Rightarrow> nat \<Rightarrow> rendezvous \<Rightarrow> aspec \<Rightarrow> bool" where
  "rests_ok i j r a \<longleftrightarrow>
     resting (TaskId (tab a ! i)) (waiters (Senders (TestPort r))) (State (tab a ! i) = TaskBlocked) (producer r) (consumer r)
       (length (messages (TestPort r)) = 16) \<and>
     resting (TaskId (tab a ! j)) (waiters (Receivers (TestPort r))) (State (tab a ! j) = TaskBlocked) (consumer r) (producer r)
       (messages (TestPort r) = [])"

definition rendezvous_inv :: "nat \<Rightarrow> nat \<Rightarrow> rendezvous \<Rightarrow> bool" where
  "rendezvous_inv i j r \<longleftrightarrow> mail_ok r \<and> (\<exists>a. pair_ok i j r a \<and> rests_ok i j r a)"

lemma rendezvous_invI: "mail_ok r \<Longrightarrow> pair_ok i j r a \<Longrightarrow> rests_ok i j r a \<Longrightarrow> rendezvous_inv i j r"
  by (auto simp: rendezvous_inv_def)

lemma pair_ok_keeps:
  assumes "pair_ok i j r a" and "keeps B a a'" and "refines (rsch r') a'" and "ProducerId r' = ProducerId r"
  shows "pair_ok i j r' a'"
  using assms by (auto simp: pair_ok_def keeps_def live_def)

lemma event_inv:
  assumes "sched_event (rsch r) s" and "rendezvous_inv i j r"
  shows "rendezvous_inv i j (r\<lparr>rsch := s\<rparr>)"
proof -
  obtain a where a: "mail_ok r" "pair_ok i j r a" "rests_ok i j r a" using assms(2) by (auto simp: rendezvous_inv_def)
  then obtain a' where a': "refines s a'" "keeps {} a a'"
    using sched_event_keeps [OF assms(1)] by (auto simp: pair_ok_def)
  have "mail_ok (r\<lparr>rsch := s\<rparr>)" using a(1) by (simp add: mail_ok_def)
  moreover have "pair_ok i j (r\<lparr>rsch := s\<rparr>) a'" using pair_ok_keeps [OF a(2) a'(2), of "r\<lparr>rsch := s\<rparr>"] a'(1) by simp
  moreover have "rests_ok i j (r\<lparr>rsch := s\<rparr>) a'"
    using a(2,3) a'(2) by (auto simp: rests_ok_def resting_def pair_ok_def keeps_def live_def)
  ultimately show ?thesis by (rule rendezvous_invI)
qed

subsection \<open>The sections\<close>

lemma take_waiter_law:
  assumes "refines s a" and "ainv a" and "wait_ok w" and "waiters w \<subseteq> {TaskId (tab a ! i)}" and "live a i" and "i \<noteq> 0"
  obtains w' where "take_waiter w s = (if waiters w = {} then 0 else TaskId (tab a ! i), w', s)" and "wait_ok w'" and "waiters w' = {}"
proof -
  obtain e s1 where lk: "SchedLockIrq s = (e, s1)" by fastforce
  have r1: "refines s1 a" using assms(1) refines_lock_irq [of s a] lk by simp
  have ti: "TaskId (tab a ! i) \<noteq> 0" using zero_id_idle [OF ainvD(3) [OF assms(2)] assms(5)] assms(6) by simp
  have lv: "IpcWaitIsLive s1 (TaskId (tab a ! i))" using live_sim [OF r1 assms(2)] ti assms(5) by auto
  show thesis
  proof (cases rule: IpcWaitTakeLive_cases [OF assms(3), of s1])
    case (1 x w')
    then have "x = TaskId (tab a ! i)" "waiters w \<noteq> {}" "waiters w' = {}" using assms(4) by auto
    with 1 show thesis using that [of w'] lk irq_roundtripD [OF lk] by (simp add: take_waiter_def)
  next
    case (2 w')
    then have "TaskId (tab a ! i) \<notin> waiters w" using lv by auto
    then have "waiters w = {}" using assms(4) by (auto simp only: subset_singleton_iff)
    with 2 show thesis using that [of w'] lk irq_roundtripD [OF lk] by (auto simp: take_waiter_def)
  qed
qed

lemma rouse_law:
  assumes "refines s a" and "ainv a" and "live a i"
  obtains s' where "SchedWakeTask (TaskId (tab a ! i)) s = Some s'" and "refines s' (awake_task (TaskId (tab a ! i)) a)"
    and "keeps {} a (awake_task (TaskId (tab a ! i)) a)" and "State (tab (awake_task (TaskId (tab a ! i)) a) ! i) \<noteq> TaskBlocked"
proof -
  let ?b = "awake_task (TaskId (tab a ! i)) a"
  obtain s' where s': "SchedWakeTask (TaskId (tab a ! i)) s = Some s'" "refines s' ?b"
    using SchedWakeTask_sim [OF assms(1,2), of "TaskId (tab a ! i)"] by (auto simp: returns_def)
  have "State (tab ?b ! i) \<noteq> TaskBlocked"
    using afind_unique [OF assms(2,3)] queues_okD(1) [OF ainvD(1) [OF assms(2)]] assms(3)
    by (auto simp: awake_task_def aops live_def)
  with s' keeps_wake [OF assms(2)] show thesis by (intro that)
qed

context waitable
begin

lemma park_section:
  assumes "refines s a" and "ainv a" and "lck a = 0" and "cur a = Some i" and "i \<noteq> 0" and "State (tab a ! i) = TaskRunning"
    and "wait_ok (get ob)" and "waiters (get ob) \<subseteq> {TaskId (tab a ! i)}"
  obtains (ready) "ready ob" "IpcPark get put ready ob s = Some (Done IpcOk, ob, s)"
  | (sleep) e w s' b where "\<not> ready ob" "IpcPark get put ready ob s = Some (Suspended e, put w ob, s')" "wait_ok w"
      "waiters w = {TaskId (tab a ! i)}" "refines s' b" "keeps {i} a b"
proof -
  have lv: "live a i" using ainvD(2) [OF assms(2)] assms(4) by (simp add: current_ok_def)
  have self: "IpcSelfId s = TaskId (tab a ! i)" "TaskId (tab a ! i) \<noteq> 0"
    using IpcSelfId_sim [OF assms(1,2,4)] zero_id_idle [OF ainvD(3) [OF assms(2)] lv] assms(5) by simp_all
  show thesis
  proof (cases "ready ob")
    case True
    with park_ready [of s ob] self show thesis by (intro ready) simp_all
  next
    case False
    have "card (waiters (get ob)) \<le> card {TaskId (tab a ! i)}" using assms(8) by (intro card_mono) simp_all
    then have "unat (WCount (get ob)) < 16" using wait_okD(3,5) [OF assms(7)] by (simp add: distinct_card)
    from loop_sleeps [OF assms(1-6) False assms(7) this] obtain w s' where
      "IpcPark_loop get put ready (TaskId (tab a ! i)) ob s = Some (Suspended (fst (SchedLockIrq s)), put w ob, s')"
      "wait_ok w" "waiters w = insert (TaskId (tab a ! i)) (waiters (get ob))" "refines s' (fst (ayield (ablock i a)))" by blast
    with False self assms(8) keeps_block [OF assms(2,4,5,6)] show thesis
      by (intro sleep [of "fst (SchedLockIrq s)" w s']) (auto simp: IpcPark_def)
  qed
qed

lemma woken_section:
  assumes "refines s a" and "State (task s i) = TaskRunning" and "wait_ok (get ob)" and "waiters (get ob) \<subseteq> {self}"
  obtains w s' where "SchedBlockTask_resume i (SchedYield_resume False s) = Some s" and "IpcPark_woken get put self e ob s = (put w ob, s')"
    and "wait_ok w" and "waiters w = {}" and "refines s' a"
proof -
  have "SchedBlockTask_resume i (SchedYield_resume False s) = Some s"
    using SchedBlockTask_resume_running [of s i] assms(2) by (simp add: SchedYield_resume_def SchedUnlockIrq_def)
  moreover have "refines (SchedUnlockIrq e (snd (SchedLockIrq s))) a" using assms(1) by (simp add: irq_simps)
  ultimately show thesis
    using that [of "IpcWaitRemove self (get ob)"] IpcWaitRemove_law [OF assms(3), of self] assms(4) by (auto simp: IpcPark_woken_def)
qed

end

subsection \<open>Every step of the producer\<close>

text \<open>The facts of the invariant when the producer runs.\<close>

lemma runs_sim:
  assumes "runs i s" and "refines s a" and "ainv a"
  shows "cur a = Some i" and "State (tab a ! i) = TaskRunning"
proof -
  show c: "cur a = Some i" using assms(1) refinesD(2) [OF assms(2)] by (simp add: runs_def)
  then have "i < SchedMaxTasks" using ainvD(2) [OF assms(3)] by (auto simp: current_ok_def live_def)
  then show "State (tab a ! i) = TaskRunning"
    using assms(1) refines_nth [OF assms(2), of i] refines_current(1) [OF assms(2,3)] by (simp add: runs_def)
qed

lemma rendezvous_invE:
  assumes "rendezvous_inv i j r"
  obtains a where "mail_ok r" and "pair_ok i j r a" and "rests_ok i j r a" and "refines (rsch r) a" and "ainv a" and "lck a = 0"
    and "live a i" and "live a j" and "i \<noteq> 0" and "j \<noteq> 0" and "TaskId (tab a ! i) = ProducerId r" and "port_ok (TestPort r)"
  using assms by (auto simp: rendezvous_inv_def pair_ok_def mail_ok_def)

lemma producer_moves:
  assumes "mail_ok r'" and "pair_ok i j r a" and "rests_ok i j r a" and "State (tab a ! i) = TaskRunning"
    and "rsch r' = rsch r" and "TestPort r' = TestPort r" and "consumer r' = consumer r" and "ProducerId r' = ProducerId r"
    and "\<not> is_parked (producer r)" and "\<not> wakes_peer (producer r)"
  shows "rendezvous_inv i j r'"
proof (rule rendezvous_invI [OF assms(1)])
  show "pair_ok i j r' a" using assms(2,5,8) by (simp add: pair_ok_def)
  show "rests_ok i j r' a" using assms(3,4,6,7,9,10) by (auto simp: rests_ok_def resting_def)
qed

lemma producer_calls:
  assumes "rendezvous_inv i j r" and "producer r = Calling n" and "runs i (rsch r)"
  shows "returns (producer_step i r) (rendezvous_inv i j)"
proof (rule rendezvous_invE [OF assms(1)])
  fix a
  assume a: "mail_ok r" "pair_ok i j r a" "rests_ok i j r a" "refines (rsch r) a" "ainv a"
  note mv = producer_moves [OF _ a(2,3) runs_sim(2) [OF assms(3) a(4,5)]]
  show ?thesis
  proof (cases "n < IPC_TEST_MESSAGES")
    case True
    define r' where "r' = r\<lparr>pmessage := (pmessage r)\<lparr>Length := 1, Data := (Data (pmessage r))[0 := of_nat n]\<rparr>, producer := Trying n\<rparr>"
    have "producer_step i r = Some r'"
      using True assms(2) a(1) by (simp add: producer_step_def r'_def mail_ok_def port_ok_def IpcPortIsCreated_def IpcMessageWords_def)
    moreover have "mail_ok r'" using a(1) assms(2) True by (simp add: mail_ok_def r'_def numbered_def)
    ultimately show ?thesis using mv [of r'] assms(2) by (simp add: r'_def)
  next
    case False
    define r' where "r' = r\<lparr>ProducerDone := 1, producer := Finished\<rparr>"
    have "producer_step i r = Some r'" using False assms(2) by (simp add: producer_step_def r'_def)
    moreover have "mail_ok r'" using a(1) assms(2) False by (auto simp: mail_ok_def r'_def)
    ultimately show ?thesis using mv [of r'] assms(2) by (simp add: r'_def)
  qed
qed

lemma producer_tries:
  assumes "rendezvous_inv i j r" and "producer r = Trying n" and "runs i (rsch r)"
  shows "returns (producer_step i r) (rendezvous_inv i j)"
proof (rule rendezvous_invE [OF assms(1)])
  fix a
  assume a: "mail_ok r" "pair_ok i j r a" "rests_ok i j r a" "refines (rsch r) a" "ainv a" "port_ok (TestPort r)"
    and id: "TaskId (tab a ! i) = ProducerId r"
  note run = runs_sim [OF assms(3) a(4,5)]
  obtain e s1 where lk: "SchedLockIrq (rsch r) = (e, s1)" by fastforce
  have self: "IpcSelfId s1 = ProducerId r" using lock_irq_self [OF lk] IpcSelfId_sim [OF a(4,5) run(1)] id by simp
  have num: "numbered (pmessage r) n" using a(1) assms(2) by (simp add: mail_ok_def)
  have step: "producer_step i r = (if PCount (TestPort r) = 16 then Some (r\<lparr>producer := Parking n\<rparr>)
      else Some (r\<lparr>TestPort := PortPush (ProducerId r) (pmessage r) (TestPort r), producer := Waking n\<rparr>))"
    using assms(2) a(6) num self irq_roundtripD [OF lk]
    by (simp add: producer_step_def lk port_ok_def IpcPortIsCreated_def IpcMessageWords_def numbered_def IpcPortCapacity_def)
  show ?thesis
  proof (cases "PCount (TestPort r) = 16")
    case True
    have "mail_ok (r\<lparr>producer := Parking n\<rparr>)" using a(1) assms(2) by (simp add: mail_ok_def)
    then show ?thesis using True step producer_moves [OF _ a(2,3) run(2)] assms(2) by simp
  next
    case False
    let ?p = "PortPush (ProducerId r) (pmessage r) (TestPort r)"
    have "unat (PCount (TestPort r)) \<noteq> unat (16 :: u32)" using False word_unat_eq_iff by blast
    then have "length (messages (TestPort r)) < IpcPortCapacity" using port_okD(4,7) [OF a(6)] by (simp add: IpcPortCapacity_def)
    note push = PortPush_law [OF a(6) this, of "ProducerId r" "pmessage r"]
    have q: "Senders ?p = Senders (TestPort r)" "Receivers ?p = Receivers (TestPort r)" by (simp_all add: PortPush_def Let_def)
    define r' where "r' = r\<lparr>TestPort := ?p, producer := Waking n\<rparr>"
    have "carries (ProducerId r) ((pmessage r)\<lparr>Sender := ProducerId r\<rparr>) n" using num by (simp add: carries_def numbered_def)
    then have m: "mail_ok r'" using a(1) assms(2) push by (simp add: mail_ok_def r'_def list_all2_appendI)
    have "rests_ok i j r' a" using a(3) assms(2) run(2) q by (auto simp: rests_ok_def resting_def r'_def)
    then have "rendezvous_inv i j r'" using rendezvous_invI [OF m, of i j a] a(2) by (simp add: pair_ok_def r'_def)
    then show ?thesis using step False by (simp add: r'_def)
  qed
qed

lemma port_put [simp]:
  "messages (p\<lparr>Senders := w\<rparr>) = messages p" "messages (p\<lparr>Receivers := w\<rparr>) = messages p"
  "port_ok p \<Longrightarrow> wait_ok w \<Longrightarrow> port_ok (p\<lparr>Senders := w\<rparr>)" "port_ok p \<Longrightarrow> wait_ok w \<Longrightarrow> port_ok (p\<lparr>Receivers := w\<rparr>)"
  by (simp_all add: messages_def port_ok_def)

lemma producer_wakes:
  assumes "rendezvous_inv i j r" and "producer r = Waking n" and "runs i (rsch r)"
  shows "returns (producer_step i r) (rendezvous_inv i j)"
proof (rule rendezvous_invE [OF assms(1)])
  fix a
  assume a: "mail_ok r" "pair_ok i j r a" "rests_ok i j r a" "refines (rsch r) a" "ainv a" "port_ok (TestPort r)" "live a j" "j \<noteq> 0"
  note run = runs_sim [OF assms(3) a(4,5)]
  let ?W = "waiters (Receivers (TestPort r))" and ?id = "TaskId (tab a ! j)"
  have sub: "?W \<subseteq> {?id}" using a(3) by (simp add: rests_ok_def resting_def)
  obtain w where w: "take_waiter (Receivers (TestPort r)) (rsch r) = (if ?W = {} then 0 else ?id, w, rsch r)" "wait_ok w" "waiters w = {}"
    by (rule take_waiter_law [OF a(4,5) port_okD(6) [OF a(6)] sub a(7,8)])
  have idn: "?id \<noteq> 0" using zero_id_idle [OF ainvD(3) [OF a(5)] a(7)] a(8) by simp
  define r' where "r' = r\<lparr>TestPort := put_receivers w (TestPort r), producer := (if ?W = {} then Calling (Suc n) else Rousing n ?id)\<rparr>"
  have "producer_step i r = Some r'" using assms(2) w(1) idn by (auto simp: producer_step_def r'_def)
  moreover have "mail_ok r'" using a(1,6) assms(2) w(2) by (auto simp: mail_ok_def r'_def)
  moreover have "pair_ok i j r' a" using a(2) by (simp add: pair_ok_def r'_def)
  moreover have "rests_ok i j r' a" using a(3) assms(2) run(2) w(3) by (auto simp: rests_ok_def resting_def r'_def)
  ultimately show ?thesis by (simp add: rendezvous_invI)
qed

lemma producer_rouses:
  assumes "rendezvous_inv i j r" and "producer r = Rousing n x" and "runs i (rsch r)"
  shows "returns (producer_step i r) (rendezvous_inv i j)"
proof (rule rendezvous_invE [OF assms(1)])
  fix a
  assume a: "mail_ok r" "pair_ok i j r a" "rests_ok i j r a" "refines (rsch r) a" "ainv a" "live a j" "live a i"
  note run = runs_sim [OF assms(3) a(4,5)]
  obtain s' where s': "SchedWakeTask x (rsch r) = Some s'" "refines s' (awake_task x a)"
    using SchedWakeTask_sim [OF a(4,5), of x] by (auto simp: returns_def)
  have k: "keeps {} a (awake_task x a)" by (rule keeps_wake [OF a(5)])
  have up: "State (tab (awake_task x a) ! j) \<noteq> TaskBlocked" if "x = TaskId (tab a ! j)"
    unfolding that by (rule rouse_law [OF a(4,5,6)])
  define r' where "r' = r\<lparr>rsch := s', producer := Calling (Suc n)\<rparr>"
  have "producer_step i r = Some r'" using assms(2) s'(1) by (simp add: producer_step_def r'_def)
  moreover have "mail_ok r'" using a(1) assms(2) by (auto simp: mail_ok_def r'_def)
  moreover have "pair_ok i j r' (awake_task x a)" using pair_ok_keeps [OF a(2) k, of r'] s'(2) by (simp add: r'_def)
  moreover have "rests_ok i j r' (awake_task x a)"
    using a(3,6,7) assms(2) run(2) k up by (auto simp: rests_ok_def resting_def r'_def keeps_def live_def)
  ultimately show ?thesis by (simp add: rendezvous_invI)
qed

lemma producer_parks:
  assumes "rendezvous_inv i j r" and "producer r = Parking n" and "runs i (rsch r)"
  shows "returns (producer_step i r) (rendezvous_inv i j)"
proof (rule rendezvous_invE [OF assms(1)])
  fix a
  assume a: "mail_ok r" "pair_ok i j r a" "rests_ok i j r a" "refines (rsch r) a" "ainv a" "port_ok (TestPort r)" "lck a = 0" "i \<noteq> 0" "live a i" "live a j"
  note run = runs_sim [OF assms(3) a(4,5)]
  have W: "waiters (Senders (TestPort r)) \<subseteq> {TaskId (tab a ! i)}" using a(3) by (simp add: rests_ok_def resting_def)
  show ?thesis
  proof (cases rule: port_senders.park_section [OF a(4,5,7) run(1) a(8) run(2) port_okD(5) [OF a(6)] W])
    case 1
    have "mail_ok (r\<lparr>producer := Trying n\<rparr>)" using a(1) assms(2) by (simp add: mail_ok_def)
    then show ?thesis using 1 assms(2) producer_moves [OF _ a(2,3) run(2)] by (simp add: producer_step_def)
  next
    case (2 e w s' b)
    define r' where "r' = r\<lparr>TestPort := put_senders w (TestPort r), rsch := s', producer := Parked n e\<rparr>"
    have full: "length (messages (TestPort r)) = 16"
      using 2(1) port_okD(4,7) [OF a(6)] by (simp add: PortHasRoom_def IpcPortCapacity_def word_less_nat_alt)
    have "producer_step i r = Some r'" using assms(2) 2(2) by (simp add: producer_step_def r'_def)
    moreover have "mail_ok r'" using a(1,6) assms(2) 2(3) by (simp add: mail_ok_def r'_def)
    moreover have "pair_ok i j r' b" using pair_ok_keeps [OF a(2) 2(6), of r'] 2(5) by (simp add: r'_def)
    moreover have "rests_ok i j r' b"
      using a(2,3,9,10) assms(2) 2(4,6) full by (auto simp: rests_ok_def resting_def r'_def keeps_def live_def pair_ok_def)
    ultimately show ?thesis by (simp add: rendezvous_invI)
  qed
qed

lemma producer_resumes:
  assumes "rendezvous_inv i j r" and "producer r = Parked n e" and "runs i (rsch r)"
  shows "returns (producer_step i r) (rendezvous_inv i j)"
proof (rule rendezvous_invE [OF assms(1)])
  fix a
  assume a: "mail_ok r" "pair_ok i j r a" "rests_ok i j r a" "refines (rsch r) a" "ainv a" "port_ok (TestPort r)" "live a i"
  note run = runs_sim [OF assms(3) a(4,5)]
  let ?self = "TaskId (task (rsch r) i)"
  have self: "?self = TaskId (tab a ! i)"
    using refines_nth [OF a(4), of i] refines_current(1) [OF a(4,5)] a(7) by (simp add: live_def)
  have W: "waiters (Senders (TestPort r)) \<subseteq> {?self}" using a(3) self by (simp add: rests_ok_def resting_def)
  have st: "State (task (rsch r) i) = TaskRunning" using assms(3) by (simp add: runs_def)
  obtain w s' where w: "SchedBlockTask_resume i (SchedYield_resume False (rsch r)) = Some (rsch r)"
    "IpcPark_woken Senders put_senders ?self e (TestPort r) (rsch r) = (put_senders w (TestPort r), s')" "wait_ok w" "waiters w = {}" "refines s' a"
    by (rule port_senders.woken_section [OF a(4) st port_okD(5) [OF a(6)] W])
  define r' where "r' = r\<lparr>TestPort := put_senders w (TestPort r), rsch := s', producer := Parking n\<rparr>"
  have "producer_step i r = Some r'" using assms(2) w(1,2) by (simp add: producer_step_def r'_def)
  moreover have "mail_ok r'" using a(1,6) assms(2) w(3) by (simp add: mail_ok_def r'_def)
  moreover have "pair_ok i j r' a" using a(2) w(5) by (simp add: pair_ok_def r'_def)
  moreover have "rests_ok i j r' a" using a(3) assms(2) run(2) w(4) by (auto simp: rests_ok_def resting_def r'_def)
  ultimately show ?thesis by (simp add: rendezvous_invI)
qed

lemma producer_inv:
  assumes "rendezvous_inv i j r" and "runs i (rsch r)" and "producer r \<noteq> Finished"
  shows "returns (producer_step i r) (rendezvous_inv i j)"
proof (cases "producer r")
  case (Calling n)
  then show ?thesis using producer_calls [OF assms(1) _ assms(2)] by blast
next
  case (Trying n)
  then show ?thesis using producer_tries [OF assms(1) _ assms(2)] by blast
next
  case (Waking n)
  then show ?thesis using producer_wakes [OF assms(1) _ assms(2)] by blast
next
  case (Rousing n x)
  then show ?thesis using producer_rouses [OF assms(1) _ assms(2)] by blast
next
  case (Parking n)
  then show ?thesis using producer_parks [OF assms(1) _ assms(2)] by blast
next
  case (Parked n e)
  then show ?thesis using producer_resumes [OF assms(1) _ assms(2)] by blast
qed (use assms(3) in simp)

subsection \<open>Every step of the consumer\<close>

lemma consumer_moves:
  assumes "mail_ok r'" and "pair_ok i j r a" and "rests_ok i j r a" and "State (tab a ! j) = TaskRunning"
    and "rsch r' = rsch r" and "TestPort r' = TestPort r" and "producer r' = producer r" and "ProducerId r' = ProducerId r"
    and "\<not> is_parked (consumer r)" and "\<not> wakes_peer (consumer r)"
  shows "rendezvous_inv i j r'"
proof (rule rendezvous_invI [OF assms(1)])
  show "pair_ok i j r' a" using assms(2,5,8) by (simp add: pair_ok_def)
  show "rests_ok i j r' a" using assms(3,4,6,7,9,10) by (auto simp: rests_ok_def resting_def)
qed

text \<open>A message that carries the right number and sender passes the check.\<close>

lemma consumer_checks_ok:
  "carries (ProducerId r) (cmessage r) n \<Longrightarrow> consumer_checks n r = r\<lparr>consumer := Calling (Suc n)\<rparr>"
  by (simp add: consumer_checks_def carries_def numbered_def)

lemma consumer_calls:
  assumes "rendezvous_inv i j r" and "consumer r = Calling n" and "runs j (rsch r)"
  shows "returns (consumer_step j r) (rendezvous_inv i j)"
proof (rule rendezvous_invE [OF assms(1)])
  fix a
  assume a: "mail_ok r" "pair_ok i j r a" "rests_ok i j r a" "refines (rsch r) a" "ainv a"
  note mv = consumer_moves [OF _ a(2,3) runs_sim(2) [OF assms(3) a(4,5)]]
  show ?thesis
  proof (cases "n < IPC_TEST_MESSAGES")
    case True
    have "consumer_step j r = Some (r\<lparr>consumer := Trying n\<rparr>)"
      using True assms(2) a(1) by (simp add: consumer_step_def mail_ok_def port_ok_def IpcPortIsCreated_def)
    moreover have "mail_ok (r\<lparr>consumer := Trying n\<rparr>)" using a(1) assms(2) True by (simp add: mail_ok_def)
    ultimately show ?thesis using mv assms(2) by simp
  next
    case False
    define r' where "r' = r\<lparr>ConsumerDone := 1, consumer := Finished\<rparr>"
    have "consumer_step j r = Some r'" using False assms(2) by (simp add: consumer_step_def r'_def)
    moreover have "mail_ok r'" using a(1) assms(2) False by (auto simp: mail_ok_def r'_def)
    ultimately show ?thesis using mv [of r'] assms(2) by (simp add: r'_def)
  qed
qed

lemma consumer_tries:
  assumes "rendezvous_inv i j r" and "consumer r = Trying n" and "runs j (rsch r)"
  shows "returns (consumer_step j r) (rendezvous_inv i j)"
proof (rule rendezvous_invE [OF assms(1)])
  fix a
  assume a: "mail_ok r" "pair_ok i j r a" "rests_ok i j r a" "refines (rsch r) a" "ainv a" "port_ok (TestPort r)"
  note run = runs_sim [OF assms(3) a(4,5)]
  obtain e s1 where lk: "SchedLockIrq (rsch r) = (e, s1)" by fastforce
  have step: "consumer_step j r = (if PCount (TestPort r) = 0 then Some (r\<lparr>consumer := Parking n\<rparr>)
      else Some (r\<lparr>TestPort := snd (PortPop (TestPort r)), cmessage := fst (PortPop (TestPort r)), consumer := Waking n\<rparr>))"
    using assms(2) a(6) irq_roundtripD [OF lk]
    by (simp add: consumer_step_def lk port_ok_def IpcPortIsCreated_def split: prod.split)
  show ?thesis
  proof (cases "PCount (TestPort r) = 0")
    case True
    have "mail_ok (r\<lparr>consumer := Parking n\<rparr>)" using a(1) assms(2) by (simp add: mail_ok_def)
    then show ?thesis using True step consumer_moves [OF _ a(2,3) run(2)] assms(2) by simp
  next
    case False
    then obtain m ms where ms: "messages (TestPort r) = m # ms" using port_okD(7) [OF a(6)] by (cases "messages (TestPort r)") (auto simp: unat_eq_0)
    note pop = PortPop_law [OF a(6) ms]
    let ?p = "snd (PortPop (TestPort r))"
    have q: "Senders ?p = Senders (TestPort r)" "Receivers ?p = Receivers (TestPort r)" by (simp_all add: PortPop_def)
    define r' where "r' = r\<lparr>TestPort := ?p, cmessage := m, consumer := Waking n\<rparr>"
    have l: "list_all2 (carries (ProducerId r)) (m # ms) [n..<moved (producer r)]" using a(1) assms(2) ms by (simp add: mail_ok_def)
    then have lt: "n < moved (producer r)" using list_all2_lengthD by fastforce
    then have "carries (ProducerId r) m n" "list_all2 (carries (ProducerId r)) ms [Suc n..<moved (producer r)]"
      using l by (simp_all add: upt_conv_Cons)
    then have m: "mail_ok r'" using a(1) assms(2) pop lt by (simp add: mail_ok_def r'_def)
    have "rests_ok i j r' a" using a(3) assms(2) run(2) q by (auto simp: rests_ok_def resting_def r'_def)
    then have "rendezvous_inv i j r'" using rendezvous_invI [OF m, of i j a] a(2) by (simp add: pair_ok_def r'_def)
    then show ?thesis using step False pop by (simp add: r'_def)
  qed
qed

lemma consumer_wakes:
  assumes "rendezvous_inv i j r" and "consumer r = Waking n" and "runs j (rsch r)"
  shows "returns (consumer_step j r) (rendezvous_inv i j)"
proof (rule rendezvous_invE [OF assms(1)])
  fix a
  assume a: "mail_ok r" "pair_ok i j r a" "rests_ok i j r a" "refines (rsch r) a" "ainv a" "port_ok (TestPort r)" "live a i" "i \<noteq> 0"
  note run = runs_sim [OF assms(3) a(4,5)]
  let ?W = "waiters (Senders (TestPort r))" and ?id = "TaskId (tab a ! i)"
  have sub: "?W \<subseteq> {?id}" using a(3) by (simp add: rests_ok_def resting_def)
  obtain w where w: "take_waiter (Senders (TestPort r)) (rsch r) = (if ?W = {} then 0 else ?id, w, rsch r)" "wait_ok w" "waiters w = {}"
    by (rule take_waiter_law [OF a(4,5) port_okD(5) [OF a(6)] sub a(7,8)])
  have idn: "?id \<noteq> 0" using zero_id_idle [OF ainvD(3) [OF a(5)] a(7)] a(8) by simp
  have c: "carries (ProducerId r) (cmessage r) n" using a(1) assms(2) by (simp add: mail_ok_def)
  define r' where "r' = r\<lparr>TestPort := put_senders w (TestPort r), consumer := (if ?W = {} then Calling (Suc n) else Rousing n ?id)\<rparr>"
  have "consumer_step j r = Some r'" using assms(2) w(1) idn c by (auto simp: consumer_step_def r'_def consumer_checks_ok)
  moreover have "mail_ok r'" using a(1,6) assms(2) w(2) by (auto simp: mail_ok_def r'_def)
  moreover have "pair_ok i j r' a" using a(2) by (simp add: pair_ok_def r'_def)
  moreover have "rests_ok i j r' a" using a(3) assms(2) run(2) w(3) by (auto simp: rests_ok_def resting_def r'_def)
  ultimately show ?thesis by (simp add: rendezvous_invI)
qed

lemma consumer_rouses:
  assumes "rendezvous_inv i j r" and "consumer r = Rousing n x" and "runs j (rsch r)"
  shows "returns (consumer_step j r) (rendezvous_inv i j)"
proof (rule rendezvous_invE [OF assms(1)])
  fix a
  assume a: "mail_ok r" "pair_ok i j r a" "rests_ok i j r a" "refines (rsch r) a" "ainv a" "live a i" "live a j"
  note run = runs_sim [OF assms(3) a(4,5)]
  obtain s' where s': "SchedWakeTask x (rsch r) = Some s'" "refines s' (awake_task x a)"
    using SchedWakeTask_sim [OF a(4,5), of x] by (auto simp: returns_def)
  have k: "keeps {} a (awake_task x a)" by (rule keeps_wake [OF a(5)])
  have up: "State (tab (awake_task x a) ! i) \<noteq> TaskBlocked" if "x = TaskId (tab a ! i)"
    unfolding that by (rule rouse_law [OF a(4,5,6)])
  have c: "carries (ProducerId r) (cmessage r) n" using a(1) assms(2) by (simp add: mail_ok_def)
  define r' where "r' = r\<lparr>rsch := s', consumer := Calling (Suc n)\<rparr>"
  have "consumer_step j r = Some r'" using assms(2) s'(1) c by (simp add: consumer_step_def r'_def consumer_checks_ok)
  moreover have "mail_ok r'" using a(1) assms(2) by (auto simp: mail_ok_def r'_def)
  moreover have "pair_ok i j r' (awake_task x a)" using pair_ok_keeps [OF a(2) k, of r'] s'(2) by (simp add: r'_def)
  moreover have "rests_ok i j r' (awake_task x a)"
    using a(3,6,7) assms(2) run(2) k up by (auto simp: rests_ok_def resting_def r'_def keeps_def live_def)
  ultimately show ?thesis by (simp add: rendezvous_invI)
qed

lemma consumer_parks:
  assumes "rendezvous_inv i j r" and "consumer r = Parking n" and "runs j (rsch r)"
  shows "returns (consumer_step j r) (rendezvous_inv i j)"
proof (rule rendezvous_invE [OF assms(1)])
  fix a
  assume a: "mail_ok r" "pair_ok i j r a" "rests_ok i j r a" "refines (rsch r) a" "ainv a" "port_ok (TestPort r)" "lck a = 0" "j \<noteq> 0" "live a i" "live a j"
  note run = runs_sim [OF assms(3) a(4,5)]
  have W: "waiters (Receivers (TestPort r)) \<subseteq> {TaskId (tab a ! j)}" using a(3) by (simp add: rests_ok_def resting_def)
  show ?thesis
  proof (cases rule: port_receivers.park_section [OF a(4,5,7) run(1) a(8) run(2) port_okD(6) [OF a(6)] W])
    case 1
    have "mail_ok (r\<lparr>consumer := Trying n\<rparr>)" using a(1) assms(2) by (simp add: mail_ok_def)
    then show ?thesis using 1 assms(2) consumer_moves [OF _ a(2,3) run(2)] by (simp add: consumer_step_def)
  next
    case (2 e w s' b)
    define r' where "r' = r\<lparr>TestPort := put_receivers w (TestPort r), rsch := s', consumer := Parked n e\<rparr>"
    have empty: "messages (TestPort r) = []"
      using 2(1) port_okD(7) [OF a(6)] by (simp add: PortHasMessage_def word_gt_0)
    have "consumer_step j r = Some r'" using assms(2) 2(2) by (simp add: consumer_step_def r'_def)
    moreover have "mail_ok r'" using a(1,6) assms(2) 2(3) by (simp add: mail_ok_def r'_def)
    moreover have "pair_ok i j r' b" using pair_ok_keeps [OF a(2) 2(6), of r'] 2(5) by (simp add: r'_def)
    moreover have "rests_ok i j r' b"
      using a(2,3,9,10) assms(2) 2(4,6) empty by (auto simp: rests_ok_def resting_def r'_def keeps_def live_def pair_ok_def)
    ultimately show ?thesis by (simp add: rendezvous_invI)
  qed
qed

lemma consumer_resumes:
  assumes "rendezvous_inv i j r" and "consumer r = Parked n e" and "runs j (rsch r)"
  shows "returns (consumer_step j r) (rendezvous_inv i j)"
proof (rule rendezvous_invE [OF assms(1)])
  fix a
  assume a: "mail_ok r" "pair_ok i j r a" "rests_ok i j r a" "refines (rsch r) a" "ainv a" "port_ok (TestPort r)" "live a j"
  note run = runs_sim [OF assms(3) a(4,5)]
  let ?self = "TaskId (task (rsch r) j)"
  have self: "?self = TaskId (tab a ! j)"
    using refines_nth [OF a(4), of j] refines_current(1) [OF a(4,5)] a(7) by (simp add: live_def)
  have W: "waiters (Receivers (TestPort r)) \<subseteq> {?self}" using a(3) self by (simp add: rests_ok_def resting_def)
  have st: "State (task (rsch r) j) = TaskRunning" using assms(3) by (simp add: runs_def)
  obtain w s' where w: "SchedBlockTask_resume j (SchedYield_resume False (rsch r)) = Some (rsch r)"
    "IpcPark_woken Receivers put_receivers ?self e (TestPort r) (rsch r) = (put_receivers w (TestPort r), s')" "wait_ok w" "waiters w = {}" "refines s' a"
    by (rule port_receivers.woken_section [OF a(4) st port_okD(6) [OF a(6)] W])
  define r' where "r' = r\<lparr>TestPort := put_receivers w (TestPort r), rsch := s', consumer := Parking n\<rparr>"
  have "consumer_step j r = Some r'" using assms(2) w(1,2) by (simp add: consumer_step_def r'_def)
  moreover have "mail_ok r'" using a(1,6) assms(2) w(3) by (simp add: mail_ok_def r'_def)
  moreover have "pair_ok i j r' a" using a(2) w(5) by (simp add: pair_ok_def r'_def)
  moreover have "rests_ok i j r' a" using a(3) assms(2) run(2) w(4) by (auto simp: rests_ok_def resting_def r'_def)
  ultimately show ?thesis by (simp add: rendezvous_invI)
qed

lemma consumer_inv:
  assumes "rendezvous_inv i j r" and "runs j (rsch r)" and "consumer r \<noteq> Finished"
  shows "returns (consumer_step j r) (rendezvous_inv i j)"
proof (cases "consumer r")
  case (Calling n)
  then show ?thesis using consumer_calls [OF assms(1) _ assms(2)] by blast
next
  case (Trying n)
  then show ?thesis using consumer_tries [OF assms(1) _ assms(2)] by blast
next
  case (Waking n)
  then show ?thesis using consumer_wakes [OF assms(1) _ assms(2)] by blast
next
  case (Rousing n x)
  then show ?thesis using consumer_rouses [OF assms(1) _ assms(2)] by blast
next
  case (Parking n)
  then show ?thesis using consumer_parks [OF assms(1) _ assms(2)] by blast
next
  case (Parked n e)
  then show ?thesis using consumer_resumes [OF assms(1) _ assms(2)] by blast
qed (use assms(3) in simp)

lemma rendezvous_step_inv:
  assumes "rendezvous_step i j r r'" and "rendezvous_inv i j r"
  shows "rendezvous_inv i j r'"
  using assms(1)
proof cases
  case produce
  then have "producer r \<noteq> Finished" by (auto simp: producer_step_def)
  from producer_inv [OF assms(2) produce(1) this] produce(2) show ?thesis by simp
next
  case consume
  then have "consumer r \<noteq> Finished" by (auto simp: consumer_step_def)
  from consumer_inv [OF assms(2) consume(1) this] consume(2) show ?thesis by simp
next
  case (event s)
  then show ?thesis using event_inv [OF _ assms(2)] by simp
qed

lemma rendezvous_reach_inv:
  "(rendezvous_step i j)\<^sup>*\<^sup>* r r' \<Longrightarrow> rendezvous_inv i j r \<Longrightarrow> rendezvous_inv i j r'"
  by (induction rule: rtranclp_induct) (simp_all add: rendezvous_step_inv)

end
