(* ===== verification/Rendezvous_Props.thy ===== *)
theory Rendezvous_Props
  imports Rendezvous_Inv
begin

text \<open>
  What the port self test guarantees: the setup establishes the invariant, so no message is lost, duplicated or
  reordered, and no wakeup is lost.
\<close>

subsection \<open>Setting up\<close>

definition blank_port :: "IpcPort \<Rightarrow> bool" where
  "blank_port p \<longleftrightarrow> Magic p \<noteq> PORT_MAGIC \<and> length (Slots p) = 16 \<and> length (Ids (Senders p)) = 16 \<and> length (Ids (Receivers p)) = 16"

lemma create_port:
  assumes "blank_port p"
  obtains q where "IpcPortCreate (Some p) s = (IpcOk, Some q, s)" and "port_ok q" and "messages q = []"
    and "waiters (Senders q) = {}" and "waiters (Receivers q) = {}"
proof -
  obtain e s1 where lk: "SchedLockIrq s = (e, s1)" by fastforce
  let ?q = "PortReset (p\<lparr>Magic := PORT_MAGIC\<rparr>)"
  have w: "wait_ok (wait_reset w) \<and> waiters (wait_reset w) = {}" if "length (Ids w) = 16" for w
    using that by (simp add: wait_ok_def wait_reset_def entries_def IpcMaxWaiters_def)
  have "port_ok ?q" "messages ?q = []" "waiters (Senders ?q) = {}" "waiters (Receivers ?q) = {}"
    using assms w by (simp_all add: blank_port_def port_ok_def PortReset_def messages_def ring_list_def IpcPortCapacity_def)
  moreover have "IpcPortCreate (Some p) s = (IpcOk, Some ?q, s)"
    using assms lk irq_roundtripD [OF lk] by (simp add: IpcPortCreate_def blank_port_def)
  ultimately show thesis by (intro that)
qed

lemma create_task:
  assumes "refines s a" and "ainv a" and "unat (cnt a) < 32" and "unat (nid a) < 4294967295"
  obtains i s' b where "SchedCreate stub (Some nm) entry stacktop s = Some (Some i, s')" and "refines s' b" and "ainv b"
    and "i < SchedMaxTasks" and "i \<noteq> 0" and "State (tab a ! i) = TaskDead" and "State (tab b ! i) = TaskReady"
    and "\<forall>j < SchedMaxTasks. j \<noteq> i \<longrightarrow> tab b ! j = tab a ! j" and "cnt b = cnt a + 1" and "nid b = nid a + 1" and "lck b = lck a"
proof -
  have "cnt a < of_nat SchedMaxTasks" using assms(3) by (simp add: word_less_nat_alt SchedMaxTasks_def)
  then obtain i where i: "fst (acreate nm entry stacktop a) = Some i" "i < SchedMaxTasks"
    "State (tab a ! i) = TaskDead" "snd (acreate nm entry stacktop a) = acreate_at i nm entry stacktop a"
    using acreate_succeeds [OF assms(2)] by blast
  let ?b = "acreate_at i nm entry stacktop a"
  obtain s' where s': "SchedCreate stub (Some nm) entry stacktop s = Some (Some i, s')" "refines s' ?b"
    using SchedCreate_sim [OF assms(1,2), of stub nm entry stacktop] i(1,4) by (auto simp: returns_def)
  have "i \<noteq> 0" using idle_live [OF ainvD(3) [OF assms(2)]] i(3) by (metis live_def)
  moreover have "State (tab ?b ! i) = TaskReady" "\<forall>j < SchedMaxTasks. j \<noteq> i \<longrightarrow> tab ?b ! j = tab a ! j"
    using queues_okD(1) [OF ainvD(1) [OF assms(2)]] i(2) by (simp_all add: acreate_at_def)
  ultimately show thesis using s' i acreate_at_ainv [OF assms(2) i(2,3) assms(4)]
    by (intro that [of i s' ?b]) (simp_all add: acreate_at_def)
qed

lemma create_pair:
  assumes "sched_inv s" and "SchedulerLocked s = 0" and "unat (TaskCountValue s) \<le> 30" and "unat (NextTaskId s) < 4294967294"
  obtains i j s1 s2 c where "SchedCreate stub (Some n1) e1 t1 s = Some (Some j, s1)" and "SchedCreate stub (Some n2) e2 t2 s1 = Some (Some i, s2)"
    and "refines s2 c" and "ainv c" and "lck c = 0" and "live c i" and "live c j" and "i \<noteq> 0" and "j \<noteq> 0" and "i \<noteq> j"
    and "State (tab c ! i) = TaskReady" and "State (tab c ! j) = TaskReady"
proof -
  obtain a where a: "refines s a" "ainv a" using assms(1) by (auto simp: sched_inv_def)
  have n: "unat (cnt a) < 31" "unat (nid a) < 4294967294" "lck a = 0"
    using assms refinesD(4,5,6) [OF a(1)] by simp_all
  have n': "unat (cnt a) < 32" "unat (nid a) < 4294967295" using n(1,2) by simp_all
  obtain j s1 b where j: "SchedCreate stub (Some n1) e1 t1 s = Some (Some j, s1)" "refines s1 b" "ainv b"
    "j < SchedMaxTasks" "j \<noteq> 0" "State (tab a ! j) = TaskDead" "State (tab b ! j) = TaskReady"
    "\<forall>k < SchedMaxTasks. k \<noteq> j \<longrightarrow> tab b ! k = tab a ! k" "cnt b = cnt a + 1" "nid b = nid a + 1" "lck b = lck a"
    by (rule create_task [OF a n', where stub = stub and nm = n1 and entry = e1 and stacktop = t1])
  have m: "unat (cnt b) < 32" "unat (nid b) < 4294967295" using j(9,10) n by (simp_all add: unat_succ_bound)
  obtain i s2 c where i: "SchedCreate stub (Some n2) e2 t2 s1 = Some (Some i, s2)" "refines s2 c" "ainv c"
    "i < SchedMaxTasks" "i \<noteq> 0" "State (tab b ! i) = TaskDead" "State (tab c ! i) = TaskReady"
    "\<forall>k < SchedMaxTasks. k \<noteq> i \<longrightarrow> tab c ! k = tab b ! k" "cnt c = cnt b + 1" "nid c = nid b + 1" "lck c = lck b"
    by (rule create_task [OF j(2,3) m, where stub = stub and nm = n2 and entry = e2 and stacktop = t2])
  have ne: "i \<noteq> j" using i(6) j(7) by auto
  have tj: "State (tab c ! j) = TaskReady" using i(8) j(4) ne j(7) by simp
  show thesis using i(1-5,7,11) j(1,4,5,11) ne tj n(3) by (intro that [of j s1 i s2 c]) (simp_all add: live_def)
qed

definition test_ready :: "IpcMessage \<Rightarrow> IpcPort \<Rightarrow> sched \<Rightarrow> bool" where
  "test_ready pm port s \<longleftrightarrow> sched_inv s \<and> SchedulerLocked s = 0 \<and> unat (TaskCountValue s) \<le> 30 \<and> unat (NextTaskId s) < 4294967294 \<and>
     blank_port port \<and> Data pm \<noteq> []"

lemma setup_inv:
  assumes "test_ready pm port s"
  obtains i j r where "ipc_test_setup stub ce cs pe ps pm cm port s = Some (Inr (i, j, r))" and "rendezvous_inv i j r"
proof -
  have ready: "sched_inv s" "SchedulerLocked s = 0" "unat (TaskCountValue s) \<le> 30" "unat (NextTaskId s) < 4294967294" "blank_port port"
    using assms by (simp_all add: test_ready_def)
  obtain q where q: "IpcPortCreate (Some port) s = (IpcOk, Some q, s)" "port_ok q" "messages q = []"
    "waiters (Senders q) = {}" "waiters (Receivers q) = {}" by (rule create_port [OF ready(5), of s])
  obtain i j s1 s2 c where c: "SchedCreate stub (Some (ascii ''Consumer'')) ce cs s = Some (Some j, s1)"
      "SchedCreate stub (Some (ascii ''Producer'')) pe ps s1 = Some (Some i, s2)" "refines s2 c" "ainv c" "lck c = 0" "live c i" "live c j"
      "i \<noteq> 0" "j \<noteq> 0" "i \<noteq> j" "State (tab c ! i) = TaskReady" "State (tab c ! j) = TaskReady"
    by (rule create_pair [OF ready(1-4), where stub = stub and ?n1.0 = "ascii ''Consumer''" and ?e1.0 = ce and ?t1.0 = cs
          and ?n2.0 = "ascii ''Producer''" and ?e2.0 = pe and ?t2.0 = ps])
  define r where "r = \<lparr>rsch = s2, TestPort = q, producer = Calling 0, pmessage = pm, consumer = Calling 0, cmessage = cm,
    ConsumerDone = 0, ProducerDone = 0, ConsumerBad = 0, ProducerId = TaskId (task s2 i)\<rparr>"
  have "TaskId (tab c ! i) = TaskId (task s2 i)"
    using refines_nth [OF c(3), of i] refines_current(1) [OF c(3,4)] c(6) by (simp add: live_def)
  then have "pair_ok i j r c" using c(3-10) by (simp add: pair_ok_def r_def)
  moreover have "rests_ok i j r c" using q(4,5) c(11,12) by (simp add: rests_ok_def resting_def r_def)
  moreover have "mail_ok r" using q(2,3) assms by (simp add: mail_ok_def r_def test_ready_def)
  ultimately have "rendezvous_inv i j r" using rendezvous_invI by blast
  moreover have "ipc_test_setup stub ce cs pe ps pm cm port s = Some (Inr (i, j, r))"
    using q(1) c(1,2) by (simp add: ipc_test_setup_def r_def)
  ultimately show thesis by (intro that)
qed

subsection \<open>No message and no wakeup is lost\<close>


definition blank_wait :: IpcWait where
  "blank_wait = \<lparr>Ids = replicate 16 0, WCount = 0\<rparr>"

definition test_port :: IpcPort where
  "test_port = \<lparr>Magic = 0, Head = 0, PCount = 0, Slots = replicate 16 (demo_message 0), Senders = blank_wait, Receivers = blank_wait\<rparr>"

lemma demo_test_ready: "test_ready (demo_message 0) test_port demo"
  using demo_inv by (simp add: test_ready_def blank_port_def test_port_def blank_wait_def demo_message_def PORT_MAGIC_def)


text \<open>
  C12: no wakeup is lost in the port self test. In every reachable state a task that is blocked waits in its call to park, and either the
  port has nothing for it (no message for the consumer, no room for the producer), or its peer is between moving a message and
  waking it; the two tasks are never both blocked, and whichever of them runs and is not done can take its next step, so the
  test cannot get stuck.
\<close>

theorem rendezvous_no_lost_wakeup:
  assumes "test_ready pm port s"
  shows "\<exists>i j r. ipc_test_setup stub ce cs pe ps pm cm port s = Some (Inr (i, j, r)) \<and>
    (\<forall>r'. (rendezvous_step i j)\<^sup>*\<^sup>* r r' \<longrightarrow>
       (State (task (rsch r') i) = TaskBlocked \<longrightarrow> is_parked (producer r') \<and> (length (messages (TestPort r')) = 16 \<or> wakes_peer (consumer r'))) \<and>
       (State (task (rsch r') j) = TaskBlocked \<longrightarrow> is_parked (consumer r') \<and> (messages (TestPort r') = [] \<or> wakes_peer (producer r'))) \<and>
       \<not> (State (task (rsch r') i) = TaskBlocked \<and> State (task (rsch r') j) = TaskBlocked) \<and>
       (runs i (rsch r') \<and> producer r' \<noteq> Finished \<longrightarrow> producer_step i r' \<noteq> None) \<and>
       (runs j (rsch r') \<and> consumer r' \<noteq> Finished \<longrightarrow> consumer_step j r' \<noteq> None))"
proof -
  obtain i j r where r: "ipc_test_setup stub ce cs pe ps pm cm port s = Some (Inr (i, j, r))" "rendezvous_inv i j r"
    by (rule setup_inv [OF assms])
  have "(State (task (rsch r') i) = TaskBlocked \<longrightarrow> is_parked (producer r') \<and> (length (messages (TestPort r')) = 16 \<or> wakes_peer (consumer r'))) \<and>
       (State (task (rsch r') j) = TaskBlocked \<longrightarrow> is_parked (consumer r') \<and> (messages (TestPort r') = [] \<or> wakes_peer (producer r'))) \<and>
       (runs i (rsch r') \<and> producer r' \<noteq> Finished \<longrightarrow> producer_step i r' \<noteq> None) \<and>
       (runs j (rsch r') \<and> consumer r' \<noteq> Finished \<longrightarrow> consumer_step j r' \<noteq> None)"
    if "(rendezvous_step i j)\<^sup>*\<^sup>* r r'" for r'
  proof -
    have inv: "rendezvous_inv i j r'" by (rule rendezvous_reach_inv [OF that r(2)])
    obtain a where a: "rests_ok i j r' a" "refines (rsch r') a" "ainv a" "live a i" "live a j" by (rule rendezvous_invE [OF inv])
    have st: "State (tab a ! i) = State (task (rsch r') i)" "State (tab a ! j) = State (task (rsch r') j)"
      using refines_nth [OF a(2)] refines_current(1) [OF a(2,3)] a(4,5) by (simp_all add: live_def)
    have "wakes_peer p" if "p = Waking n \<or> p = Rousing n x" for p n x using that by auto
    then show ?thesis using a(1) st producer_inv [OF inv] consumer_inv [OF inv]
      by (fastforce simp: rests_ok_def resting_def returns_def)
  qed
  moreover have "\<not> (wakes_peer p \<and> is_parked p)" for p by (cases p) simp_all
  ultimately show ?thesis using r(1) by (intro exI [of _ i] exI [of _ j] exI [of _ r] conjI allI impI) (simp_all, fastforce)
qed

theorem rendezvous_no_lost_wakeup_witness:
  "\<exists>i j r. ipc_test_setup 0x100000 0x101000 0x200000 0x102000 0x210000 (demo_message 0) (demo_message 0) test_port demo = Some (Inr (i, j, r)) \<and>
     (\<forall>r'. (rendezvous_step i j)\<^sup>*\<^sup>* r r' \<longrightarrow> \<not> (State (task (rsch r') i) = TaskBlocked \<and> State (task (rsch r') j) = TaskBlocked))"
  using rendezvous_no_lost_wakeup [OF demo_test_ready, of "0x100000" "0x101000" "0x200000" "0x102000" "0x210000" "demo_message 0"] by blast

end
