(* ===== verification/Contention.thy ===== *)
theory Contention
  imports Rendezvous_Props
begin

text \<open>
  The mutex self test of \<^verbatim>\<open>src/init/main.c\<close>: tasks that run \<^verbatim>\<open>ipc_lock_task\<close> fight over one mutex. As in theory \<open>Rendezvous\<close> a
  phase says before which section a task stands; here the unprotected reads and writes of \<^verbatim>\<open>MutexHeldByCaller\<close>
  and of the shared counter are sections of their own, so a task can be interrupted between any two of them. The test
  creates two such tasks; the state allows any number of them, as a map from task slots to phases.
\<close>

datatype lock_phase =
    Top
  | Asking
  | Comparing
  | Taking
  | AskingAgain
  | ComparingAgain
  | Resting
  | Asleep bool
  | Reading
  | Writing u32
  | Testing u32
  | Releasing
  | Handing u32
  | Gone

record contention =
  csch :: sched
  cmutex :: IpcMutex
  lockers :: "nat \<rightharpoonup> lock_phase"
  LockRounds :: u32
  LockStop :: u32
  LockBad :: u32

subsection \<open>The task\<close>

text \<open>The section of \<^verbatim>\<open>MutexUnlock\<close> that runs with interrupts off: its status, the waiter to wake, and the mutex.\<close>

definition mutex_release :: "IpcMutex \<Rightarrow> sched \<Rightarrow> IpcStatus \<times> u32 \<times> IpcMutex \<times> sched" where
  "mutex_release m s =
     (let (was_enabled, s) = SchedLockIrq s;
          (status, next, m) =
            (if \<not> Locked m \<or> Owner m \<noteq> IpcSelfId s then (IpcErrOwner, 0, m)
             else
               (let (next, w) = IpcWaitTakeLive s (MWait m); m = m\<lparr>MWait := w\<rparr>
                in if next \<noteq> 0 then (IpcOk, next, m\<lparr>Owner := next\<rparr>)
                   else (IpcOk, next, m\<lparr>Locked := False, Owner := 0\<rparr>)))
      in (status, next, m, SchedUnlockIrq was_enabled s))"

lemma MutexUnlock_sections:
  "MutexUnlock_at m s = (case mutex_release m s of (status, next, m, s) \<Rightarrow>
     if status = IpcOk \<and> next \<noteq> 0 then do { s \<leftarrow> SchedWakeTask next s; Some (status, m, s) } else Some (status, m, s))"
  by (simp add: MutexUnlock_at_def mutex_release_def Let_def split: prod.split)

definition go :: "nat \<Rightarrow> lock_phase \<Rightarrow> contention \<Rightarrow> contention" where
  "go i ph r = r\<lparr>lockers := (lockers r)(i \<mapsto> ph)\<rparr>"

text \<open>\<^verbatim>\<open>MutexLock\<close> has failed.\<close>

definition lock_fails :: "nat \<Rightarrow> contention \<Rightarrow> contention" where
  "lock_fails i r = go i Gone (r\<lparr>LockBad := LockBad r + 1\<rparr>)"

definition lock_step :: "nat \<Rightarrow> contention \<Rightarrow> contention option" where
  "lock_step i r =
     (case lockers r i of
        None \<Rightarrow> None
      | Some ph \<Rightarrow>
          (case ph of
             Top \<Rightarrow> Some (if LockStop r \<noteq> 0 then go i Gone r else go i Asking r)
           | Asking \<Rightarrow> Some (if Locked (cmutex r) then go i Comparing r else go i Taking r)
           | Comparing \<Rightarrow> Some (if Owner (cmutex r) = IpcSelfId (csch r) then lock_fails i r else go i Taking r)
           | Taking \<Rightarrow>
               (let (status, m, s) = MutexTryLock_at (cmutex r) (csch r); r = r\<lparr>cmutex := m, csch := s\<rparr>
                in Some (if status = IpcErrBusy then go i AskingAgain r
                         else if status \<noteq> IpcOk then lock_fails i r else go i Reading r))
           | AskingAgain \<Rightarrow> Some (if Locked (cmutex r) then go i ComparingAgain r else go i Resting r)
           | ComparingAgain \<Rightarrow> Some (if Owner (cmutex r) = IpcSelfId (csch r) then go i Reading r else go i Resting r)
           | Resting \<Rightarrow>
               do { (out, m, s) \<leftarrow> IpcPark MWait put_mwait MutexIsFree (cmutex r) (csch r);
                    let r = r\<lparr>cmutex := m, csch := s\<rparr>;
                    Some (case out of
                            Suspended e \<Rightarrow> go i (Asleep e) r
                          | Done status \<Rightarrow> if status \<noteq> IpcOk then lock_fails i r else go i Taking r) }
           | Asleep e \<Rightarrow>
               do { s \<leftarrow> SchedBlockTask_resume i (SchedYield_resume False (csch r));
                    let (m, s) = IpcPark_woken MWait put_mwait (TaskId (task (csch r) i)) e (cmutex r) s;
                    Some (go i Resting (r\<lparr>cmutex := m, csch := s\<rparr>)) }
           | Reading \<Rightarrow> Some (go i (Writing (LockRounds r)) r)
           | Writing seen \<Rightarrow> Some (go i (Testing seen) (r\<lparr>LockRounds := seen + 1\<rparr>))
           | Testing seen \<Rightarrow> Some (go i Releasing (if LockRounds r \<noteq> seen + 1 then r\<lparr>LockBad := LockBad r + 1\<rparr> else r))
           | Releasing \<Rightarrow>
               (let (status, next, m, s) = mutex_release (cmutex r) (csch r); r = r\<lparr>cmutex := m, csch := s\<rparr>
                in Some (if status = IpcOk \<and> next \<noteq> 0 then go i (Handing next) r else go i Top r))
           | Handing next \<Rightarrow> do { s \<leftarrow> SchedWakeTask next (csch r); Some (go i Top (r\<lparr>csch := s\<rparr>)) }
           | Gone \<Rightarrow> None))"

subsection \<open>The test\<close>

definition contention_setup :: "u32 \<Rightarrow> u32 \<Rightarrow> u32 \<Rightarrow> u32 \<Rightarrow> IpcMutex \<Rightarrow> sched \<Rightarrow> (u8 list + contention) option" where
  "contention_setup stub entry stack_a stack_b mutex s =
     do { m \<leftarrow> MutexInit (Some mutex);
          (a, s) \<leftarrow> SchedCreate stub (Some (ascii ''LockA'')) entry stack_a s;
          (b, s) \<leftarrow> SchedCreate stub (Some (ascii ''LockB'')) entry stack_b s;
          (case (a, b) of
             (Some i, Some j) \<Rightarrow>
               Some (Inr \<lparr>csch = s, cmutex = m, lockers = [i \<mapsto> Top, j \<mapsto> Top], LockRounds = 0, LockStop = 0, LockBad = 0\<rparr>)
           | _ \<Rightarrow> Some (Inl (ascii ''ERROR: ipc lock tasks could not be created.'' @ [10]))) }"

text \<open>A step of a running task, a scheduler event, or the idle task setting the stop flag.\<close>

inductive contention_step :: "contention \<Rightarrow> contention \<Rightarrow> bool" where
  step: "runs i (csch r) \<Longrightarrow> lock_step i r = Some r' \<Longrightarrow> contention_step r r'"
| event: "sched_event (csch r) s \<Longrightarrow> contention_step r (r\<lparr>csch := s\<rparr>)"
| stop: "contention_step r (r\<lparr>LockStop := 1\<rparr>)"

end
