(* ===== verification/Contention_Props.thy ===== *)
theory Contention_Props
  imports Contention
begin

text \<open>
  The mutex excludes: the invariant of the contention test, that every step keeps it, and its consequences. And
  what the hand-over of the mutex to a sleeping task does: from then on nobody enters the critical section.
\<close>

subsection \<open>The invariant\<close>

text \<open>The phases in which a task is inside the critical section, and those in which it does not want the mutex.\<close>

fun critical :: "lock_phase \<Rightarrow> bool" where
  "critical Reading = True" | "critical (Writing n) = True" | "critical (Testing n) = True" | "critical Releasing = True" | "critical ph = False"

fun outside :: "lock_phase \<Rightarrow> bool" where
  "outside Top = True" | "outside Asking = True" | "outside Comparing = True" | "outside (Handing x) = True" | "outside Gone = True"
| "outside ph = False"

fun counted :: "u32 \<Rightarrow> lock_phase \<Rightarrow> bool" where
  "counted n (Writing seen) = (n = seen)" | "counted n (Testing seen) = (n = seen + 1)" | "counted n ph = True"

definition phase_ok :: "u32 \<Rightarrow> contention \<Rightarrow> lock_phase \<Rightarrow> bool" where
  "phase_ok ident r ph \<longleftrightarrow> (critical ph \<longrightarrow> Owner (cmutex r) = ident) \<and> (outside ph \<longrightarrow> Owner (cmutex r) \<noteq> ident) \<and> counted (LockRounds r) ph"

definition locks_ok :: "contention \<Rightarrow> aspec \<Rightarrow> bool" where
  "locks_ok r a \<longleftrightarrow> finite (dom (lockers r)) \<and> card (dom (lockers r)) \<le> 16 \<and> LockBad r = 0 \<and> wait_ok (MWait (cmutex r)) \<and>
     (\<not> Locked (cmutex r) \<longrightarrow> Owner (cmutex r) = 0) \<and>
     (\<forall>x \<in> waiters (MWait (cmutex r)). \<exists>k e. lockers r k = Some (Asleep e) \<and> x = TaskId (tab a ! k)) \<and>
     (\<forall>k ph. lockers r k = Some ph \<longrightarrow> k \<noteq> 0 \<and> live a k \<and> phase_ok (TaskId (tab a ! k)) r ph)"

text \<open>The identifiers of the tasks are \<open>ids\<close>.\<close>

definition named :: "(nat \<Rightarrow> u32) \<Rightarrow> contention \<Rightarrow> aspec \<Rightarrow> bool" where
  "named ids r a \<longleftrightarrow> (\<forall>k. lockers r k \<noteq> None \<longrightarrow> TaskId (tab a ! k) = ids k)"

definition contention_inv :: "(nat \<Rightarrow> u32) \<Rightarrow> contention \<Rightarrow> bool" where
  "contention_inv ids r \<longleftrightarrow> (\<exists>a. refines (csch r) a \<and> ainv a \<and> lck a = 0 \<and> named ids r a \<and> locks_ok r a)"

lemma go_fields [simp]:
  "csch (go i ph r) = csch r" "cmutex (go i ph r) = cmutex r" "lockers (go i ph r) = (lockers r)(i \<mapsto> ph)" "LockRounds (go i ph r) = LockRounds r"
  "LockBad (go i ph r) = LockBad r" "LockStop (go i ph r) = LockStop r"
  by (simp_all add: go_def)

lemma ids_distinct:
  assumes "ainv a" and "live a i" and "live a k" and "TaskId (tab a ! i) = TaskId (tab a ! k)"
  shows "i = k"
  using afind_unique [OF assms(1,2)] afind_unique [OF assms(1,3)] assms(4) by (metis option.inject)

lemma uncritical_counted: "\<not> critical ph \<Longrightarrow> counted n ph"
  by (cases ph) simp_all

lemma locks_ok_keeps:
  assumes ok: "locks_ok r a" and k: "keeps B a b"
  shows "locks_ok r b"
proof -
  have ids: "TaskId (tab b ! k) = TaskId (tab a ! k)" "live b k" if "live a k" for k using that k by (auto simp: keeps_def live_def)
  have all: "k \<noteq> 0 \<and> live a k \<and> phase_ok (TaskId (tab a ! k)) r q" if "lockers r k = Some q" for k q using ok that by (simp add: locks_ok_def)
  have "\<exists>k e. lockers r k = Some (Asleep e) \<and> x = TaskId (tab b ! k)" if "x \<in> waiters (MWait (cmutex r))" for x
  proof -
    obtain k e where ke: "lockers r k = Some (Asleep e)" "x = TaskId (tab a ! k)" using ok \<open>x \<in> _\<close> unfolding locks_ok_def by blast
    then show ?thesis using ids(1) all [OF ke(1)] by (intro exI [of _ k] exI [of _ e]) simp
  qed
  moreover have "k \<noteq> 0 \<and> live b k \<and> phase_ok (TaskId (tab b ! k)) r q" if "lockers r k = Some q" for k q using all [OF that] ids by simp
  ultimately show ?thesis using ok by (simp add: locks_ok_def)
qed

lemma contention_invI:
  "refines (csch r) a \<Longrightarrow> ainv a \<Longrightarrow> lck a = 0 \<Longrightarrow> named ids r a \<Longrightarrow> locks_ok r a \<Longrightarrow> contention_inv ids r"
  by (auto simp: contention_inv_def)

lemma named_keeps:
  assumes "named ids r a" and "locks_ok r a" and "keeps B a b"
  shows "named ids r b"
  unfolding named_def
proof (intro allI impI)
  fix k
  assume k: "lockers r k \<noteq> None"
  then have "live a k" using assms(2) by (auto simp: locks_ok_def)
  then show "TaskId (tab b ! k) = ids k" using assms(1,3) k by (auto simp: named_def keeps_def live_def)
qed

lemma contention_keeps:
  assumes "locks_ok r a" and "named ids r a" and "lck a = 0" and "keeps B a b" and "refines (csch r') b" and "r' = r\<lparr>csch := csch r'\<rparr>"
  shows "contention_inv ids r'"
proof (rule contention_invI [OF assms(5)])
  show "ainv b" "lck b = 0" using assms(3,4) by (simp_all add: keeps_def)
  show "named ids r' b" using named_keeps [OF assms(2,1,4)] by (subst assms(6)) (simp add: named_def)
  show "locks_ok r' b" using locks_ok_keeps [OF assms(1,4)] by (subst assms(6)) (simp add: locks_ok_def phase_ok_def)
qed

lemma named_go: "named ids r a \<Longrightarrow> lockers r i = Some p \<Longrightarrow> lockers r' = lockers r \<Longrightarrow> named ids (go i ph r') a"
  by (simp add: named_def)

text \<open>The facts of the invariant when a task runs.\<close>

lemma contention_runs:
  assumes "contention_inv ids r" and "runs i (csch r)" and "lockers r i = Some ph"
  obtains a where "refines (csch r) a" and "ainv a" and "lck a = 0" and "named ids r a" and "locks_ok r a" and "cur a = Some i" and "State (tab a ! i) = TaskRunning"
    and "IpcSelfId (csch r) = TaskId (tab a ! i)" and "TaskId (tab a ! i) \<noteq> 0" and "i \<noteq> 0" and "live a i" and "phase_ok (TaskId (tab a ! i)) r ph"
    and "\<And>k q. k \<noteq> i \<Longrightarrow> lockers r k = Some q \<Longrightarrow> TaskId (tab a ! k) \<noteq> TaskId (tab a ! i) \<and> TaskId (tab a ! k) \<noteq> 0 \<and> phase_ok (TaskId (tab a ! k)) r q"
proof -
  obtain a where a: "refines (csch r) a" "ainv a" "lck a = 0" "named ids r a" "locks_ok r a" using assms(1) by (auto simp: contention_inv_def)
  note run = runs_sim [OF assms(2) a(1,2)]
  have all: "k \<noteq> 0 \<and> live a k \<and> phase_ok (TaskId (tab a ! k)) r q" if "lockers r k = Some q" for k q using a(5) that by (simp add: locks_ok_def)
  have id: "TaskId (tab a ! k) \<noteq> 0" if "lockers r k = Some q" for k q
    using zero_id_idle [OF ainvD(3) [OF a(2)]] all [OF that] by blast
  show thesis
    using that [OF a run IpcSelfId_sim [OF a(1,2) run(1)] id [OF assms(3)]] all id ids_distinct [OF a(2)] assms(3) by metis
qed

text \<open>
  A step of task \<open>i\<close> to the phase \<open>ph\<close>: the wait queue may only get its own identifier, and only when it goes to sleep; the
  others have to accept the new owner and the new count.
\<close>

lemma locks_ok_go:
  assumes ok: "locks_ok r a" and p: "lockers r i = Some p" and same: "lockers r' = lockers r" and bad: "LockBad r' = 0"
    and w: "wait_ok (MWait (cmutex r'))" and free: "\<not> Locked (cmutex r') \<Longrightarrow> Owner (cmutex r') = 0"
    and W: "waiters (MWait (cmutex r')) \<subseteq> (if \<exists>e. ph = Asleep e then insert (TaskId (tab a ! i)) (waiters (MWait (cmutex r)))
      else waiters (MWait (cmutex r)) - {TaskId (tab a ! i)})"
    and mine: "phase_ok (TaskId (tab a ! i)) r' ph"
    and others: "\<And>k q. k \<noteq> i \<Longrightarrow> lockers r k = Some q \<Longrightarrow> phase_ok (TaskId (tab a ! k)) r' q"
  shows "locks_ok (go i ph r') a"
proof -
  have phase_eq: "phase_ok x (go i ph r') q = phase_ok x r' q" for x q by (simp add: phase_ok_def)
  have W': "\<exists>k e. ((lockers r)(i \<mapsto> ph)) k = Some (Asleep e) \<and> x = TaskId (tab a ! k)" if x: "x \<in> waiters (MWait (cmutex r'))" for x
  proof (cases "x = TaskId (tab a ! i)")
    case True
    then obtain e where "ph = Asleep e" using W x by (auto split: if_splits)
    then show ?thesis using True by (intro exI [of _ i] exI [of _ e]) simp
  next
    case False
    then have "x \<in> waiters (MWait (cmutex r))" using W x by (auto split: if_splits)
    then obtain k e where k: "lockers r k = Some (Asleep e)" "x = TaskId (tab a ! k)" using ok unfolding locks_ok_def by blast
    with False have "k \<noteq> i" by auto
    with k show ?thesis by (intro exI [of _ k] exI [of _ e]) simp
  qed
  have "dom ((lockers r)(i \<mapsto> ph)) = dom (lockers r)" using p by auto
  moreover have "k \<noteq> 0 \<and> live a k \<and> phase_ok (TaskId (tab a ! k)) (go i ph r') q" if "((lockers r)(i \<mapsto> ph)) k = Some q" for k q
    using that ok p mine others unfolding phase_eq by (auto simp: locks_ok_def split: if_splits)
  ultimately show ?thesis using ok bad w free W' by (simp add: locks_ok_def same)
qed

text \<open>The frequent case: mutex and scheduler are as before.\<close>

lemma lock_moves:
  assumes inv: "contention_inv ids r" and run: "runs i (csch r)" and p: "lockers r i = Some p" "\<forall>e. p \<noteq> Asleep e" "\<forall>e. ph \<noteq> Asleep e"
    and r': "csch r' = csch r" "cmutex r' = cmutex r" "lockers r' = lockers r" "LockBad r' = LockBad r"
    and mine: "\<And>ident. ident = IpcSelfId (csch r) \<Longrightarrow> ident \<noteq> 0 \<Longrightarrow> phase_ok ident r p \<Longrightarrow> phase_ok ident r' ph"
    and count: "LockRounds r' = LockRounds r \<or> critical p"
  shows "contention_inv ids (go i ph r')"
proof (rule contention_runs [OF inv run p(1)])
  fix a
  assume a: "refines (csch r) a" "ainv a" "lck a = 0" "locks_ok r a" "IpcSelfId (csch r) = TaskId (tab a ! i)" "TaskId (tab a ! i) \<noteq> 0"
      "phase_ok (TaskId (tab a ! i)) r p"
    and nm: "named ids r a"
    and oth: "\<And>k q. k \<noteq> i \<Longrightarrow> lockers r k = Some q \<Longrightarrow> TaskId (tab a ! k) \<noteq> TaskId (tab a ! i) \<and> TaskId (tab a ! k) \<noteq> 0 \<and> phase_ok (TaskId (tab a ! k)) r q"
    and lv: "live a i"
  have ok: "LockBad r = 0" "wait_ok (MWait (cmutex r))" "\<not> Locked (cmutex r) \<longrightarrow> Owner (cmutex r) = 0" using a(4) by (simp_all add: locks_ok_def)
  have "TaskId (tab a ! i) \<notin> waiters (MWait (cmutex r))"
  proof
    assume "TaskId (tab a ! i) \<in> waiters (MWait (cmutex r))"
    then obtain k e where "lockers r k = Some (Asleep e)" "TaskId (tab a ! i) = TaskId (tab a ! k)" using a(4) unfolding locks_ok_def by blast
    then have "k = i" using oth [of k "Asleep e"] by metis
    then show False using \<open>lockers r k = Some (Asleep e)\<close> p(1,2) by simp
  qed
  moreover have "phase_ok (TaskId (tab a ! k)) r' q" if k: "k \<noteq> i" "lockers r k = Some q" for k q
    using oth [OF k] count a(7) uncritical_counted [of q "LockRounds r'"] by (auto simp: phase_ok_def r'(2))
  ultimately have "locks_ok (go i ph r') a"
    using ok p r' mine [OF a(5) [symmetric] a(6,7)] by (intro locks_ok_go [OF a(4) p(1)]) auto
  then show ?thesis using a(1-3) named_go [OF nm p(1) r'(3)] by (intro contention_invI [of _ a]) (simp_all add: r'(1))
qed

subsection \<open>The sections that change the mutex\<close>

text \<open>A task that is awake is not on the wait queue.\<close>

lemma awake_off_queue:
  assumes "locks_ok r a" and "ainv a" and "lockers r i = Some p" and "\<forall>e. p \<noteq> Asleep e"
  shows "TaskId (tab a ! i) \<notin> waiters (MWait (cmutex r))"
proof
  assume "TaskId (tab a ! i) \<in> waiters (MWait (cmutex r))"
  then obtain k e where k: "lockers r k = Some (Asleep e)" "TaskId (tab a ! i) = TaskId (tab a ! k)" using assms(1) unfolding locks_ok_def by blast
  have "live a i" "live a k" using assms(1,3) k(1) by (simp_all add: locks_ok_def)
  then have "i = k" using ids_distinct [OF assms(2)] k(2) by metis
  then show False using k(1) assms(3,4) by auto
qed

lemma lock_takes:
  assumes inv: "contention_inv ids r" and run: "runs i (csch r)" and p: "lockers r i = Some Taking"
  shows "returns (lock_step i r) (contention_inv ids)"
proof (cases "Locked (cmutex r)")
  case True
  have "contention_inv ids (go i AskingAgain r)" by (rule lock_moves [OF inv run p]) (auto simp: phase_ok_def)
  then show ?thesis using True p by (simp add: lock_step_def MutexTryLock_at_eq)
next
  case False
  show ?thesis
  proof (rule contention_runs [OF inv run p])
    fix a
    assume a: "refines (csch r) a" "ainv a" "lck a = 0" "locks_ok r a" "IpcSelfId (csch r) = TaskId (tab a ! i)" "TaskId (tab a ! i) \<noteq> 0"
      and nm: "named ids r a"
    and oth: "\<And>k q. k \<noteq> i \<Longrightarrow> lockers r k = Some q \<Longrightarrow> TaskId (tab a ! k) \<noteq> TaskId (tab a ! i) \<and> TaskId (tab a ! k) \<noteq> 0 \<and> phase_ok (TaskId (tab a ! k)) r q"
    define r' where "r' = r\<lparr>cmutex := (cmutex r)\<lparr>Locked := True, Owner := TaskId (tab a ! i)\<rparr>\<rparr>"
    have ok: "LockBad r = 0" "wait_ok (MWait (cmutex r))" "Owner (cmutex r) = 0" using a(4) False by (simp_all add: locks_ok_def)
    have "phase_ok (TaskId (tab a ! k)) r' q" if k: "k \<noteq> i" "lockers r k = Some q" for k q
      using oth [OF k] ok(3) by (auto simp: phase_ok_def r'_def)
    then have "locks_ok (go i Reading r') a"
      using ok awake_off_queue [OF a(4,2) p] by (intro locks_ok_go [OF a(4) p]) (auto simp: r'_def phase_ok_def)
    then have "contention_inv ids (go i Reading r')" using a(1-3) named_go [OF nm p] by (intro contention_invI [of _ a]) (simp_all add: r'_def)
    moreover have "lock_step i r = Some (go i Reading r')"
      using False p a(5) by (simp add: lock_step_def MutexTryLock_at_eq r'_def)
    ultimately show ?thesis by simp
  qed
qed

lemma lock_rests:
  assumes inv: "contention_inv ids r" and run: "runs i (csch r)" and p: "lockers r i = Some Resting"
  shows "returns (lock_step i r) (\<lambda>r'. contention_inv ids r' \<and>
    (Locked (cmutex r) \<longrightarrow> (\<exists>e w s. r' = go i (Asleep e) (r\<lparr>cmutex := (cmutex r)\<lparr>MWait := w\<rparr>, csch := s\<rparr>))))"
proof (rule contention_runs [OF inv run p])
  fix a
  assume a: "refines (csch r) a" "ainv a" "lck a = 0" "locks_ok r a" "IpcSelfId (csch r) = TaskId (tab a ! i)" "TaskId (tab a ! i) \<noteq> 0"
      "cur a = Some i" "i \<noteq> 0" "State (tab a ! i) = TaskRunning" "phase_ok (TaskId (tab a ! i)) r Resting"
    and nm: "named ids r a"
    and oth: "\<And>k q. k \<noteq> i \<Longrightarrow> lockers r k = Some q \<Longrightarrow> TaskId (tab a ! k) \<noteq> TaskId (tab a ! i) \<and> TaskId (tab a ! k) \<noteq> 0 \<and> phase_ok (TaskId (tab a ! k)) r q"
  show ?thesis
  proof (cases "Locked (cmutex r)")
    case False
    then have "IpcPark MWait put_mwait MutexIsFree (cmutex r) (csch r) = Some (Done IpcOk, cmutex r, csch r)"
      using mutex_wait.park_ready a(5,6) by (simp add: MutexIsFree_def)
    moreover have "contention_inv ids (go i Taking r)" by (rule lock_moves [OF inv run p]) (auto simp: phase_ok_def)
    ultimately show ?thesis using False p by (simp add: lock_step_def)
  next
    case True
    let ?W = "waiters (MWait (cmutex r))" and ?id = "TaskId (tab a ! i)"
    have ok: "wait_ok (MWait (cmutex r))" "finite (dom (lockers r))" "card (dom (lockers r)) \<le> 16" using a(4) by (simp_all add: locks_ok_def)
    have off: "?id \<notin> ?W" using awake_off_queue [OF a(4,2) p] by simp
    have "?W \<subseteq> (\<lambda>k. TaskId (tab a ! k)) ` (dom (lockers r) - {i})"
    proof
      fix x
      assume x: "x \<in> ?W"
      then obtain k e where k: "lockers r k = Some (Asleep e)" "x = TaskId (tab a ! k)" using a(4) unfolding locks_ok_def by blast
      then have "k \<noteq> i" using off x by auto
      with k show "x \<in> (\<lambda>k. TaskId (tab a ! k)) ` (dom (lockers r) - {i})" by blast
    qed
    then have "card ?W \<le> card (dom (lockers r) - {i})" using ok(2) surj_card_le by blast
    also have "\<dots> = card (dom (lockers r)) - 1" using ok(2) p by (intro card_Diff_singleton) auto
    finally have room: "unat (WCount (MWait (cmutex r))) < 16"
      using ok(3) wait_okD(3,5) [OF ok(1)] by (simp add: distinct_card)
    have "\<not> MutexIsFree (cmutex r)" using True by (simp add: MutexIsFree_def)
    from mutex_wait.loop_sleeps [OF a(1-3,7-9) this ok(1) room] obtain w s' where
      w: "IpcPark_loop MWait put_mwait MutexIsFree ?id (cmutex r) (csch r) = Some (Suspended (fst (SchedLockIrq (csch r))), (cmutex r)\<lparr>MWait := w\<rparr>, s')"
        "wait_ok w" "waiters w = insert ?id ?W" "refines s' (fst (ayield (ablock i a)))" by blast
    define e where "e = fst (SchedLockIrq (csch r))"
    define r' where "r' = r\<lparr>cmutex := (cmutex r)\<lparr>MWait := w\<rparr>, csch := s'\<rparr>"
    have step: "lock_step i r = Some (go i (Asleep e) r')"
      using p w(1) a(5,6) by (simp add: lock_step_def IpcPark_def r'_def e_def)
    note k = keeps_block [OF a(2,7,8,9)]
    have "phase_ok (TaskId (tab a ! k)) r' q" if k: "k \<noteq> i" "lockers r k = Some q" for k q
      using oth [OF k] by (simp add: phase_ok_def r'_def)
    then have "locks_ok (go i (Asleep e) r') a"
      using a(4) w(2,3) True by (intro locks_ok_go [OF a(4) p]) (auto simp: r'_def phase_ok_def locks_ok_def)
    then have "contention_inv ids (go i (Asleep e) r')"
      using contention_keeps [OF _ named_go [OF nm p, of r'] a(3) k, of "Asleep e" "go i (Asleep e) r'"] w(4) by (simp add: r'_def)
    then show ?thesis using step by (auto simp: r'_def)
  qed
qed

lemma lock_wakes_up:
  assumes inv: "contention_inv ids r" and run: "runs i (csch r)" and p: "lockers r i = Some (Asleep e)"
  shows "returns (lock_step i r) (\<lambda>r'. contention_inv ids r' \<and> lockers r' = (lockers r)(i \<mapsto> Resting) \<and> Locked (cmutex r') = Locked (cmutex r) \<and>
    Owner (cmutex r') = Owner (cmutex r) \<and> LockRounds r' = LockRounds r)"
proof (rule contention_runs [OF inv run p])
  fix a
  assume a: "refines (csch r) a" "ainv a" "lck a = 0" "locks_ok r a" "live a i" "phase_ok (TaskId (tab a ! i)) r (Asleep e)"
    and nm: "named ids r a"
    and oth: "\<And>k q. k \<noteq> i \<Longrightarrow> lockers r k = Some q \<Longrightarrow> TaskId (tab a ! k) \<noteq> TaskId (tab a ! i) \<and> TaskId (tab a ! k) \<noteq> 0 \<and> phase_ok (TaskId (tab a ! k)) r q"
  let ?id = "TaskId (tab a ! i)"
  have wok: "wait_ok (MWait (cmutex r))" using a(4) by (simp add: locks_ok_def)
  note rm = IpcWaitRemove_law [OF wok, of ?id]
  have id: "TaskId (task (csch r) i) = ?id"
    using refines_nth [OF a(1), of i] refines_current(1) [OF a(1,2)] a(5) by (simp add: live_def)
  define s' where "s' = SchedUnlockIrq e (snd (SchedLockIrq (csch r)))"
  define r' where "r' = r\<lparr>cmutex := (cmutex r)\<lparr>MWait := IpcWaitRemove ?id (MWait (cmutex r))\<rparr>, csch := s'\<rparr>"
  have "SchedBlockTask_resume i (SchedYield_resume False (csch r)) = Some (csch r)"
    using SchedBlockTask_resume_running [of "csch r" i] run by (simp add: SchedYield_resume_def SchedUnlockIrq_def runs_def)
  then have step: "lock_step i r = Some (go i Resting r')" using p id by (simp add: lock_step_def IpcPark_woken_def r'_def s'_def)
  have ref: "refines s' a" using a(1) by (simp add: s'_def irq_simps)
  have "phase_ok (TaskId (tab a ! k)) r' q" if k: "k \<noteq> i" "lockers r k = Some q" for k q
    using oth [OF k] by (simp add: phase_ok_def r'_def)
  then have "locks_ok (go i Resting r') a"
    using a(4,6) rm by (intro locks_ok_go [OF a(4) p]) (auto simp: r'_def phase_ok_def locks_ok_def)
  then have "contention_inv ids (go i Resting r')" using ref a(2,3) named_go [OF nm p] by (intro contention_invI [of _ a]) (simp_all add: r'_def)
  then show ?thesis using step by (simp add: r'_def)
qed

lemma lock_irq_live: "SchedLockIrq s = (e, s1) \<Longrightarrow> IpcWaitIsLive s1 x = IpcWaitIsLive s x"
  by (auto simp: SchedLockIrq_def IpcWaitIsLive_def SchedFind_def)

text \<open>Releasing: the mutex goes to a waiter, who is asleep, or becomes free.\<close>

lemma mutex_release_cases:
  assumes "Locked m" and "Owner m = IpcSelfId s" and "wait_ok (MWait m)"
  obtains (handed) x w where "mutex_release m s = (IpcOk, x, m\<lparr>MWait := w, Owner := x\<rparr>, s)" "x \<in> waiters (MWait m)" "x \<noteq> 0" "wait_ok w"
      "waiters w \<subseteq> waiters (MWait m)"
  | (free) w where "mutex_release m s = (IpcOk, 0, m\<lparr>MWait := w, Locked := False, Owner := 0\<rparr>, s)" "wait_ok w" "waiters w = {}"
      "\<forall>x \<in> waiters (MWait m). \<not> IpcWaitIsLive s x"
proof -
  obtain e s1 where lk: "SchedLockIrq s = (e, s1)" by fastforce
  note eq = irq_roundtripD [OF lk] lock_irq_self [OF lk]
  show thesis
  proof (cases rule: IpcWaitTakeLive_cases [OF assms(3), of s1])
    case (1 x w)
    then show thesis using assms(1,2) by (intro handed [of x w]) (auto simp: mutex_release_def lk eq)
  next
    case (2 w)
    moreover have "IpcWaitIsLive s1 x = IpcWaitIsLive s x" for x using lock_irq_live [OF lk] by simp
    ultimately show thesis using assms(1,2) by (intro free [of w]) (auto simp: mutex_release_def lk eq)
  qed
qed

lemma lock_releases:
  assumes inv: "contention_inv ids r" and run: "runs i (csch r)" and p: "lockers r i = Some Releasing"
  shows "returns (lock_step i r) (contention_inv ids)"
proof (rule contention_runs [OF inv run p])
  fix a
  assume a: "refines (csch r) a" "ainv a" "lck a = 0" "locks_ok r a" "IpcSelfId (csch r) = TaskId (tab a ! i)" "TaskId (tab a ! i) \<noteq> 0"
      "phase_ok (TaskId (tab a ! i)) r Releasing"
    and nm: "named ids r a"
    and oth: "\<And>k q. k \<noteq> i \<Longrightarrow> lockers r k = Some q \<Longrightarrow> TaskId (tab a ! k) \<noteq> TaskId (tab a ! i) \<and> TaskId (tab a ! k) \<noteq> 0 \<and> phase_ok (TaskId (tab a ! k)) r q"
  let ?m = "cmutex r" and ?id = "TaskId (tab a ! i)"
  have own: "Owner ?m = ?id" "Locked ?m" using a(4,6,7) by (auto simp: phase_ok_def locks_ok_def)
  have ok: "wait_ok (MWait ?m)" "LockBad r = 0" using a(4) by (simp_all add: locks_ok_def)
  have off: "?id \<notin> waiters (MWait ?m)" using awake_off_queue [OF a(4,2) p] by simp
  have "Owner ?m = IpcSelfId (csch r)" using own(1) a(5) by simp
  from own(2) this ok(1) show ?thesis
  proof (cases rule: mutex_release_cases)
    case (handed x w)
    obtain k e where k: "lockers r k = Some (Asleep e)" "x = TaskId (tab a ! k)" using handed(2) a(4) unfolding locks_ok_def by blast
    define r' where "r' = r\<lparr>cmutex := ?m\<lparr>MWait := w, Owner := x\<rparr>\<rparr>"
    have dist: "x \<noteq> TaskId (tab a ! l)" if l: "lockers r l = Some q" "outside q" for l q
    proof
      assume "x = TaskId (tab a ! l)"
      moreover have "live a l" "live a k" using a(4) l(1) k(1) by (simp_all add: locks_ok_def)
      ultimately have "l = k" using ids_distinct [OF a(2)] k(2) by metis
      then show False using k(1) l by auto
    qed
    have "phase_ok (TaskId (tab a ! l)) r' q" if l: "l \<noteq> i" "lockers r l = Some q" for l q
      using oth [OF l] dist [OF l(2)] own(1) by (auto simp: phase_ok_def r'_def)
    moreover have "x \<noteq> ?id" using handed(2) off by auto
    ultimately have "locks_ok (go i (Handing x) r') a"
      using ok handed off own(2) by (intro locks_ok_go [OF a(4) p]) (auto simp: r'_def phase_ok_def)
    then have "contention_inv ids (go i (Handing x) r')" using a(1-3) named_go [OF nm p] by (intro contention_invI [of _ a]) (simp_all add: r'_def)
    then show ?thesis using p handed(1,3) by (simp add: lock_step_def r'_def)
  next
    case (free w)
    define r' where "r' = r\<lparr>cmutex := ?m\<lparr>MWait := w, Locked := False, Owner := 0\<rparr>\<rparr>"
    have "phase_ok (TaskId (tab a ! l)) r' q" if l: "l \<noteq> i" "lockers r l = Some q" for l q
      using oth [OF l] own(1) by (auto simp: phase_ok_def r'_def)
    then have "locks_ok (go i Top r') a"
      using ok free a(6) by (intro locks_ok_go [OF a(4) p]) (auto simp: r'_def phase_ok_def)
    then have "contention_inv ids (go i Top r')" using a(1-3) named_go [OF nm p] by (intro contention_invI [of _ a]) (simp_all add: r'_def)
    then show ?thesis using p free(1) by (simp add: lock_step_def r'_def)
  qed
qed

lemma lock_hands:
  assumes inv: "contention_inv ids r" and run: "runs i (csch r)" and p: "lockers r i = Some (Handing x)"
  shows "returns (lock_step i r) (contention_inv ids)"
proof -
  have mv: "contention_inv ids (go i Top r)" by (rule lock_moves [OF inv run p]) (auto simp: phase_ok_def)
  then obtain a where a: "refines (csch r) a" "ainv a" "lck a = 0" "named ids (go i Top r) a" "locks_ok (go i Top r) a"
    by (auto simp: contention_inv_def)
  obtain s' where s': "SchedWakeTask x (csch r) = Some s'" "refines s' (awake_task x a)"
    using SchedWakeTask_sim [OF a(1,2), of x] by (auto simp: returns_def)
  have "contention_inv ids (go i Top (r\<lparr>csch := s'\<rparr>))"
    using contention_keeps [OF a(5,4,3) keeps_wake [OF a(2), of x], of "go i Top (r\<lparr>csch := s'\<rparr>)"] s'(2) by (simp add: go_def)
  then show ?thesis using p s'(1) by (simp add: lock_step_def)
qed

subsection \<open>Every step\<close>

lemma lock_step_inv:
  assumes inv: "contention_inv ids r" and run: "runs i (csch r)" and p: "lockers r i = Some ph" "ph \<noteq> Gone"
  shows "returns (lock_step i r) (contention_inv ids)"
proof -
  note mv = lock_moves [OF inv run p(1)]
  have bad: "LockBad r = 0" using inv by (auto simp: contention_inv_def locks_ok_def)
  have mine: "phase_ok (IpcSelfId (csch r)) r ph" "IpcSelfId (csch r) \<noteq> 0" "\<not> Locked (cmutex r) \<longrightarrow> Owner (cmutex r) = 0"
    using contention_runs [OF inv run p(1)] by (metis, metis, metis locks_ok_def)
  show ?thesis
  proof (cases ph)
    case Top
    then show ?thesis using p mv [of Asking r] mv [of Gone r] by (auto simp: lock_step_def phase_ok_def)
  next
    case Asking
    then show ?thesis using p mv [of Comparing r] mv [of Taking r] by (auto simp: lock_step_def phase_ok_def)
  next
    case Comparing
    then show ?thesis using p mine mv [of Taking r] by (auto simp: lock_step_def phase_ok_def)
  next
    case AskingAgain
    then show ?thesis using p mv [of ComparingAgain r] mv [of Resting r] by (auto simp: lock_step_def phase_ok_def)
  next
    case ComparingAgain
    then show ?thesis using p mv [of Reading r] mv [of Resting r] by (auto simp: lock_step_def phase_ok_def)
  next
    case Reading
    then show ?thesis using p mv [of "Writing (LockRounds r)" r] by (auto simp: lock_step_def phase_ok_def)
  next
    case (Writing seen)
    then show ?thesis using p mv [of "Testing seen" "r\<lparr>LockRounds := seen + 1\<rparr>"] by (auto simp: lock_step_def phase_ok_def)
  next
    case (Testing seen)
    then show ?thesis using p mine mv [of Releasing r] by (auto simp: lock_step_def phase_ok_def)
  next
    case (Handing x)
    then show ?thesis using lock_hands [OF inv run] p by simp
  next
    case (Asleep e)
    then show ?thesis using lock_wakes_up [OF inv run, of e] p by (auto elim: returns_weaken)
  next
    case Resting
    then show ?thesis using lock_rests [OF inv run] p by (auto elim: returns_weaken)
  qed (use p lock_takes [OF inv run] lock_releases [OF inv run] in simp_all)
qed

lemma lock_step_phase:
  assumes "lock_step i r = Some r'"
  obtains ph where "lockers r i = Some ph" and "ph \<noteq> Gone"
proof -
  have "lock_step i r = None" if "lockers r i = None \<or> lockers r i = Some Gone" using that by (auto simp: lock_step_def)
  with assms that show thesis by (cases "lockers r i") auto
qed

lemma contention_step_inv:
  assumes "contention_step r r'" and inv: "contention_inv ids r"
  shows "contention_inv ids r'"
  using assms(1)
proof cases
  case (step i)
  from lock_step_phase [OF step(2)] obtain ph where "lockers r i = Some ph" "ph \<noteq> Gone" .
  then show ?thesis using lock_step_inv [OF inv step(1)] step(2) by simp
next
  case (event s)
  obtain a where a: "refines (csch r) a" "ainv a" "lck a = 0" "named ids r a" "locks_ok r a" using inv by (auto simp: contention_inv_def)
  then obtain b where b: "refines s b" "keeps {} a b" using sched_event_keeps [OF event(2)] by blast
  then show ?thesis using contention_keeps [OF a(5,4,3) b(2), of r'] by (simp add: event(1))
next
  case stop
  then show ?thesis using inv by (auto simp: contention_inv_def named_def locks_ok_def phase_ok_def)
qed

lemma contention_reach_inv: "contention_step\<^sup>*\<^sup>* r r' \<Longrightarrow> contention_inv ids r \<Longrightarrow> contention_inv ids r'"
  by (induction rule: rtranclp_induct) (simp_all add: contention_step_inv)

subsection \<open>Setting up\<close>

definition lock_test_ready :: "IpcMutex \<Rightarrow> sched \<Rightarrow> bool" where
  "lock_test_ready mutex s \<longleftrightarrow> sched_inv s \<and> SchedulerLocked s = 0 \<and> unat (TaskCountValue s) \<le> 30 \<and> unat (NextTaskId s) < 4294967294 \<and>
     length (Ids (MWait mutex)) = 16"

lemma contention_setup_inv:
  assumes "lock_test_ready mutex s"
  obtains r ids where "contention_setup stub entry sa sb mutex s = Some (Inr r)" and "contention_inv ids r" and "card (dom (lockers r)) = 2"
proof -
  have ready: "sched_inv s" "SchedulerLocked s = 0" "unat (TaskCountValue s) \<le> 30" "unat (NextTaskId s) < 4294967294"
    using assms by (simp_all add: lock_test_ready_def)
  obtain i j s1 s2 c where c: "SchedCreate stub (Some (ascii ''LockA'')) entry sa s = Some (Some j, s1)"
      "SchedCreate stub (Some (ascii ''LockB'')) entry sb s1 = Some (Some i, s2)" "refines s2 c" "ainv c" "lck c = 0" "live c i" "live c j"
      "i \<noteq> 0" "j \<noteq> 0" "i \<noteq> j"
    by (rule create_pair [OF ready, where stub = stub and ?n1.0 = "ascii ''LockA''" and ?e1.0 = entry and ?t1.0 = sa
          and ?n2.0 = "ascii ''LockB''" and ?e2.0 = entry and ?t2.0 = sb])
  let ?m = "mutex\<lparr>Locked := False, Owner := 0, MWait := wait_reset (MWait mutex)\<rparr>"
  define r where "r = \<lparr>csch = s2, cmutex = ?m, lockers = [j \<mapsto> Top, i \<mapsto> Top], LockRounds = 0, LockStop = 0, LockBad = 0\<rparr>"
  have dom: "dom (lockers r) = {i, j}" by (auto simp: r_def)
  have w: "wait_ok (MWait ?m)" "waiters (MWait ?m) = {}"
    using wait_reset_law [of "MWait mutex"] assms by (simp_all add: lock_test_ready_def IpcMaxWaiters_def)
  have z: "TaskId (tab c ! i) \<noteq> 0" "TaskId (tab c ! j) \<noteq> 0" using zero_id_idle [OF ainvD(3) [OF c(4)]] c(6-9) by auto
  have "k \<noteq> 0 \<and> live c k \<and> phase_ok (TaskId (tab c ! k)) r ph" if "lockers r k = Some ph" for k ph
    using that c(6-9) z by (auto simp: r_def phase_ok_def split: if_splits)
  then have "locks_ok r c" using w c(10) dom by (simp add: locks_ok_def) (simp add: r_def)
  then have "contention_inv (\<lambda>k. TaskId (tab c ! k)) r" using c(3-5) by (intro contention_invI [of _ c]) (simp_all add: r_def named_def)
  moreover have "contention_setup stub entry sa sb mutex s = Some (Inr r)"
    using c(1,2) by (simp add: contention_setup_def MutexInit_def r_def)
  moreover have "card (dom (lockers r)) = 2" using dom c(10) by simp
  ultimately show thesis by (intro that)
qed

subsection \<open>Hand-over to a sleeping task\<close>

text \<open>The mutex belongs to task \<open>y\<close>, which is parked or about to park again.\<close>

fun waits :: "lock_phase \<Rightarrow> bool" where
  "waits Resting = True" | "waits (Asleep e) = True" | "waits ph = False"

definition handed :: "(nat \<Rightarrow> u32) \<Rightarrow> nat \<Rightarrow> contention \<Rightarrow> bool" where
  "handed ids y r \<longleftrightarrow> Locked (cmutex r) \<and> Owner (cmutex r) = ids y \<and> (case lockers r y of None \<Rightarrow> False | Some q \<Rightarrow> waits q)"

text \<open>Only the owner enters or leaves the critical section.\<close>

lemma handed_step:
  assumes inv: "contention_inv ids r" and h: "handed ids y r" and run: "runs i (csch r)" and step: "lock_step i r = Some r'"
  shows "handed ids y r' \<and> LockRounds r' = LockRounds r"
proof -
  obtain p where p: "lockers r i = Some p" "p \<noteq> Gone" by (rule lock_step_phase [OF step])
  have lk: "Locked (cmutex r)" "Owner (cmutex r) = ids y" using h by (simp_all add: handed_def)
  have rest: ?thesis if "p = Resting"
    using lock_rests [OF inv run] p(1) that step lk(1) h by (auto simp: handed_def)
  have wake: ?thesis if "p = Asleep e" for e
    using lock_wakes_up [OF inv run, of e] p(1) that step h by (auto simp: handed_def)
  show ?thesis
  proof (cases "i = y")
    case True
    then have "waits p" using h p(1) by (simp add: handed_def)
    then show ?thesis using rest wake by (cases p) simp_all
  next
    case False
    obtain q where y: "lockers r y = Some q" using h by (auto simp: handed_def split: option.splits)
    have id: "IpcSelfId (csch r) = ids i" "ids y \<noteq> ids i" "critical p \<Longrightarrow> Owner (cmutex r) = ids i"
    proof -
      obtain a where a: "named ids r a" "IpcSelfId (csch r) = TaskId (tab a ! i)" "phase_ok (TaskId (tab a ! i)) r p"
          "TaskId (tab a ! y) \<noteq> TaskId (tab a ! i)" using contention_runs [OF inv run p(1)] False y by metis
      then show "IpcSelfId (csch r) = ids i" "ids y \<noteq> ids i" "critical p \<Longrightarrow> Owner (cmutex r) = ids i"
        using p(1) y by (simp_all add: named_def phase_ok_def)
    qed
    then have nc: "\<not> critical p" using lk(2) by auto
    show ?thesis
    proof (cases p)
      case (Handing x)
      obtain s where "SchedWakeTask x (csch r) = Some s" using step p(1) Handing by (cases "SchedWakeTask x (csch r)") (simp_all add: lock_step_def)
      then show ?thesis using step p(1) Handing h False by (auto simp: lock_step_def handed_def)
    qed (use step p rest wake nc h False lk id in \<open>auto simp: lock_step_def MutexTryLock_at_eq handed_def split: if_splits\<close>)
  qed
qed

lemma handed_forever:
  assumes "contention_step\<^sup>*\<^sup>* r r'" and "contention_inv ids r" and "handed ids y r"
  shows "handed ids y r' \<and> LockRounds r' = LockRounds r"
  using assms(1)
proof (induction rule: rtranclp_induct)
  case (step r1 r2)
  have inv: "contention_inv ids r1" by (rule contention_reach_inv [OF step(1) assms(2)])
  have h: "handed ids y r1" using step.IH by simp
  from step(2) have "handed ids y r2 \<and> LockRounds r2 = LockRounds r1"
  proof cases
    case (step i)
    then show ?thesis by (intro handed_step [OF inv h])
  qed (use h in \<open>simp_all add: handed_def\<close>)
  then show ?case using step.IH by simp
qed (use assms(3) in simp)

text \<open>An unlock while somebody waits hands the mutex over.\<close>

lemma contended_release:
  assumes inv: "contention_inv ids r" and run: "runs i (csch r)" and p: "lockers r i = Some Releasing"
    and w: "waiters (MWait (cmutex r)) \<noteq> {}" and step: "lock_step i r = Some r'"
  shows "\<exists>y. handed ids y r' \<and> LockRounds r' = LockRounds r"
proof (rule contention_runs [OF inv run p])
  fix a
  assume a: "refines (csch r) a" "ainv a" "locks_ok r a" "named ids r a" "IpcSelfId (csch r) = TaskId (tab a ! i)" "TaskId (tab a ! i) \<noteq> 0"
    "phase_ok (TaskId (tab a ! i)) r Releasing"
  have own: "Owner (cmutex r) = IpcSelfId (csch r)" "Locked (cmutex r)" using a(3,5-7) by (auto simp: phase_ok_def locks_ok_def)
  have ok: "wait_ok (MWait (cmutex r))" using a(3) by (simp add: locks_ok_def)
  have sleeper: "\<exists>k e. lockers r k = Some (Asleep e) \<and> x = TaskId (tab a ! k) \<and> live a k" if "x \<in> waiters (MWait (cmutex r))" for x
    using a(3) that unfolding locks_ok_def by metis
  from own(2,1) ok show ?thesis
  proof (cases rule: mutex_release_cases)
    case (handed x v)
    obtain k e where k: "lockers r k = Some (Asleep e)" "x = TaskId (tab a ! k)" using sleeper [OF handed(2)] by blast
    moreover have "x = ids k" using k a(4) by (simp add: named_def)
    moreover have "r' = go i (Handing x) (r\<lparr>cmutex := (cmutex r)\<lparr>MWait := v, Owner := x\<rparr>\<rparr>)"
      using step p handed(1,3) by (simp add: lock_step_def)
    ultimately show ?thesis using p own(2) by (intro exI [of _ k]) (auto simp: handed_def)
  next
    case (free v)
    obtain x where x: "x \<in> waiters (MWait (cmutex r))" using ex_in_conv [THEN iffD2, OF w] by (elim exE)
    then obtain k where "x = TaskId (tab a ! k)" "live a k" using sleeper by blast
    moreover have "x \<noteq> 0" using x ok by (auto simp: wait_ok_def)
    ultimately have "IpcWaitIsLive (csch r) x" using live_sim [OF a(1,2)] by blast
    with free(4) x show ?thesis by blast
  qed
qed

subsection \<open>Properties\<close>

lemma one_critical:
  assumes "contention_inv ids r" and "lockers r i = Some p" "critical p" and "lockers r j = Some q" "critical q"
  shows "i = j"
proof -
  obtain a where a: "ainv a" "locks_ok r a" using assms(1) by (auto simp: contention_inv_def)
  have held: "live a k \<and> Owner (cmutex r) = TaskId (tab a ! k)" if "lockers r k = Some ph" "critical ph" for k ph
    using a(2) that by (simp add: locks_ok_def phase_ok_def)
  have "live a i" "live a j" "TaskId (tab a ! i) = TaskId (tab a ! j)" using held [OF assms(2,3)] held [OF assms(4,5)] by simp_all
  then show ?thesis using ids_distinct [OF a(1)] by metis
qed

text \<open>
  C10: the mutex excludes. From a scheduler in order with two free slots the setup of the contention test succeeds, and in every state that its
  two tasks reach, under any interleaving of their sections with timer ticks, wakeups, preemptions and yields, at most one
  task is inside the critical section, no overlap and no failed lock has been counted, and every task that runs and is not done can take its
  next step.
\<close>

theorem lock_mutual_exclusion:
  assumes "lock_test_ready mutex s"
  shows "\<exists>r. contention_setup stub entry sa sb mutex s = Some (Inr r) \<and> card (dom (lockers r)) = 2 \<and>
    (\<forall>r'. contention_step\<^sup>*\<^sup>* r r' \<longrightarrow> LockBad r' = 0 \<and>
       (\<forall>i j p q. lockers r' i = Some p \<and> critical p \<and> lockers r' j = Some q \<and> critical q \<longrightarrow> i = j) \<and>
       (\<forall>i p. runs i (csch r') \<and> lockers r' i = Some p \<and> p \<noteq> Gone \<longrightarrow> lock_step i r' \<noteq> None))"
proof -
  obtain r ids where r: "contention_setup stub entry sa sb mutex s = Some (Inr r)" "contention_inv ids r" "card (dom (lockers r)) = 2"
    by (rule contention_setup_inv [OF assms])
  have "LockBad r' = 0 \<and> (\<forall>i j p q. lockers r' i = Some p \<and> critical p \<and> lockers r' j = Some q \<and> critical q \<longrightarrow> i = j) \<and>
      (\<forall>i p. runs i (csch r') \<and> lockers r' i = Some p \<and> p \<noteq> Gone \<longrightarrow> lock_step i r' \<noteq> None)"
    if "contention_step\<^sup>*\<^sup>* r r'" for r'
  proof -
    have inv: "contention_inv ids r'" by (rule contention_reach_inv [OF that r(2)])
    then have "LockBad r' = 0" by (auto simp: contention_inv_def locks_ok_def)
    moreover have "lock_step i r' \<noteq> None" if "runs i (csch r')" "lockers r' i = Some p" "p \<noteq> Gone" for i p
      using lock_step_inv [OF inv that] by (auto simp: returns_def)
    ultimately show ?thesis using one_critical [OF inv] by blast
  qed
  with r(1,3) show ?thesis by blast
qed

theorem lock_mutual_exclusion_witness:
  "\<exists>r. contention_setup 0x100000 0x101000 0x200000 0x210000 \<lparr>Locked = True, Owner = 7, MWait = blank_wait\<rparr> demo = Some (Inr r) \<and>
     (\<forall>r'. contention_step\<^sup>*\<^sup>* r r' \<longrightarrow> LockBad r' = 0)"
proof -
  have "lock_test_ready \<lparr>Locked = True, Owner = 7, MWait = blank_wait\<rparr> demo"
    using demo_inv by (simp add: lock_test_ready_def blank_wait_def)
  from lock_mutual_exclusion [OF this, of "0x100000" "0x101000" "0x200000" "0x210000"] show ?thesis by blast
qed

text \<open>
  C11: an unlock while another task waits is the last one. When the holder releases the mutex and the wait queue is not empty, the mutex
  is handed to a task that is asleep, and that task never takes it: \<^verbatim>\<open>IpcPark\<close> returns only when the mutex is free. From
  then on, whatever the tasks and the scheduler do, nobody is in the critical section and the counter of rounds never changes
  again.
\<close>

theorem contended_unlock_is_last:
  assumes inv: "contention_inv ids r" and run: "runs i (csch r)" and p: "lockers r i = Some Releasing" and w: "waiters (MWait (cmutex r)) \<noteq> {}"
  shows "\<exists>r'. lock_step i r = Some r' \<and> (\<forall>r''. contention_step\<^sup>*\<^sup>* r' r'' \<longrightarrow> LockRounds r'' = LockRounds r \<and>
    (\<forall>k q. lockers r'' k = Some q \<longrightarrow> \<not> critical q))"
proof -
  obtain r' where r': "lock_step i r = Some r'" "contention_inv ids r'" using lock_releases [OF inv run p] by (auto simp: returns_def)
  obtain y where y: "handed ids y r'" "LockRounds r' = LockRounds r" using contended_release [OF inv run p w r'(1)] by blast
  have "LockRounds r'' = LockRounds r \<and> (\<forall>k q. lockers r'' k = Some q \<longrightarrow> \<not> critical q)" if reach: "contention_step\<^sup>*\<^sup>* r' r''" for r''
  proof -
    have h: "handed ids y r''" "LockRounds r'' = LockRounds r'" using handed_forever [OF reach r'(2) y(1)] by simp_all
    obtain a where a: "ainv a" "named ids r'' a" "locks_ok r'' a"
      using contention_reach_inv [OF reach r'(2)] by (auto simp: contention_inv_def)
    obtain ph where ph: "lockers r'' y = Some ph" "waits ph" "Owner (cmutex r'') = ids y" using h(1) by (auto simp: handed_def split: option.splits)
    have "\<not> critical q" if k: "lockers r'' k = Some q" for k q
    proof
      assume "critical q"
      then have "Owner (cmutex r'') = TaskId (tab a ! k)" "live a k" "live a y" "TaskId (tab a ! y) = ids y"
        using a(2,3) k ph(1) by (auto simp: locks_ok_def phase_ok_def named_def)
      then have "k = y" using ids_distinct [OF a(1)] ph(3) by metis
      then show False using k ph(1,2) \<open>critical q\<close> by (cases q) auto
    qed
    then show ?thesis using h(2) y(2) by simp
  qed
  with r'(1) show ?thesis by blast
qed

text \<open>Task 1 is about to unlock, task 3 waits.\<close>

definition demo_contention :: contention where
  "demo_contention = \<lparr>csch = demo, cmutex = \<lparr>Locked = True, Owner = 1, MWait = \<lparr>Ids = 3 # replicate 15 0, WCount = 1\<rparr>\<rparr>,
     lockers = [1 \<mapsto> Releasing, 3 \<mapsto> Asleep True], LockRounds = 5, LockStop = 0, LockBad = 0\<rparr>"

lemma demo_contention_inv: "contention_inv (\<lambda>k. TaskId (tab ademo ! k)) demo_contention"
proof (rule contention_invI [of _ ademo])
  show "refines (csch demo_contention) ademo" "ainv ademo" "lck ademo = 0" using demo_refines ademo_inv by (simp_all add: demo_contention_def)
  show "named (\<lambda>k. TaskId (tab ademo ! k)) demo_contention ademo" by (simp add: named_def)
  have "dom (lockers demo_contention) = {1, 3}" by (auto simp: demo_contention_def)
  moreover have "k \<noteq> 0 \<and> live ademo k \<and> phase_ok (TaskId (tab ademo ! k)) demo_contention ph" if "lockers demo_contention k = Some ph" for k ph
    using that by (auto simp: demo_contention_def live_def phase_ok_def split: if_splits)
  moreover have "waiters (MWait (cmutex demo_contention)) = {3}" "wait_ok (MWait (cmutex demo_contention))"
    by (simp_all add: demo_contention_def entries_def wait_ok_def IpcMaxWaiters_def)
  moreover have "lockers demo_contention 3 = Some (Asleep True)" "TaskId (tab ademo ! 3) = 3" by (simp_all add: demo_contention_def)
  moreover have "LockBad demo_contention = 0" "Locked (cmutex demo_contention)" by (simp_all add: demo_contention_def)
  ultimately show "locks_ok demo_contention ademo" by (auto simp: locks_ok_def)
qed

theorem contended_unlock_is_last_witness:
  "\<exists>r'. lock_step 1 demo_contention = Some r' \<and> (\<forall>r''. contention_step\<^sup>*\<^sup>* r' r'' \<longrightarrow> LockRounds r'' = 5)"
proof -
  have "runs 1 (csch demo_contention)" "lockers demo_contention 1 = Some Releasing" "waiters (MWait (cmutex demo_contention)) \<noteq> {}"
    by (simp_all add: runs_def demo_contention_def entries_def)
  from contended_unlock_is_last [OF demo_contention_inv this] show ?thesis by (simp add: demo_contention_def) blast
qed

end
