(* ===== verification/Selftest.thy ===== *)
theory Selftest
  imports Boot_Props Contention_Props
begin

text \<open>
  The self tests of the inter-process communication in \<^verbatim>\<open>ipc_test_tasks\<close> of \<^verbatim>\<open>src/init/main.c\<close> that the idle task runs by
  itself: the reports on the rendezvous of theory \<open>Rendezvous\<close> and on the contention of theory \<open>Contention\<close>, the semaphore, the mutex, and claiming and releasing the
  port. The conditions of the chains of \<^verbatim>\<open>if\<close> statements call the functions under test, so a condition is a function that also
  returns the state after it; \<open>orelse\<close> is the operator \<^verbatim>\<open>||\<close> and \<open>chain\<close> the chain. A call that puts its caller to sleep has not
  returned: it has no result here.
\<close>

record selftest =
  tsys :: system
  TestSem :: IpcSemaphore
  TestMutex :: IpcMutex
  tport :: IpcPort


abbreviation tsch :: "selftest \<Rightarrow> sched" where
  "tsch t \<equiv> sch (krn (tsys t))"

definition put_sch :: "sched \<Rightarrow> selftest \<Rightarrow> selftest" where
  "put_sch s t = t\<lparr>tsys := (tsys t)\<lparr>krn := (krn (tsys t))\<lparr>sch := s\<rparr>\<rparr>\<rparr>"





subsection \<open>Semaphore and mutex\<close>







subsection \<open>The report on the rendezvous\<close>


subsection \<open>The report on the contention\<close>

definition IPC_TEST_ROUNDS :: u32 where
  "IPC_TEST_ROUNDS = 50"

definition contention_report :: "contention \<Rightarrow> system \<Rightarrow> system option" where
  "contention_report r s =
     (if LockBad r \<noteq> 0 then say (line ''ERROR: mutex let %u tasks into the critical section at once.'') [IntArg (LockBad r)] s
      else if LockRounds r < IPC_TEST_ROUNDS
      then say (line ''ERROR: mutex contention stalled at %u of %u rounds.'') [IntArg (LockRounds r), IntArg IPC_TEST_ROUNDS] s
      else say (line ''OK: %u rounds of contention on one mutex, no overlap.'') [IntArg (LockRounds r)] s)"

subsection \<open>The calls, made by the idle task\<close>






subsection \<open>The tests\<close>

lemma put_sch_same [simp]: "tsys u = tsys t \<Longrightarrow> put_sch (tsch t) u = u"
  by (simp add: put_sch_def)












subsection \<open>Properties\<close>






end
