(* ===== verification/Shell.thy ===== *)
theory Shell
  imports Selftest
begin

text \<open>
  The end of \<^verbatim>\<open>kernel_main\<close> and the tasks it leaves running, \<^verbatim>\<open>src/init/main.c\<close>: the shell, which echoes what is typed, the
  worker, and the loop of the idle task. Their endless loops are given by one turn. A turn of the shell
  yields when \<^verbatim>\<open>keyboard_getchar\<close> returns a negative number; no key of the tables is one (\<open>decode_positive\<close>).
\<close>

subsection \<open>The tasks\<close>





definition worker_turn :: "kernel \<Rightarrow> (kernel \<times> bool) option" where
  "worker_turn k = do { (s, switched) \<leftarrow> SchedYield (sch k); Some (k\<lparr>sch := s\<rparr>, switched) }"

text \<open>The loop of the idle task: when the yield switches away, the rest of the turn follows when the task runs again.\<close>

definition idle_turn :: "device \<Rightarrow> registers list \<Rightarrow> kernel \<Rightarrow> (kernel \<times> registers list \<times> bool) option" where
  "idle_turn dev irqs k =
     do { (s, switched) \<leftarrow> SchedYield (sch k);
          let k = k\<lparr>sch := s\<rparr>;
          if switched then Some (k, irqs, True) else cpu_hlt dev irqs k }"

text \<open>The last statements of \<^verbatim>\<open>kernel_main\<close> before its loop.\<close>

definition start_tasks :: "u32 \<Rightarrow> u32 \<Rightarrow> u32 \<Rightarrow> u32 \<Rightarrow> u32 \<Rightarrow> system \<Rightarrow> system option" where
  "start_tasks stub worker_entry worker_stack shell_entry shell_stack s =
     do { s \<leftarrow> say [10] [] s;
          (_, q) \<leftarrow> SchedCreate stub (Some (ascii ''Worker'')) worker_entry worker_stack (sch (krn s));
          (_, q) \<leftarrow> SchedCreate stub (Some (ascii ''Shell'')) shell_entry shell_stack q;
          Some (s\<lparr>krn := (krn s)\<lparr>sch := q\<rparr>\<rparr>) }"

subsection \<open>What the shell shows\<close>











subsection \<open>Starting the tasks\<close>

text \<open>With room for two more tasks, the worker and the shell are created and ready, and the idle task goes on.\<close>

lemma tasks_started:
  assumes "printed m0 text s0 s" and "sched_inv (sch (krn s))" and "SchedulerLocked (sch (krn s)) = 0"
    and "unat (TaskCountValue (sch (krn s))) \<le> 30" and "unat (NextTaskId (sch (krn s))) < 4294967294"
  shows "returns (start_tasks stub we ws se ss s) (\<lambda>s'. sched_inv (sch (krn s')) \<and>
    (\<exists>i j. i \<noteq> 0 \<and> j \<noteq> 0 \<and> i \<noteq> j \<and> State (task (sch (krn s')) i) = TaskReady \<and> State (task (sch (krn s')) j) = TaskReady))"
proof -
  obtain s1 where s1: "say [10] [] s = Some s1" "printed m0 (text @ [10]) s0 s1" using say_printed [OF assms(1), of "[10]"] by auto
  have q: "sch (krn s1) = sch (krn s)" using s1(2) assms(1) by (simp add: printed_def)
  obtain i j q1 q2 c where c: "SchedCreate stub (Some (ascii ''Worker'')) we ws (sch (krn s)) = Some (Some j, q1)"
      "SchedCreate stub (Some (ascii ''Shell'')) se ss q1 = Some (Some i, q2)" "refines q2 c" "ainv c" "Sched_Spec.live c i" "Sched_Spec.live c j" "i \<noteq> 0" "j \<noteq> 0" "i \<noteq> j"
      "State (tab c ! i) = TaskReady" "State (tab c ! j) = TaskReady"
    by (rule create_pair [OF assms(2-5), where stub = stub and ?n1.0 = "ascii ''Worker''" and ?e1.0 = we and ?t1.0 = ws
          and ?n2.0 = "ascii ''Shell''" and ?e2.0 = se and ?t2.0 = ss])
  have st: "State (task q2 k) = State (tab c ! k)" if "Sched_Spec.live c k" for k
    using refines_nth [OF c(3), of k] refines_current(1) [OF c(3,4)] that by (simp add: Sched_Spec.live_def)
  have "State (task q2 i) = TaskReady" "State (task q2 j) = TaskReady" using st [OF c(5)] st [OF c(6)] c(10,11) by simp_all
  then have "\<exists>i j. i \<noteq> 0 \<and> j \<noteq> 0 \<and> i \<noteq> j \<and> State (task q2 i) = TaskReady \<and> State (task q2 j) = TaskReady" using c(7-9) by blast
  with c(1,2) sched_invI [OF c(3,4)] s1(1) q show ?thesis by (simp add: start_tasks_def)
qed

subsection \<open>Properties\<close>



end
