(* ===== verification/Isr_Entry.thy ===== *)
theory Isr_Entry
  imports Irq_Props
begin

text \<open>
  The entry to and the return from an interrupt, \<^verbatim>\<open>src/arch/x86_32/kernel/isr.S\<close>, instruction by instruction: the stubs of the
  48 vectors, the part they share, and \<^verbatim>\<open>stub_placeholder\<close> of \<^verbatim>\<open>src/arch/x86_32/kernel/irq.c\<close>, which serves the other vectors. The
  record \<open>machine\<close> adds to the processor of theory \<open>Cpu\<close> the registers that a C function may change and the segment
  selectors. What the processor itself does when an interrupt arrives and on \<^verbatim>\<open>iret\<close> (within one privilege level) is
  \<open>interrupt_gate\<close> and \<open>iret\<close>. The arithmetic flags that \<^verbatim>\<open>addl\<close> sets are not followed: \<^verbatim>\<open>iret\<close> loads all flags right after.

  The C function that the shared part calls is compiled code: \<open>cdecl\<close> is what the calling convention says of it. With it an
  interrupt is invisible to the code it interrupts, and the function gets the registers of that code as the record that
  \<^verbatim>\<open>isr_dispatch\<close> of theory \<open>Irq\<close> works on.
\<close>

record machine = cpu +
  eax :: u32
  ecx :: u32
  edx :: u32
  seg_cs :: u16
  seg_ds :: u16
  seg_es :: u16
  seg_fs :: u16
  seg_gs :: u16

type_synonym state = "machine \<times> memory"

subsection \<open>Instructions\<close>

definition pushl :: "u32 \<Rightarrow> state \<Rightarrow> state" where
  "pushl v = (\<lambda>(c, m). (c\<lparr>esp := esp c - 4\<rparr>, m(esp c - 4 := v)))"

text \<open>\<^verbatim>\<open>pop\<close> into the register that \<open>put\<close> writes.\<close>

definition popl :: "(u32 \<Rightarrow> machine \<Rightarrow> machine) \<Rightarrow> state \<Rightarrow> state" where
  "popl put = (\<lambda>(c, m). (put (m (esp c)) (c\<lparr>esp := esp c + 4\<rparr>), m))"

definition addl_esp :: "u32 \<Rightarrow> state \<Rightarrow> state" where
  "addl_esp n = (\<lambda>(c, m). (c\<lparr>esp := esp c + n\<rparr>, m))"

text \<open>\<^verbatim>\<open>pusha\<close> pushes the stack pointer as it was before; \<^verbatim>\<open>popa\<close> skips it.\<close>

definition pusha :: "state \<Rightarrow> state" where
  "pusha s = (let c = fst s in
     pushl (edi c) (pushl (esi c) (pushl (ebp c) (pushl (esp c) (pushl (ebx c) (pushl (edx c) (pushl (ecx c) (pushl (eax c) s))))))))"

definition popa :: "state \<Rightarrow> state" where
  "popa s = popl (\<lambda>v. eax_update (\<lambda>_. v)) (popl (\<lambda>v. ecx_update (\<lambda>_. v)) (popl (\<lambda>v. edx_update (\<lambda>_. v)) (popl (\<lambda>v. ebx_update (\<lambda>_. v))
     (addl_esp 4 (popl (\<lambda>v. ebp_update (\<lambda>_. v)) (popl (\<lambda>v. esi_update (\<lambda>_. v)) (popl (\<lambda>v. edi_update (\<lambda>_. v)) s)))))))"

definition DirectionFlag :: u32 where
  "DirectionFlag = 0x400"

definition cld :: "state \<Rightarrow> state" where
  "cld = (\<lambda>(c, m). (c\<lparr>eflags := eflags c AND NOT DirectionFlag\<rparr>, m))"

definition iret :: "state \<Rightarrow> state" where
  "iret s = popl (\<lambda>v. eflags_update (\<lambda>_. v)) (popl (\<lambda>v. seg_cs_update (\<lambda>_. ucast v)) (popl (\<lambda>v. eip_update (\<lambda>_. v)) s))"

text \<open>
  An interrupt through the gate of a vector: flags, code segment and instruction pointer are pushed, then the error code if
  there is one; the gate gives the code segment and the address, and interrupts are off.
\<close>

definition interrupt_gate :: "u16 \<Rightarrow> u32 \<Rightarrow> u32 option \<Rightarrow> state \<Rightarrow> state" where
  "interrupt_gate sel target err s =
     (let c = fst s;
          s = pushl (eip c) (pushl (ucast (seg_cs c)) (pushl (eflags c) s));
          (c, m) = (case err of None \<Rightarrow> s | Some e \<Rightarrow> pushl e s)
      in (c\<lparr>eip := target, seg_cs := sel, eflags := eflags c AND NOT EflagsInterruptEnable\<rparr>, m))"

subsection \<open>The stubs and the shared part\<close>

text \<open>The vectors that the file declares with \<^verbatim>\<open>ISR_ERR\<close>.\<close>

definition isr_err :: "nat list" where
  "isr_err = [8, 10, 11, 12, 13, 14, 17]"

definition isr_stub :: "nat \<Rightarrow> state \<Rightarrow> state" where
  "isr_stub vector s = (if vector \<in> set isr_err then pushl (of_nat vector) s else pushl (of_nat vector) (pushl 0 s))"

definition load_segments :: "u16 \<Rightarrow> state \<Rightarrow> state" where
  "load_segments sel = (\<lambda>(c, m). let c = c\<lparr>eax := (eax c AND 0xFFFF0000) OR ucast sel\<rparr> in
     (c\<lparr>seg_ds := sel, seg_es := sel, seg_fs := sel, seg_gs := sel\<rparr>, m))"

text \<open>Up to the \<^verbatim>\<open>call\<close>, which pushes the address \<open>resume\<close> of the instruction after it; and from there on.\<close>

definition isr_common_entry :: "u32 \<Rightarrow> state \<Rightarrow> state" where
  "isr_common_entry resume s =
     (let s = pusha s;
          c = fst s;
          s = pushl (ucast (seg_gs c)) (pushl (ucast (seg_fs c)) (pushl (ucast (seg_es c)) (pushl (ucast (seg_ds c)) s)));
          s = cld (load_segments 0x18 s);
          s = pushl (esp (fst s)) s
      in pushl resume s)"

definition isr_common_exit :: "state \<Rightarrow> state" where
  "isr_common_exit s =
     (let s = addl_esp 4 s;
          s = popl (\<lambda>v. seg_gs_update (\<lambda>_. ucast v)) s;
          s = popl (\<lambda>v. seg_fs_update (\<lambda>_. ucast v)) s;
          s = popl (\<lambda>v. seg_es_update (\<lambda>_. ucast v)) s;
          s = popl (\<lambda>v. seg_ds_update (\<lambda>_. ucast v)) s;
          s = addl_esp 8 (popa s)
      in iret s)"

definition isr_common :: "(state \<Rightarrow> state) \<Rightarrow> u32 \<Rightarrow> state \<Rightarrow> state" where
  "isr_common dispatch resume s = isr_common_exit (dispatch (isr_common_entry resume s))"

definition stub_placeholder :: "state \<Rightarrow> state" where
  "stub_placeholder s = iret s"

subsection \<open>The called function\<close>

text \<open>The \<^verbatim>\<open>struct registers\<close> at an address.\<close>

definition registers_at :: "memory \<Rightarrow> u32 \<Rightarrow> registers" where
  "registers_at m p =
     \<lparr>r_gs = m p, r_fs = m (p + 4), r_es = m (p + 8), r_ds = m (p + 12),
      r_edi = m (p + 16), r_esi = m (p + 20), r_ebp = m (p + 24), r_esp = m (p + 28),
      r_ebx = m (p + 32), r_edx = m (p + 36), r_ecx = m (p + 40), r_eax = m (p + 44),
      int_no = m (p + 48), err_code = m (p + 52), r_eip = m (p + 56), r_cs = m (p + 60), r_eflags = m (p + 64),
      r_user_esp = m (p + 68), r_ss = m (p + 72)\<rparr>"

text \<open>
  The calling convention: the function returns to its caller with the stack pointer above the return address and leaves the 17 cells of
  the record above its argument as they are (\<^verbatim>\<open>isr_dispatch\<close> only reads it); it may change every other register and the rest of the memory.
\<close>

definition cdecl :: "(state \<Rightarrow> state) \<Rightarrow> state \<Rightarrow> bool" where
  "cdecl f s \<longleftrightarrow>
     (let c = fst s; (c', m') = f s in
      esp c' = esp c + 4 \<and>
      map (\<lambda>k. m' (esp c + 8 + 4 * of_nat k)) [0..<17] = map (\<lambda>k. snd s (esp c + 8 + 4 * of_nat k)) [0..<17])"

subsection \<open>Laws\<close>

lemmas instruction_defs = pushl_def popl_def addl_esp_def pusha_def popa_def cld_def iret_def load_segments_def

definition interrupt_frame :: "nat \<Rightarrow> u32 option \<Rightarrow> machine \<Rightarrow> u32 list" where
  "interrupt_frame n err c =
     [ucast (seg_gs c), ucast (seg_fs c), ucast (seg_es c), ucast (seg_ds c),
      edi c, esi c, ebp c, esp c - 20, ebx c, edx c, ecx c, eax c,
      of_nat n, case err of None \<Rightarrow> 0 | Some e \<Rightarrow> e, eip c, ucast (seg_cs c), eflags c]"

text \<open>The record that the function should see.\<close>

definition interrupted :: "nat \<Rightarrow> u32 option \<Rightarrow> machine \<Rightarrow> memory \<Rightarrow> registers" where
  "interrupted n err c m =
     \<lparr>r_gs = ucast (seg_gs c), r_fs = ucast (seg_fs c), r_es = ucast (seg_es c), r_ds = ucast (seg_ds c),
      r_edi = edi c, r_esi = esi c, r_ebp = ebp c, r_esp = esp c - 20, r_ebx = ebx c, r_edx = edx c, r_ecx = ecx c, r_eax = eax c,
      int_no = of_nat n, err_code = (case err of None \<Rightarrow> 0 | Some e \<Rightarrow> e),
      r_eip = eip c, r_cs = ucast (seg_cs c), r_eflags = eflags c, r_user_esp = m (esp c), r_ss = m (esp c + 4)\<rparr>"

lemma stub_law:
  assumes "err = None \<longleftrightarrow> n \<notin> {8, 10, 11, 12, 13, 14, 17}"
  shows "isr_stub n (interrupt_gate sel target err (c, m)) =
    (c\<lparr>esp := esp c - 20, eip := target, seg_cs := sel, eflags := eflags c AND NOT EflagsInterruptEnable\<rparr>,
     m(esp c - 4 := eflags c, esp c - 8 := ucast (seg_cs c), esp c - 12 := eip c,
       esp c - 16 := (case err of None \<Rightarrow> 0 | Some e \<Rightarrow> e), esp c - 20 := of_nat n))"
  using assms by (cases err) (auto simp: isr_stub_def interrupt_gate_def isr_err_def pushl_def Let_def)

text \<open>The cells that the entry writes.\<close>

definition entry_memory :: "nat \<Rightarrow> u32 option \<Rightarrow> u32 \<Rightarrow> machine \<Rightarrow> memory \<Rightarrow> memory" where
  "entry_memory n err resume c m =
     m(esp c - 4 := eflags c, esp c - 8 := ucast (seg_cs c), esp c - 12 := eip c,
       esp c - 16 := (case err of None \<Rightarrow> 0 | Some e \<Rightarrow> e), esp c - 20 := of_nat n,
       esp c - 24 := eax c, esp c - 28 := ecx c, esp c - 32 := edx c, esp c - 36 := ebx c,
       esp c - 40 := esp c - 20, esp c - 44 := ebp c, esp c - 48 := esi c, esp c - 52 := edi c,
       esp c - 56 := ucast (seg_ds c), esp c - 60 := ucast (seg_es c), esp c - 64 := ucast (seg_fs c), esp c - 68 := ucast (seg_gs c),
       esp c - 72 := esp c - 68, esp c - 76 := resume)"

lemma isr_entry_law:
  assumes "err = None \<longleftrightarrow> n \<notin> {8, 10, 11, 12, 13, 14, 17}"
  shows "\<exists>c'. isr_common_entry resume (isr_stub n (interrupt_gate sel target err (c, m))) = (c', entry_memory n err resume c m) \<and>
    esp c' = esp c - 76 \<and> eflags c' = (eflags c AND NOT EflagsInterruptEnable) AND NOT DirectionFlag"
  by (simp add: stub_law [OF assms] isr_common_entry_def instruction_defs Let_def entry_memory_def)

lemma entry_memory_frame:
  "map (\<lambda>k. entry_memory n err resume c m (esp c - 68 + 4 * of_nat k)) [0..<17] = interrupt_frame n err c"
  by (simp add: upt_rec interrupt_frame_def entry_memory_def)

lemma entry_memory_registers: "registers_at (entry_memory n err resume c m) (esp c - 68) = interrupted n err c m"
  by (simp add: registers_at_def interrupted_def entry_memory_def add.commute [of 4 "esp c"])

lemma entry_memory_other:
  assumes "a \<notin> set (map (\<lambda>k. esp c - 4 * of_nat k) [1..<20])"
  shows "entry_memory n err resume c m a = m a"
proof -
  have "map (\<lambda>k. esp c - 4 * of_nat k) [1..<20] = [esp c - 4, esp c - 8, esp c - 12, esp c - 16, esp c - 20, esp c - 24, esp c - 28,
      esp c - 32, esp c - 36, esp c - 40, esp c - 44, esp c - 48, esp c - 52, esp c - 56, esp c - 60, esp c - 64, esp c - 68, esp c - 72, esp c - 76]"
    by (simp add: upt_rec)
  from assms [unfolded this] show ?thesis by (simp add: entry_memory_def)
qed

lemma selector_pushed [simp]: "ucast (ucast (w :: u16) :: u32) = w"
  by (rule bit_word_eqI) (simp add: bit_simps)

lemma common_exit_law:
  assumes "map (\<lambda>k. m (esp c + 4 + 4 * of_nat k)) [0..<17] = interrupt_frame n err c0" and "esp c = esp c0 - 72"
  shows "isr_common_exit (c, m) = (c0, m)"
  using assms by (cases c0) (simp add: isr_common_exit_def instruction_defs Let_def upt_rec interrupt_frame_def)

subsection \<open>Interrupts are invisible\<close>

text \<open>
  C32: an interrupt is invisible to the code it interrupts. For each of the 48 vectors that have a stub, when the processor pushes an
  error code exactly for the exceptions that define one: \<^verbatim>\<open>isr_dispatch\<close> is called with a pointer to a
  \<^verbatim>\<open>struct registers\<close> that holds the vector, the error code (0 where there is none) and every register of the interrupted code, with interrupts
  and the direction flag off; only the nineteen cells below the interrupted stack pointer have been written; and when the function returns as the
  calling convention says, all registers, selectors and flags are again what they were. A vector without a stub
  returns at once with the same effect.
\<close>

theorem interrupt_transparent:
  fixes c :: machine and m :: memory and sel :: u16 and target resume :: u32 and n :: nat and err :: "u32 option"
  defines "s \<equiv> isr_stub n (interrupt_gate sel target err (c, m))"
  assumes n: "n < 48" and err: "err = None \<longleftrightarrow> n \<notin> {8, 10, 11, 12, 13, 14, 17}"
    and f: "cdecl dispatch (isr_common_entry resume s)"
  shows "(case isr_common_entry resume s of (c', m') \<Rightarrow>
      m' (esp c' + 4) = esp c - 68 \<and> eflags c' AND 0x600 = 0 \<and>
      registers_at m' (esp c - 68) = interrupted n err c m \<and>
      (\<forall>a. a \<notin> set (map (\<lambda>k. esp c - 4 * of_nat k) [1..<20]) \<longrightarrow> m' a = m a)) \<and>
    isr_common dispatch resume s = (c, snd (dispatch (isr_common_entry resume s))) \<and>
    fst (stub_placeholder (interrupt_gate sel target None (c, m))) = c"
proof -
  let ?m = "entry_memory n err resume c m"
  obtain c' where e: "isr_common_entry resume s = (c', ?m)" "esp c' = esp c - 76"
      "eflags c' = (eflags c AND NOT EflagsInterruptEnable) AND NOT DirectionFlag"
    using isr_entry_law [OF err, of resume sel target c m] by (auto simp: s_def)
  obtain c2 m2 where d: "dispatch (c', ?m) = (c2, m2)" by fastforce
  have "map (\<lambda>k. m2 (esp c2 + 4 + 4 * of_nat k)) [0..<17] = interrupt_frame n err c" "esp c2 = esp c - 72"
    using f entry_memory_frame [of n err resume c m] by (simp_all add: cdecl_def e d Let_def del: map_eq_conv)
  then have "isr_common dispatch resume s = (c, snd (dispatch (isr_common_entry resume s)))"
    using common_exit_law by (simp add: isr_common_def e d)
  moreover have "fst (stub_placeholder (interrupt_gate sel target None (c, m))) = c"
    by (cases c) (simp add: stub_placeholder_def interrupt_gate_def instruction_defs Let_def)
  moreover have "?m (esp c' + 4) = esp c - 68" using e(2) by (simp add: entry_memory_def)
  moreover have "eflags c' AND 0x600 = 0" using e(3) by (simp add: DirectionFlag_def EflagsInterruptEnable_def and.assoc)
  ultimately show ?thesis using e(1) entry_memory_registers entry_memory_other by (simp del: set_map)
qed

text \<open>A page fault, with a function that changes four registers.\<close>

definition demo_machine :: machine where
  "demo_machine = \<lparr>edi = 1, esi = 2, ebx = 3, ebp = 4, esp = 0x8000, eflags = 0x202, eip = 0x100500,
     eax = 5, ecx = 6, edx = 7, seg_cs = 0x10, seg_ds = 0x18, seg_es = 0x18, seg_fs = 0x18, seg_gs = 0x18\<rparr>"

definition demo_function :: "state \<Rightarrow> state" where
  "demo_function = (\<lambda>(c, m). (c\<lparr>esp := esp c + 4, eax := 0, ecx := 0, edx := 0, ebx := 9\<rparr>, m(0x4000 := 1)))"

theorem interrupt_transparent_witness:
  "isr_common demo_function 0x100800 (isr_stub 14 (interrupt_gate 0x10 0x100700 (Some 2) (demo_machine, \<lambda>_. 0))) =
     (demo_machine, snd (demo_function (isr_common_entry 0x100800 (isr_stub 14 (interrupt_gate 0x10 0x100700 (Some 2) (demo_machine, \<lambda>_. 0))))))"
proof -
  let ?s = "isr_common_entry 0x100800 (isr_stub 14 (interrupt_gate 0x10 0x100700 (Some 2) (demo_machine, \<lambda>_. 0)))"
  obtain c m where s: "?s = (c, m)" "esp c = 0x8000 - 76" using isr_entry_law [of "Some 2" 14 "0x100800" "0x10" "0x100700" demo_machine "\<lambda>_. 0"]
    by (auto simp: demo_machine_def)
  have "cdecl demo_function ?s" using s by (simp add: cdecl_def demo_function_def upt_rec)
  then show ?thesis using interrupt_transparent [of 14 "Some 2" demo_function "0x100800" "0x10" "0x100700" demo_machine "\<lambda>_. 0"] by simp
qed

end
