(* ===== verification/Boot_Entry.thy ===== *)
theory Boot_Entry
  imports Isr_Entry Hw_Init
begin

text \<open>
  The first instructions of the kernel: the multiboot header of \<^verbatim>\<open>src/arch/x86_32/boot/multiboot.S\<close> and \<^verbatim>\<open>bootstrap_entry\<close> of
  \<^verbatim>\<open>src/arch/x86_32/kernel/bootstrap.S\<close>, up to the call of \<^verbatim>\<open>hw_init\<close>. The memory is one of bytes, because the loop that
  clears the uninitialised data stores bytes. The bounds of that data, the top of the stack and the
  address after the call are chosen by the linker and are arguments.
\<close>

definition multiboot_header :: "u32 list" where
  "multiboot_header = [0x1BADB002, 0x00000003, 0xE4524FFB]"

record boot_machine = machine +
  seg_ss :: u16

subsection \<open>Instructions\<close>

definition store32 :: "u32 \<Rightarrow> u32 \<Rightarrow> bytes \<Rightarrow> bytes" where
  "store32 a v m = m(a := ucast v, a + 1 := ucast (drop_bit 8 v), a + 2 := ucast (drop_bit 16 v), a + 3 := ucast (drop_bit 24 v))"

definition push_bytes :: "u32 \<Rightarrow> boot_machine \<times> bytes \<Rightarrow> boot_machine \<times> bytes" where
  "push_bytes v = (\<lambda>(c, m). (c\<lparr>esp := esp c - 4\<rparr>, store32 (esp c - 4) v m))"

definition rep_stosb :: "boot_machine \<times> bytes \<Rightarrow> boot_machine \<times> bytes" where
  "rep_stosb = (\<lambda>(c, m). (c\<lparr>edi := edi c + ecx c, ecx := 0\<rparr>, memset_loop (unat (ecx c)) (edi c) (ucast (eax c)) m))"

subsection \<open>The entry\<close>

definition bootstrap_entry :: "u32 \<Rightarrow> u32 \<Rightarrow> u32 \<Rightarrow> u32 \<Rightarrow> boot_machine \<times> bytes \<Rightarrow> boot_machine \<times> bytes" where
  "bootstrap_entry bss_start bss_end stack_top resume = (\<lambda>(c, m).
     let c = c\<lparr>eflags := eflags c AND NOT EflagsInterruptEnable\<rparr>;
         c = c\<lparr>edx := eax c\<rparr>;
         c = c\<lparr>esi := ebx c\<rparr>;
         c = c\<lparr>eax := (eax c AND 0xFFFF0000) OR 0x18\<rparr>;
         c = c\<lparr>seg_ds := 0x18, seg_es := 0x18, seg_fs := 0x18, seg_gs := 0x18, seg_ss := 0x18\<rparr>;
         c = c\<lparr>esp := stack_top\<rparr>;
         c = c\<lparr>eflags := eflags c AND NOT DirectionFlag\<rparr>;
         c = c\<lparr>edi := bss_start\<rparr>;
         c = c\<lparr>ecx := bss_end\<rparr>;
         c = c\<lparr>ecx := ecx c - edi c\<rparr>;
         c = c\<lparr>eax := 0\<rparr>;
         (c, m) = rep_stosb (c, m);
         (c, m) = push_bytes (esi c) (c, m);
         (c, m) = push_bytes (edx c) (c, m)
     in push_bytes resume (c, m))"

subsection \<open>Laws\<close>

lemma store32_same: "load32 (store32 a v m) a = v"
proof (rule bit_word_eqI)
  fix n
  assume "n < LENGTH(32)"
  then consider "n < 16" | "16 \<le> n" "n < 24" | "24 \<le> n" "n < 32" by fastforce
  then show "bit (load32 (store32 a v m) a) n \<longleftrightarrow> bit v n"
    by cases (auto simp: load32_def store32_def bit_simps)
qed

lemma store32_below: "load32 (store32 (a - 4) v m) a = load32 m a" "load32 (store32 (a - 8) v m) a = load32 m a"
  by (simp_all add: load32_def store32_def)

lemma store32_other:
  assumes "in_memory a 4" and "unat b < unat a \<or> unat a + 4 \<le> unat b"
  shows "store32 a v m b = m b"
proof -
  have "unat (a + 1) = unat a + 1" "unat (a + 2) = unat a + 2" "unat (a + 3) = unat a + 3" 
    using assms(1) unat_offset [of a 4 1] unat_offset [of a 4 2] unat_offset [of a 4 3] by simp_all
  with assms(2) show ?thesis by (auto simp: store32_def)
qed

lemma pushes_law:
  assumes "12 \<le> unat t"
  shows "load32 (store32 (t - 12) x (store32 (t - 8) y (store32 (t - 4) z m))) (t - 8) = y"
    and "load32 (store32 (t - 12) x (store32 (t - 8) y (store32 (t - 4) z m))) (t - 4) = z"
    and "unat a < unat t - 12 \<or> unat t \<le> unat a \<Longrightarrow> store32 (t - 12) x (store32 (t - 8) y (store32 (t - 4) z m)) a = m a"
proof -
  have u: "unat (t - 12) = unat t - 12" "unat (t - 8) = unat t - 8" "unat (t - 4) = unat t - 4"
    using assms by (simp_all add: unat_sub word_le_nat_alt)
  show "load32 (store32 (t - 12) x (store32 (t - 8) y (store32 (t - 4) z m))) (t - 8) = y"
    using store32_below(1) [of "t - 8"] by (simp add: store32_same)
  show "load32 (store32 (t - 12) x (store32 (t - 8) y (store32 (t - 4) z m))) (t - 4) = z"
    using store32_below(1) [of "t - 4"] store32_below(2) [of "t - 4"] by (simp add: store32_same)
  assume "unat a < unat t - 12 \<or> unat t \<le> unat a"
  then have "unat a < unat t - 12 \<or> unat t - 12 + 4 \<le> unat a" "unat a < unat t - 8 \<or> unat t - 8 + 4 \<le> unat a"
      "unat a < unat t - 4 \<or> unat t - 4 + 4 \<le> unat a" using assms by auto
  moreover have "unat t < 2 ^ 32" using unsigned_less [of t] by simp
  ultimately show "store32 (t - 12) x (store32 (t - 8) y (store32 (t - 4) z m)) a = m a"
    using assms by (simp add: store32_other in_memory_def u)
qed

text \<open>
  The header adds up to 0, as the boot loader requires. Started by the boot loader, with its magic number in \<open>eax\<close> and the address of its
  information in \<open>ebx\<close>, the kernel calls \<^verbatim>\<open>hw_init\<close> with exactly these two arguments; interrupts and the direction flag are
  off, the uninitialised data are 0 but for the twelve bytes on the stack, and nothing else has been written.
\<close>

lemma bootstrap_calls_hw_init:
  fixes bss_start bss_end stack_top :: u32
  assumes "unat bss_start + 12 \<le> unat stack_top" and "stack_top \<le> bss_end"
  shows "sum_list multiboot_header = 0 \<and>
    (case bootstrap_entry bss_start bss_end stack_top resume (c, m) of (c', m') \<Rightarrow>
       load32 m' (esp c' + 4) = eax c \<and> load32 m' (esp c' + 8) = ebx c \<and> esp c' = stack_top - 12 \<and> eflags c' AND 0x600 = 0 \<and>
       seg_ds c' = 0x18 \<and> seg_es c' = 0x18 \<and> seg_ss c' = 0x18 \<and>
       (\<forall>a. (a < bss_start \<or> bss_end \<le> a \<longrightarrow> m' a = m a) \<and>
         (bss_start \<le> a \<and> a < stack_top - 12 \<or> stack_top \<le> a \<and> a < bss_end \<longrightarrow> m' a = 0)))"
proof -
  let ?m = "memset_loop (unat (bss_end - bss_start)) bss_start 0 m"
  let ?m' = "store32 (stack_top - 12) resume (store32 (stack_top - 8) (eax c) (store32 (stack_top - 4) (ebx c) ?m))"
  have le: "unat bss_start \<le> unat bss_end" "12 \<le> unat stack_top" "unat stack_top \<le> unat bss_end" using assms by (simp_all add: word_le_nat_alt)
  then have n: "unat (bss_end - bss_start) = unat bss_end - unat bss_start" by (simp add: unat_sub word_le_nat_alt)
  moreover have "unat bss_end < 2 ^ 32" using unsigned_less [of bss_end] by simp
  ultimately have "in_memory bss_start (unat (bss_end - bss_start))" using le by (simp add: in_memory_def)
  from memset_law [OF this, of 0 m] n le have z: "?m a = (if bss_start \<le> a \<and> a < bss_end then 0 else m a)" for a
    by (simp add: word_le_nat_alt word_less_nat_alt)
  note p = pushes_law [OF le(2)]
  have u: "unat (stack_top - 12) = unat stack_top - 12" using le(2) by (simp add: unat_sub word_le_nat_alt)
  have "?m' a = m a" if "a < bss_start \<or> bss_end \<le> a" for a
    using that p(3) [of a resume "eax c" "ebx c" ?m] z [of a] le assms(1) by (auto simp: word_le_nat_alt word_less_nat_alt)
  moreover have "?m' a = 0" if "bss_start \<le> a \<and> a < stack_top - 12 \<or> stack_top \<le> a \<and> a < bss_end" for a
    using that p(3) [of a resume "eax c" "ebx c" ?m] z [of a] le assms(1) by (auto simp: word_le_nat_alt word_less_nat_alt u)
  moreover have "sum_list multiboot_header = 0" by (simp add: multiboot_header_def)
  ultimately show ?thesis
    by (simp add: bootstrap_entry_def rep_stosb_def push_bytes_def p(1,2) DirectionFlag_def EflagsInterruptEnable_def and.assoc)
qed

end
