(* ===== verification/Spec2Isabelle.thy ===== *)
theory Spec2Isabelle
  imports Shell Boot_Entry
begin

text \<open>
  A verification of NoviumOS, a small kernel for 32-bit x86: a preemptive scheduler, inter-process communication, a page
  allocator, paging, a heap, drivers for screen, keyboard, timer and interrupt controller, and a shell. All paths below are
  relative to \<^verbatim>\<open>src\<close>.

  \<^bold>\<open>The program.\<close> The boot loader enters \<^verbatim>\<open>arch/x86_32/kernel/bootstrap.S\<close>, which calls \<^verbatim>\<open>hw_init\<close>
  (\<^verbatim>\<open>arch/x86_32/boot/hw_init.c\<close>): it fills the interrupt descriptor table, remaps the interrupt controllers, starts the
  timer and the keyboard and calls \<^verbatim>\<open>kernel_main\<close> (\<^verbatim>\<open>init/main.c\<close>). That function sets up memory, tests the heap, starts the
  scheduler, tests the inter-process communication with real tasks, creates the shell and the worker, and becomes the idle
  task. From then on everything is driven by interrupts: a stub of \<^verbatim>\<open>isr.S\<close> calls \<^verbatim>\<open>isr_dispatch\<close>, whose handlers feed the
  keyboard ring and advance the scheduler's tick, and which ends with \<^verbatim>\<open>SchedPreempt\<close>, that is, possibly with a context switch.

  \<^bold>\<open>Conventions.\<close> Theory \<open>Novium_Prelude\<close> holds the integer types (\<^verbatim>\<open>u8\<close> to \<^verbatim>\<open>u64\<close> are words of that width, \<^verbatim>\<open>int\<close> is an integer), the
  collections of simplification rules, and \<open>returns x P\<close>: the computation \<open>x\<close> returns, and its result satisfies \<open>P\<close>. One definition
  stands for one C function, under its name; static variables are the fields of a record; pointers into a table are
  optional indices, other pointers are addresses. A loop that need not end is a partial function with result \<^const>\<open>None\<close>
  when it does not, and the theorems show that it does return. No model uses fuel. A function that may switch tasks returns with a flag that says
  whether it did, and what its caller does when it runs again is a definition with the suffix \<open>_resume\<close>.

  \<^bold>\<open>Theories and sources.\<close>
  \<^item> \<open>Cpu\<close>: the interrupt flag (\<^verbatim>\<open>process.c\<close>, \<^verbatim>\<open>asm/cpu.h\<close>), \<^verbatim>\<open>switch.S\<close>, the initial stack of a task. \<open>Isr_Entry\<close>: \<^verbatim>\<open>isr.S\<close>; an interrupt is
    invisible to the code it interrupts. \<open>Boot_Entry\<close>: \<^verbatim>\<open>multiboot.S\<close> and \<^verbatim>\<open>bootstrap.S\<close>.
  \<^item> \<open>Sched_Queue\<close>, \<open>Sched\<close>: \<^verbatim>\<open>kernel/sched.c\<close>, every function. \<open>Sched_Spec\<close> is the abstract scheduler on lists with its invariant
    \<open>ainv\<close>; \<open>Sched_Refine\<close>, \<open>Sched_Sim\<close> and \<open>Sched_Run\<close> show that every operation returns and implements the abstract one, and define
    the reachable states; \<open>Sched_Machine\<close> is the processor side, \<open>Sched_Live\<close> the fairness of round robin; \<open>Sched_Props\<close> and
    \<open>Sched_Props2\<close> hold the properties.
  \<^item> \<open>Ipc_Wait\<close>, \<open>Ipc_Park\<close>: \<^verbatim>\<open>ipc/ipc.c\<close>. \<open>Ipc_Port\<close>: \<^verbatim>\<open>ipc/message.c\<close>. \<open>Ipc_Sync\<close>: \<^verbatim>\<open>ipc/sync.c\<close>. \<open>Ipc_Props\<close>: their properties.
  \<^item> \<open>Page_Alloc\<close>, \<open>Page_Laws\<close>, \<open>Page_Props\<close>: \<^verbatim>\<open>mm/page_alloc.c\<close>. \<open>Paging\<close>: \<^verbatim>\<open>mm/paging.c\<close>, with the translation cache.
  \<^item> \<open>Heap\<close>: \<^verbatim>\<open>mm/heap.c\<close> at the level of memory cells. \<open>Heap_List\<close> (the free list), \<open>Heap_Inv\<close> (the abstract heap and its relation to
    memory), \<open>Heap_Edit\<close>, \<open>Heap_Alloc\<close>, \<open>Heap_Free\<close> (allocation and release implement first fit with splitting, growth and merging),
    \<open>Heap_Laws\<close>, \<open>Heap_Contract\<close>, \<open>Heap_Props\<close>.
  \<^item> \<open>Kstring\<close>: \<^verbatim>\<open>lib/string.c\<close>. \<open>Console\<close>: \<^verbatim>\<open>drivers/video/vga_console.c\<close>, with the terminal as its specification. \<open>Stdio\<close>: \<^verbatim>\<open>lib/stdio.c\<close>,
    \<^verbatim>\<open>kernel/debug.c\<close>. \<open>Ring\<close>, \<open>Keyboard\<close>: \<^verbatim>\<open>drivers/input/keyboard.c\<close>, \<^verbatim>\<open>ps2.c\<close>.
  \<^item> \<open>Irq\<close>, \<open>Irq_Laws\<close>: \<^verbatim>\<open>arch/x86_32/kernel/irq.c\<close>. \<open>Timer\<close>, \<open>Timer_Laws\<close>: \<^verbatim>\<open>pit.c\<close>. \<open>Irq_Props\<close>: their properties. \<open>Hw_Init\<close>: \<^verbatim>\<open>hw_init.c\<close>.
  \<^item> \<^verbatim>\<open>init/main.c\<close>: \<open>Boot\<close>, \<open>Boot_Props\<close> (\<^verbatim>\<open>kernel_main\<close> up to the scheduler, with the heap tests); \<open>Rendezvous\<close>, \<open>Rendezvous_Inv\<close>,
    \<open>Rendezvous_Props\<close> (producer and consumer on a port); \<open>Contention\<close>, \<open>Contention_Props\<close> (tasks on a mutex); \<open>Selftest\<close> (the
    tests the idle task runs alone, and the reports); \<open>Shell\<close> (shell, worker and idle task).

  \<^bold>\<open>Interfaces.\<close> What one component relies on in another is a locale, interpreted on the code's own functions: \<open>task_queue\<close> (queues of
  tasks, used by the scheduler), \<open>bounded_fifo\<close> (the ring of a port and of the keyboard), \<open>waitable\<close> (an object to sleep on: the
  two sides of a port, a semaphore, a mutex), \<open>page_provider\<close> (the page allocator, as the heap uses it), \<open>allocator\<close> (the heap, as its
  callers use it), \<open>address_space\<close> (paging) and \<open>block_mover\<close> (\<^verbatim>\<open>memmove\<close>, as scrolling uses it).

  \<^bold>\<open>What is shown.\<close>
  \<^item> Scheduler: the structure of queues, states and counters holds in every reachable state; every call returns;
    yielding implements the abstract scheduler and gives a task its registers back; round robin is fair; creating, waking and
    ending tasks do exactly what they should.
  \<^item> Communication: under any interleaving of the tasks' sections with scheduler events, no message of the port test is lost,
    duplicated or reordered and no wakeup is lost; at most one task is inside the critical section of the mutex test. The
    second of these tests also exhibits a defect: the first unlock that finds a waiter hands it the mutex in a way
    that leaves it asleep, and nobody enters the critical section again.
  \<^item> Memory: exactly the right pages are offered; the search for a run is the plain search; the heap implements its
    specification, never hands out memory twice and stays merged, except where \<^verbatim>\<open>kfree\<close> gives pages back, whose
    effect, pages that are offered and listed at the same time, is a theorem of its own; no translation is ever stale.
  \<^item> Devices: the console is a terminal, \<^verbatim>\<open>kprintf\<close> prints its format, keys arrive in order, every interrupt is served
    and transparent, sleeping takes exactly its number of ticks, the controllers let through exactly the lines with a handler.
  \<^item> The whole: \<^verbatim>\<open>hw_init\<close> and \<^verbatim>\<open>kernel_main\<close> run through, the self tests pass and the screen shows exactly their success lines; the shell
    shows what is typed.

  \<^bold>\<open>Parameters and bounds.\<close> Addresses that the linker chooses (kernel image, page tables, descriptor table, stubs, stacks, entry
  points) are arguments. What devices answer is an argument too: a function of the writes so far for the interrupt controllers, a tape of
  bytes for the keyboard controller, a list of interrupts or scancodes for code that waits. The theorems hold for all of
  them, under the hypotheses they name: the keyboard ring is not asked to hold more than its 31 scancodes (\<^verbatim>\<open>keyboard_store\<close> drops the rest); task
  identifiers do not wrap around within the calls considered; \<^verbatim>\<open>kernel_main\<close> starts with a memory map that leaves room for the first
  sixteen heap pages and does not offer the last page of the address space, whose end address is 0 in 32 bits.

  \<^bold>\<open>Not modelled.\<close> The linker script; the processor and the devices beyond the instructions and ports used; timing inside a section that
  runs with interrupts off. The loops of \<^verbatim>\<open>ipc_test_tasks\<close> that wait a bounded number of interrupts for the tasks are not definitions: the step
  relations of the two tests allow any number of interrupts, and the report is modelled from the state in which waiting ends. Files that are
  empty (file systems, framebuffer) have nothing to model. Headers that only declare prototypes correspond to the
  definitions of the functions.
\<close>

end
